(* ===== verification/Prelude.thy ===== *)
theory Prelude
  imports Main "HOL-Library.Multiset" "HOL-Library.AList"
begin

section \<open>Shared types, results, generic lemmas and hint collections\<close>

text \<open>
  What every other theory uses: Go byte strings as Isabelle strings (a char is a byte), Go errors
  as a datatype with the wrapping of \<open>fmt.Errorf\<close> (\<open>%w\<close>) and \<open>errors.Is\<close>, results as sums,
  the hint collections, and facts about lists and association lists that several components share.
\<close>

named_theorems go_simps "unfolding rules of the small Go standard library operations"
named_theorems step_simps "unfolding rules of the effectful operations"

type_synonym bytes = string

subsection \<open>Errors\<close>

text \<open>
  \<open>ErrNew\<close> is \<open>errors.New\<close> or an error of a third-party package, \<open>ErrWrap\<close> is
  \<open>fmt.Errorf("msg: %w", err)\<close>, \<open>ErrJoin\<close> is \<open>errors.Join\<close> of the non-nil errors. The named
  sentinels are those the code tests for.
\<close>

datatype gerror =
    ErrNew string
  | ErrWrap string gerror
  | ErrJoin "gerror list"
  | ErrDeadlineExceeded
  | ErrCanceled
  | ErrMaxBytes
  | ErrNoRows
  | ErrServerClosed

type_synonym 'a result = "gerror + 'a"

text \<open>\<open>errors.Is\<close>: the target is looked for along the wrapping chain.\<close>

fun errors_is :: "gerror \<Rightarrow> gerror \<Rightarrow> bool" where
  "errors_is (ErrWrap m e) t = (ErrWrap m e = t \<or> errors_is e t)"
| "errors_is (ErrJoin es) t = (ErrJoin es = t \<or> (\<exists>e \<in> set es. errors_is e t))"
| "errors_is e t = (e = t)"

text \<open>\<open>err.Error()\<close>: the message of a wrapped error is \<open>msg: inner\<close>.\<close>

fun join_with :: "string \<Rightarrow> string list \<Rightarrow> string" where
  "join_with sep [] = []"
| "join_with sep [x] = x"
| "join_with sep (x # y # ys) = x @ sep @ join_with sep (y # ys)"

fun err_msg :: "gerror \<Rightarrow> string" where
  "err_msg (ErrNew m) = m"
| "err_msg (ErrWrap m e) = m @ '': '' @ err_msg e"
| "err_msg (ErrJoin es) = join_with [CHR 0x0A] (map err_msg es)"
| "err_msg ErrDeadlineExceeded = ''context deadline exceeded''"
| "err_msg ErrCanceled = ''context canceled''"
| "err_msg ErrMaxBytes = ''http: request body too large''"
| "err_msg ErrNoRows = ''no rows in result set''"
| "err_msg ErrServerClosed = ''http: Server closed''"

text \<open>\<open>errors.Join\<close> drops nil errors and is nil when all are.\<close>

definition errors_join :: "gerror option list \<Rightarrow> gerror option" where
  "errors_join es = (case List.map_filter id es of [] \<Rightarrow> None | xs \<Rightarrow> Some (ErrJoin xs))"

lemma errors_is_refl [simp]: "errors_is e e"
  by (cases e) auto

lemma errors_is_wrap [simp, intro]: "errors_is e t \<Longrightarrow> errors_is (ErrWrap m e) t"
  by simp

lemma errors_join_None [simp]: "errors_join es = None \<longleftrightarrow> (\<forall>e \<in> set es. e = None)"
proof -
  have "List.map_filter id es = [] \<longleftrightarrow> (\<forall>e \<in> set es. e = None)"
    by (induction es) (auto simp: List.map_filter_simps split: option.splits)
  then show ?thesis by (auto simp: errors_join_def split: list.splits)
qed

subsection \<open>Results\<close>

definition bind_result :: "'a result \<Rightarrow> ('a \<Rightarrow> 'b result) \<Rightarrow> 'b result" where
  "bind_result r f = (case r of Inl e \<Rightarrow> Inl e | Inr x \<Rightarrow> f x)"

definition is_ok :: "'a result \<Rightarrow> bool" where
  "is_ok r = (case r of Inl _ \<Rightarrow> False | Inr _ \<Rightarrow> True)"

lemma bind_result_simps [simp]:
  "bind_result (Inl e) f = Inl e"
  "bind_result (Inr x) f = f x"
  by (simp_all add: bind_result_def)

lemma bind_result_Inr: "bind_result r f = Inr y \<longleftrightarrow> (\<exists>x. r = Inr x \<and> f x = Inr y)"
  by (cases r) auto

lemma is_ok_simps [simp]: "\<not> is_ok (Inl e)" "is_ok (Inr x)"
  by (simp_all add: is_ok_def)

text \<open>Mapping a fallible function over a list, stopping at the first error as a Go loop returns.\<close>

fun map_result :: "('a \<Rightarrow> 'b result) \<Rightarrow> 'a list \<Rightarrow> 'b list result" where
  "map_result f [] = Inr []"
| "map_result f (x # xs) =
     (case f x of Inl e \<Rightarrow> Inl e
      | Inr y \<Rightarrow> (case map_result f xs of Inl e \<Rightarrow> Inl e | Inr ys \<Rightarrow> Inr (y # ys)))"

lemma map_result_Cons_Inr:
  "map_result f (x # xs) = Inr ys \<longleftrightarrow>
     (\<exists>y ys'. f x = Inr y \<and> map_result f xs = Inr ys' \<and> ys = y # ys')"
  by (auto split: sum.splits)

lemma map_result_Inr_iff: "map_result f xs = Inr ys \<longleftrightarrow> list_all2 (\<lambda>x y. f x = Inr y) xs ys"
proof (induction xs arbitrary: ys)
  case (Cons x xs)
  show ?case by (auto simp only: map_result_Cons_Inr Cons.IH list_all2_Cons1)
qed auto

lemma map_result_ok: "(\<And>x. x \<in> set xs \<Longrightarrow> f x = Inr (g x)) \<Longrightarrow> map_result f xs = Inr (map g xs)"
  by (induction xs) auto

lemma map_result_length: "map_result f xs = Inr ys \<Longrightarrow> length ys = length xs"
  by (auto simp: map_result_Inr_iff list_all2_lengthD)

subsection \<open>Loops\<close>

text \<open>
  A Go loop is a step that ends it (\<open>Inl\<close>) or goes on (\<open>Inr\<close>). After \<open>n\<close> steps it has ended or is at a
  loop head; a loop without an endless sequence of loop heads ends.
\<close>

fun loop_steps :: "('st \<Rightarrow> 'r + 'st) \<Rightarrow> nat \<Rightarrow> 'st \<Rightarrow> 'r + 'st" where
  "loop_steps it 0 st = Inr st"
| "loop_steps it (Suc n) st = (case it st of Inl r \<Rightarrow> Inl r | Inr st' \<Rightarrow> loop_steps it n st')"

lemma loop_steps_Suc_right:
  "loop_steps it (Suc n) st = (case loop_steps it n st of Inl r \<Rightarrow> Inl r | Inr st' \<Rightarrow> it st')"
proof (induction n arbitrary: st)
  case (Suc n)
  show ?case
  proof (cases "it st")
    case (Inr st')
    then have "loop_steps it (Suc (Suc n)) st = loop_steps it (Suc n) st'" by (subst loop_steps.simps(2)) simp
    also note Suc.IH [of st']
    finally show ?thesis using Inr by simp
  qed simp
qed (simp split: sum.split)

lemma loop_ends:
  assumes "\<And>f. f 0 = st \<Longrightarrow> (\<forall>i. it (f i) = Inr (f (Suc i))) \<Longrightarrow> (\<exists>i r. it (f i) = Inl r)"
  shows "\<exists>n r. loop_steps it n st = Inl r"
proof (rule ccontr)
  assume "\<nexists>n r. loop_steps it n st = Inl r"
  then have no: "\<exists>st'. loop_steps it n st = Inr st'" for n by (cases "loop_steps it n st") auto
  define f where "f n = projr (loop_steps it n st)" for n
  have f: "loop_steps it n st = Inr (f n)" for n using no [of n] by (auto simp: f_def)
  then have step: "it (f i) = Inr (f (Suc i))" for i
    using loop_steps_Suc_right [of it i st] by (simp del: loop_steps.simps)
  moreover have "f 0 = st" using f [of 0] by simp
  ultimately obtain i r where "it (f i) = Inl r" using assms [of f] by blast
  with step show False by simp
qed

subsection \<open>Lists element by element\<close>

lemma list_all2_mem: "list_all2 P xs ys \<Longrightarrow> x \<in> set xs \<Longrightarrow> \<exists>y \<in> set ys. P x y"
  by (induction rule: list_all2_induct) auto

lemma list_all2_mem2: "list_all2 P xs ys \<Longrightarrow> y \<in> set ys \<Longrightarrow> \<exists>x \<in> set xs. P x y"
  by (induction rule: list_all2_induct) auto

subsection \<open>Association lists\<close>

lemma set_keys_update: "set (map fst (AList.update k v al)) = insert k (set (map fst al))"
  by (simp add: AList.dom_update)

lemma map_of_update [simp]: "map_of (AList.update k v al) = (map_of al)(k \<mapsto> v)"
  by (rule ext) (simp add: AList.update_conv)

lemma distinct_keys_update [simp]:
  "distinct (map fst al) \<Longrightarrow> distinct (map fst (AList.update k v al))"
  by (rule AList.distinct_update)

lemma map_of_delete [simp]: "map_of (AList.delete k al) = (map_of al)(k := None)"
  by (rule ext) (auto simp: AList.delete_conv')

lemma distinct_keys_delete [simp]:
  "distinct (map fst al) \<Longrightarrow> distinct (map fst (AList.delete k al))"
  by (simp add: AList.distinct_delete)

lemma list_all_keys_update:
  "P k \<Longrightarrow> list_all P (map fst al) \<Longrightarrow> list_all P (map fst (AList.update k v al))"
  unfolding list_all_iff set_keys_update by blast

lemma list_all_keys_delete:
  "list_all P (map fst al) \<Longrightarrow> list_all P (map fst (AList.delete k al))"
  unfolding list_all_iff AList.delete_keys by auto

end
