(* ===== verification/Go_Strings.thy ===== *)
theory Go_Strings
  imports Prelude "HOL-Library.Char_ord" "HOL-Library.List_Lexorder"
begin

section \<open>Go strings, decimal numbers and comparisons\<close>

text \<open>
  The operations of \<open>strings\<close>, \<open>strconv\<close>, \<open>cmp\<close> and \<open>slices\<close> the sources call, on byte
  strings: \<open>strings.Split\<close> on a one-byte separator, \<open>strings.CutPrefix\<close>, decimal formatting and
  reading, three-way comparison, \<open>cmp.Or\<close>, sorting and compacting by a comparison function.
\<close>

subsection \<open>Splitting and prefixes\<close>

fun split_on :: "char \<Rightarrow> string \<Rightarrow> string list" where
  "split_on c [] = [[]]"
| "split_on c (x # xs) =
     (if x = c then [] # split_on c xs
      else (case split_on c xs of [] \<Rightarrow> [[x]] | p # ps \<Rightarrow> (x # p) # ps))"

lemma split_on_nonempty [simp]: "split_on c s \<noteq> []"
  by (cases s) (auto split: list.splits)

lemma split_on_no_sep: "c \<notin> set s \<Longrightarrow> split_on c s = [s]"
  by (induction s) auto

lemma split_on_append:
  "c \<notin> set a \<Longrightarrow> split_on c (a @ c # b) = a # split_on c b"
  by (induction a) auto

lemma split_on_append_gen: "split_on c (a @ c # b) = split_on c a @ split_on c b"
  by (induction a) (auto split: list.splits)

lemma split_on_parts: "p \<in> set (split_on c s) \<Longrightarrow> c \<notin> set p"
  by (induction s arbitrary: p) (auto split: list.splits if_splits)

lemma join_split_on: "join_with [c] (split_on c s) = s"
proof (induction s)
  case (Cons x xs)
  obtain p ps where ps: "split_on c xs = p # ps" by (cases "split_on c xs") auto
  with Cons.IH have IH: "join_with [c] (p # ps) = xs" by simp
  show ?case
  proof (cases "x = c")
    case True
    with ps IH show ?thesis by simp
  next
    case False
    with ps IH show ?thesis by (cases ps) auto
  qed
qed simp

lemma split_on_join:
  "ps \<noteq> [] \<Longrightarrow> (\<And>p. p \<in> set ps \<Longrightarrow> c \<notin> set p) \<Longrightarrow> split_on c (join_with [c] ps) = ps"
proof (induction ps)
  case (Cons p ps)
  then show ?case
    by (cases ps) (auto simp: split_on_no_sep split_on_append)
qed simp

text \<open>\<open>strings.CutPrefix\<close>: the rest after the prefix, or not ok.\<close>

fun cut_prefix :: "string \<Rightarrow> string \<Rightarrow> string option" where
  "cut_prefix s [] = Some s"
| "cut_prefix [] (p # ps) = None"
| "cut_prefix (x # xs) (p # ps) = (if x = p then cut_prefix xs ps else None)"

lemma cut_prefix_iff: "cut_prefix s p = Some r \<longleftrightarrow> s = p @ r"
  by (induction s p rule: cut_prefix.induct) auto

lemma cut_prefix_append [simp]: "cut_prefix (p @ r) p = Some r"
  by (simp add: cut_prefix_iff)

subsection \<open>Decimal numbers\<close>

definition digit :: "nat \<Rightarrow> char" where
  "digit d = char_of (48 + d)"

definition is_digit :: "char \<Rightarrow> bool" where
  "is_digit c \<longleftrightarrow> 48 \<le> (of_char c :: nat) \<and> (of_char c :: nat) \<le> 57"

definition digit_val :: "char \<Rightarrow> nat" where
  "digit_val c = of_char c - 48"

fun dec_nat :: "nat \<Rightarrow> string" where
  "dec_nat n = (if n < 10 then [digit n] else dec_nat (n div 10) @ [digit (n mod 10)])"

declare dec_nat.simps [simp del]

definition itoa :: "int \<Rightarrow> string" where
  "itoa i = (if i < 0 then CHR ''-'' # dec_nat (nat (- i)) else dec_nat (nat i))"

definition dec_val :: "string \<Rightarrow> nat" where
  "dec_val s = foldl (\<lambda>acc c. 10 * acc + digit_val c) 0 s"

lemma of_char_digit: "d < 10 \<Longrightarrow> (of_char (digit d) :: nat) = 48 + d"
  by (simp add: digit_def)

lemma is_digit_digit [simp]: "d < 10 \<Longrightarrow> is_digit (digit d)"
  by (simp add: is_digit_def of_char_digit)

lemma digit_val_digit [simp]: "d < 10 \<Longrightarrow> digit_val (digit d) = d"
  by (simp add: digit_val_def of_char_digit)

lemma dec_val_Nil [simp]: "dec_val [] = 0"
  by (simp add: dec_val_def)

lemma dec_val_snoc [simp]: "dec_val (s @ [c]) = 10 * dec_val s + digit_val c"
  by (simp add: dec_val_def)

lemma dec_val_bound: "list_all is_digit s \<Longrightarrow> dec_val s < 10 ^ length s"
proof (induction s rule: rev_induct)
  case (snoc c s)
  then have "dec_val s < 10 ^ length s" "is_digit c" by simp_all
  moreover from this have "digit_val c \<le> 9" unfolding is_digit_def digit_val_def by linarith
  ultimately show ?case by simp
qed simp

lemma dec_val_dec_nat [simp]: "dec_val (dec_nat n) = n"
proof (induction n rule: dec_nat.induct)
  case (1 n)
  show ?case
  proof (cases "n < 10")
    case True
    then show ?thesis using dec_val_snoc [of "[]" "digit n"] by (simp add: dec_nat.simps)
  next
    case False
    with 1 show ?thesis by (subst dec_nat.simps) simp
  qed
qed

lemma dec_nat_nonempty [simp]: "dec_nat n \<noteq> []"
  by (subst dec_nat.simps) simp

lemma dec_nat_digits: "c \<in> set (dec_nat n) \<Longrightarrow> is_digit c"
proof (induction n arbitrary: c rule: dec_nat.induct)
  case (1 n)
  then show ?case by (subst (asm) (2) dec_nat.simps) (auto split: if_splits)
qed

lemma dec_nat_inj [simp]: "dec_nat m = dec_nat n \<longleftrightarrow> m = n"
  by (metis dec_val_dec_nat)

lemma is_digit_not:
  "is_digit c \<Longrightarrow> c \<noteq> CHR ''-'' \<and> c \<noteq> CHR ''.'' \<and> c \<noteq> CHR ''/'' \<and> c \<noteq> CHR '':'' \<and> c \<noteq> CHR ''Z''
     \<and> c \<noteq> CHR ''T'' \<and> c \<noteq> CHR ''+'' \<and> c \<noteq> CHR '','' \<and> c \<noteq> CHR ''e'' \<and> c \<noteq> CHR ''E''
     \<and> c \<noteq> CHR ''*'' \<and> c \<noteq> CHR ''?''"
  by (auto simp: is_digit_def)

lemma hd_dec_nat_zero: "hd (dec_nat n) = CHR ''0'' \<longleftrightarrow> n = 0"
proof (induction n rule: dec_nat.induct)
  case (1 n)
  show ?case
  proof (cases "n < 10")
    case True
    then have "digit n = digit 0 \<longleftrightarrow> n = 0" by (metis digit_val_digit zero_less_numeral)
    moreover have "digit 0 = CHR ''0''" by code_simp
    ultimately have "digit n = CHR ''0'' \<longleftrightarrow> n = 0" by simp
    with True show ?thesis by (subst dec_nat.simps) simp
  next
    case False
    then have "dec_nat n = dec_nat (n div 10) @ [digit (n mod 10)]" by (subst dec_nat.simps) simp
    with False 1 show ?thesis by (simp add: hd_append)
  qed
qed

text \<open>Zero-padded decimals of a fixed width, as \<open>time.Format\<close> prints them.\<close>

fun pad_dec :: "nat \<Rightarrow> nat \<Rightarrow> string" where
  "pad_dec 0 n = []"
| "pad_dec (Suc w) n = pad_dec w (n div 10) @ [digit (n mod 10)]"

lemma pad_dec_numeral:
  "pad_dec (numeral k) n = pad_dec (pred_numeral k) (n div 10) @ [digit (n mod 10)]"
  unfolding numeral_eq_Suc [of k] by (rule pad_dec.simps(2))

lemma length_pad_dec [simp]: "length (pad_dec w n) = w"
  by (induction w arbitrary: n) auto

lemma pad_dec_digits: "c \<in> set (pad_dec w n) \<Longrightarrow> is_digit c"
  by (induction w arbitrary: n) auto

lemma dec_val_pad_dec: "n < 10 ^ w \<Longrightarrow> dec_val (pad_dec w n) = n"
proof (induction w arbitrary: n)
  case (Suc w)
  then have "n div 10 < 10 ^ w" by (simp add: less_mult_imp_div_less mult.commute)
  with Suc.IH show ?case by simp
qed simp

lemma pad_dec_inj: "m < 10 ^ w \<Longrightarrow> n < 10 ^ w \<Longrightarrow> pad_dec w m = pad_dec w n \<longleftrightarrow> m = n"
  by (metis dec_val_pad_dec)

lemma digit_less_iff: "d < 10 \<Longrightarrow> e < 10 \<Longrightarrow> digit d < digit e \<longleftrightarrow> d < e"
  by (simp add: less_char_def of_char_digit)

lemma digit_eq_iff: "d < 10 \<Longrightarrow> e < 10 \<Longrightarrow> digit d = digit e \<longleftrightarrow> d = e"
  by (metis digit_val_digit)

lemma list_less_append_eq_length:
  fixes a b c d :: "'a::linorder list"
  assumes "length a = length b"
  shows "a @ c < b @ d \<longleftrightarrow> a < b \<or> (a = b \<and> c < d)"
  using assms by (induction a b rule: list_induct2) auto

lemma div_mod_less_iff:
  "m div 10 < n div 10 \<or> (m div 10 = n div 10 \<and> m mod 10 < n mod 10) \<longleftrightarrow> m < (n :: nat)"
proof -
  obtain q r where m: "m = 10 * q + r" "r < 10" by (metis mult_div_mod_eq mod_less_divisor zero_less_numeral)
  obtain s t where n: "n = 10 * s + t" "t < 10" by (metis mult_div_mod_eq mod_less_divisor zero_less_numeral)
  from m have "m div 10 = q" "m mod 10 = r" by simp_all
  moreover from n have "n div 10 = s" "n mod 10 = t" by simp_all
  moreover have "q < s \<or> (q = s \<and> r < t) \<longleftrightarrow> 10 * q + r < 10 * s + t" using m(2) n(2) by linarith
  ultimately show ?thesis using m n by simp
qed

text \<open>Zero-padded decimals of one width compare as the numbers do.\<close>

lemma pad_dec_less_iff:
  "m < 10 ^ w \<Longrightarrow> n < 10 ^ w \<Longrightarrow> pad_dec w m < pad_dec w n \<longleftrightarrow> m < n"
proof (induction w arbitrary: m n)
  case (Suc w)
  from Suc.prems have d: "m div 10 < 10 ^ w" "n div 10 < 10 ^ w"
    by (simp_all add: less_mult_imp_div_less mult.commute)
  have "pad_dec (Suc w) m < pad_dec (Suc w) n \<longleftrightarrow>
      m div 10 < n div 10 \<or> (m div 10 = n div 10 \<and> m mod 10 < n mod 10)"
    using d by (simp add: list_less_append_eq_length Suc.IH pad_dec_inj digit_less_iff digit_eq_iff)
  also have "\<dots> \<longleftrightarrow> m < n" by (rule div_mod_less_iff)
  finally show ?case .
qed simp

subsection \<open>Comparison functions, sorting, compacting\<close>

text \<open>\<open>cmp.Compare\<close> on ordered types and \<open>cmp.Or\<close> (the first non-zero value).\<close>

definition cmp_compare :: "'a::linorder \<Rightarrow> 'a \<Rightarrow> int" where
  "cmp_compare a b = (if a < b then -1 else if b < a then 1 else 0)"

fun cmp_or :: "int list \<Rightarrow> int" where
  "cmp_or [] = 0"
| "cmp_or (x # xs) = (if x \<noteq> 0 then x else cmp_or xs)"

lemma cmp_compare_simps [simp]:
  "cmp_compare a b = 0 \<longleftrightarrow> a = b" "cmp_compare a b < 0 \<longleftrightarrow> a < b" "0 < cmp_compare a b \<longleftrightarrow> b < a"
  "cmp_compare a a = 0"
  by (auto simp: cmp_compare_def)

text \<open>
  \<open>slices.SortFunc\<close>: a sort by the comparison function. Its order of elements that compare equal
  is not specified by Go; here it is the stable one, and every use below compares equal only rows
  that the archive stores alike.
\<close>

fun insert_func :: "('a \<Rightarrow> 'a \<Rightarrow> int) \<Rightarrow> 'a \<Rightarrow> 'a list \<Rightarrow> 'a list" where
  "insert_func cmp x [] = [x]"
| "insert_func cmp x (y # ys) = (if cmp x y \<le> 0 then x # y # ys else y # insert_func cmp x ys)"

fun sort_func :: "('a \<Rightarrow> 'a \<Rightarrow> int) \<Rightarrow> 'a list \<Rightarrow> 'a list" where
  "sort_func cmp [] = []"
| "sort_func cmp (x # xs) = insert_func cmp x (sort_func cmp xs)"

text \<open>\<open>slices.CompactFunc\<close>: of each run of equal elements only the first is kept.\<close>

fun compact_func :: "('a \<Rightarrow> 'a \<Rightarrow> bool) \<Rightarrow> 'a list \<Rightarrow> 'a list" where
  "compact_func eq [] = []"
| "compact_func eq [x] = [x]"
| "compact_func eq (x # y # ys) =
     (if eq x y then compact_func eq (x # ys) else x # compact_func eq (y # ys))"

lemma mset_insert_func [simp]: "mset (insert_func cmp x xs) = add_mset x (mset xs)"
  by (induction xs) auto

lemma mset_sort_func [simp]: "mset (sort_func cmp xs) = mset xs"
  by (induction xs) auto

lemma set_sort_func [simp]: "set (sort_func cmp xs) = set xs"
  by (metis mset_sort_func set_mset_mset)

lemma length_sort_func [simp]: "length (sort_func cmp xs) = length xs"
  by (metis mset_sort_func size_mset)

lemma sort_func_Nil_iff [simp]: "sort_func cmp xs = [] \<longleftrightarrow> xs = []"
  by (metis length_0_conv length_sort_func)

text \<open>What \<open>SortFunc\<close> asks of its argument: a strict weak ordering.\<close>

definition weak_order :: "('a \<Rightarrow> 'a \<Rightarrow> int) \<Rightarrow> bool" where
  "weak_order cmp \<longleftrightarrow>
     (\<forall>a b. cmp a b \<le> 0 \<or> cmp b a \<le> 0) \<and>
     (\<forall>a b c. cmp a b \<le> 0 \<longrightarrow> cmp b c \<le> 0 \<longrightarrow> cmp a c \<le> 0)"

lemma sorted_insert_func:
  assumes "weak_order cmp" and "sorted_wrt (\<lambda>a b. cmp a b \<le> 0) xs"
  shows "sorted_wrt (\<lambda>a b. cmp a b \<le> 0) (insert_func cmp x xs)"
  using assms(2)
proof (induction xs)
  case (Cons y ys)
  have set: "set (insert_func cmp x ys) = insert x (set ys)"
    by (metis mset_insert_func set_mset_add_mset_insert set_mset_mset)
  from assms(1) have total: "\<not> cmp x y \<le> 0 \<Longrightarrow> cmp y x \<le> 0"
    and trans: "\<And>a b c. cmp a b \<le> 0 \<Longrightarrow> cmp b c \<le> 0 \<Longrightarrow> cmp a c \<le> 0"
    unfolding weak_order_def by blast+
  from Cons show ?case by (auto simp: set intro: total trans)
qed simp

lemma sorted_sort_func:
  "weak_order cmp \<Longrightarrow> sorted_wrt (\<lambda>a b. cmp a b \<le> 0) (sort_func cmp xs)"
  by (induction xs) (auto intro: sorted_insert_func)

lemma set_compact_func_subset: "set (compact_func eq xs) \<subseteq> set xs"
  by (induction eq xs rule: compact_func.induct) auto

lemma compact_func_eq_set: "(\<And>x y. eq x y \<longleftrightarrow> x = y) \<Longrightarrow> set (compact_func eq xs) = set xs"
  by (induction eq xs rule: compact_func.induct) auto

text \<open>Sorted, then compacted by the same comparison: strictly increasing.\<close>

lemma compact_func_strict:
  assumes "sorted_wrt (\<lambda>a b. cmp a b \<le> 0) xs" and "weak_order cmp"
    and sym: "\<And>a b. cmp a b < 0 \<longleftrightarrow> \<not> cmp b a \<le> 0"
  shows "sorted_wrt (\<lambda>a b. cmp a b < 0) (compact_func (\<lambda>a b. cmp a b = 0) xs)"
  using assms(1)
proof (induction "\<lambda>a b. cmp a b = 0" xs rule: compact_func.induct)
  case (3 x y ys)
  show ?case
  proof (cases "cmp x y = 0")
    case True
    with 3 show ?thesis by auto
  next
    case False
    with "3.prems" have xy: "cmp x y < 0" by simp
    have "cmp x z < 0" if "z \<in> set (compact_func (\<lambda>a b. cmp a b = 0) (y # ys))" for z
    proof -
      from that have z: "z \<in> set (y # ys)" using set_compact_func_subset by fastforce
      with "3.prems" have yz: "z = y \<or> cmp y z \<le> 0" by auto
      show ?thesis
      proof (rule ccontr)
        assume "\<not> cmp x z < 0"
        with sym have "cmp z x \<le> 0" by blast
        with yz assms(2) have "cmp y x \<le> 0" unfolding weak_order_def by metis
        with xy sym show False by blast
      qed
    qed
    with False 3 show ?thesis by simp
  qed
qed auto

text \<open>Compacting by an equivalence keeps a representative of every element.\<close>

lemma compact_func_rep:
  assumes refl: "\<And>a. eq a a" and sym: "\<And>a b. eq a b \<Longrightarrow> eq b a" and trans: "\<And>a b c. eq a b \<Longrightarrow> eq b c \<Longrightarrow> eq a c"
  shows "x \<in> set xs \<Longrightarrow> \<exists>y \<in> set (compact_func eq xs). eq x y"
proof (induction eq\<equiv>eq xs arbitrary: x rule: compact_func.induct)
  case (3 a b ys)
  show ?case
  proof (cases "eq a b")
    case True
    obtain z where z: "z \<in> set (compact_func eq (a # ys))" "eq a z" using "3.hyps"(1) [OF True, of a] by auto
    consider "x = b" | "x \<in> set (a # ys)" using "3.prems" by auto
    then show ?thesis
    proof cases
      case 1
      have "eq b z" by (rule trans [OF sym [OF True] z(2)])
      with 1 z(1) True show ?thesis by (simp add: bexI [of _ z])
    next
      case 2
      from "3.hyps"(1) [OF True 2] True show ?thesis by simp
    qed
  next
    case False
    with 3 refl show ?thesis by auto
  qed
qed (auto intro: refl)

end
