(* ===== verification/Go_Utf8.thy ===== *)
theory Go_Utf8
  imports Go_Strings
begin

section \<open>UTF-8 and JSON string literals\<close>

text \<open>
  How \<open>encoding/json\<close> writes a Go string as a literal and reads one back: the escapes of
  \<open>json.Marshal\<close> (HTML characters included), the replacement of invalid UTF-8 by U+FFFD, surrogate
  pairs, and the scanner's state machine for the inside of a literal. The round trip is exact on valid
  UTF-8.
\<close>

abbreviation byte :: "char \<Rightarrow> nat" where
  "byte c \<equiv> of_char c"

abbreviation chr :: "nat \<Rightarrow> char" where
  "chr n \<equiv> char_of n"

subsection \<open>Rune boundaries\<close>

text \<open>
  For the first byte of a multi-byte rune: how many bytes follow and the range of the first of them.
  Overlong forms, surrogates and code points past U+10FFFF are not runes.
\<close>

definition rune_spec :: "char \<Rightarrow> (nat \<times> nat \<times> nat) option" where
  "rune_spec b =
     (let x = byte b in
      if 0xC2 \<le> x \<and> x \<le> 0xDF then Some (1, 0x80, 0xBF)
      else if x = 0xE0 then Some (2, 0xA0, 0xBF)
      else if x = 0xED then Some (2, 0x80, 0x9F)
      else if 0xE1 \<le> x \<and> x \<le> 0xEF then Some (2, 0x80, 0xBF)
      else if x = 0xF0 then Some (3, 0x90, 0xBF)
      else if x = 0xF4 then Some (3, 0x80, 0x8F)
      else if 0xF1 \<le> x \<and> x \<le> 0xF3 then Some (3, 0x80, 0xBF)
      else None)"

fun tail_ok :: "nat \<Rightarrow> nat \<Rightarrow> nat \<Rightarrow> bytes \<Rightarrow> bool" where
  "tail_ok 0 lo hi r = True"
| "tail_ok (Suc n) lo hi [] = False"
| "tail_ok (Suc n) lo hi (b # r) = (lo \<le> byte b \<and> byte b \<le> hi \<and> tail_ok n 0x80 0xBF r)"

text \<open>\<open>rune_len\<close>: the length of the multi-byte rune a string starts with, 0 if it starts with none.\<close>

fun rune_len :: "bytes \<Rightarrow> nat" where
  "rune_len [] = 0"
| "rune_len (b # r) =
     (case rune_spec b of None \<Rightarrow> 0
      | Some (n, lo, hi) \<Rightarrow> if tail_ok n lo hi r then Suc n else 0)"

lemma tail_ok_length: "tail_ok n lo hi r \<Longrightarrow> n \<le> length r"
  by (induction n lo hi r rule: tail_ok.induct) auto

lemma tail_ok_bytes: "tail_ok n lo hi r \<Longrightarrow> 0x80 \<le> lo \<Longrightarrow> c \<in> set (take n r) \<Longrightarrow> 0x80 \<le> byte c"
  by (induction n lo hi r rule: tail_ok.induct) auto

lemma tail_ok_take: "tail_ok n lo hi r \<Longrightarrow> tail_ok n lo hi (take n r @ x)"
  by (induction n lo hi r rule: tail_ok.induct) auto

lemma rune_spec_lo: "rune_spec b = Some (n, lo, hi) \<Longrightarrow> 0x80 \<le> lo \<and> 0x80 \<le> byte b"
  by (auto simp: rune_spec_def Let_def split: if_splits)

lemma rune_len_le: "rune_len s \<le> length s"
  by (cases s) (auto split: option.splits dest: tail_ok_length)

lemma rune_len_bytes:
  assumes "c \<in> set (take (rune_len s) s)"
  shows "0x80 \<le> byte c"
proof -
  from assms obtain b r n lo hi where s: "s = b # r" "rune_spec b = Some (n, lo, hi)" "tail_ok n lo hi r"
      "c = b \<or> c \<in> set (take n r)"
    by (cases s) (auto split: option.splits if_splits)
  with rune_spec_lo [OF s(2)] tail_ok_bytes [OF s(3)] show ?thesis by blast
qed

lemma rune_len_take: "rune_len s = n \<Longrightarrow> 0 < n \<Longrightarrow> rune_len (take n s @ x) = n"
  by (cases s) (auto split: option.splits if_splits dest: tail_ok_take)

lemma rune_len_ascii [simp]: "byte c < 0x80 \<Longrightarrow> rune_len (c # s) = 0"
  by (auto split: option.splits dest: rune_spec_lo)

text \<open>Valid UTF-8.\<close>

function valid_utf8 :: "bytes \<Rightarrow> bool" where
  "valid_utf8 s =
     (case s of [] \<Rightarrow> True
      | c # r \<Rightarrow> if byte c < 0x80 then valid_utf8 r
                 else if rune_len s = 0 then False
                 else valid_utf8 (drop (rune_len s) s))"
  by pat_completeness auto
termination
  by (relation "measure length") (auto simp: diff_less)

declare valid_utf8.simps [simp del]

lemma valid_utf8_Nil [simp]: "valid_utf8 []"
  by (subst valid_utf8.simps) simp

lemma valid_utf8_ascii: "byte c < 0x80 \<Longrightarrow> valid_utf8 (c # r) = valid_utf8 r"
  by (subst valid_utf8.simps) simp

lemma valid_utf8_all_ascii: "(\<And>c. c \<in> set s \<Longrightarrow> byte c < 0x80) \<Longrightarrow> valid_utf8 s"
  by (induction s) (auto simp: valid_utf8_ascii)

subsection \<open>Hexadecimal\<close>

definition hex_digit :: "nat \<Rightarrow> char" where
  "hex_digit d = (if d < 10 then chr (48 + d) else chr (87 + d))"

definition is_hex :: "char \<Rightarrow> bool" where
  "is_hex c \<longleftrightarrow> (48 \<le> byte c \<and> byte c \<le> 57) \<or> (97 \<le> byte c \<and> byte c \<le> 102) \<or>
     (65 \<le> byte c \<and> byte c \<le> 70)"

definition hex_val :: "char \<Rightarrow> nat" where
  "hex_val c = (if byte c \<le> 57 then byte c - 48 else if byte c \<le> 70 then byte c - 55 else byte c - 87)"

definition hex4 :: "bytes \<Rightarrow> nat" where
  "hex4 s = foldl (\<lambda>acc c. 16 * acc + hex_val c) 0 (take 4 s)"

lemma byte_hex_digit: "d < 16 \<Longrightarrow> byte (hex_digit d) = (if d < 10 then 48 + d else 87 + d)"
  by (simp add: hex_digit_def)

lemma is_hex_hex_digit [simp]: "d < 16 \<Longrightarrow> is_hex (hex_digit d)"
  by (simp add: is_hex_def byte_hex_digit)

lemma hex_val_hex_digit [simp]: "d < 16 \<Longrightarrow> hex_val (hex_digit d) = d"
  by (auto simp: hex_val_def byte_hex_digit)

subsection \<open>Writing a literal\<close>

definition esc_ascii :: "char \<Rightarrow> bytes" where
  "esc_ascii c =
     (if c = CHR 0x5C \<or> c = CHR 0x22 then [CHR 0x5C, c]
      else if byte c = 8 then [CHR 0x5C, CHR ''b'']
      else if byte c = 12 then [CHR 0x5C, CHR ''f'']
      else if byte c = 10 then [CHR 0x5C, CHR ''n'']
      else if byte c = 13 then [CHR 0x5C, CHR ''r'']
      else if byte c = 9 then [CHR 0x5C, CHR ''t'']
      else if byte c < 0x20 \<or> c = CHR ''<'' \<or> c = CHR ''>'' \<or> c = CHR ''&'' then
        [CHR 0x5C, CHR ''u'', CHR ''0'', CHR ''0'', hex_digit (byte c div 16), hex_digit (byte c mod 16)]
      else [c])"

definition esc_fffd :: bytes where
  "esc_fffd = CHR 0x5C # ''ufffd''"

definition line_sep :: "bytes" where "line_sep = [CHR 0xE2, CHR 0x80, CHR 0xA8]"
definition par_sep :: "bytes" where "par_sep = [CHR 0xE2, CHR 0x80, CHR 0xA9]"

text \<open>\<open>quote_body\<close>: the inside of the literal \<open>json.Marshal\<close> writes for a string.\<close>

function quote_body :: "bytes \<Rightarrow> bytes" where
  "quote_body s =
     (case s of [] \<Rightarrow> []
      | c # r \<Rightarrow>
          if byte c < 0x80 then esc_ascii c @ quote_body r
          else if rune_len s = 0 then esc_fffd @ quote_body r
          else (let p = take (rune_len s) s in
                (if p = line_sep then CHR 0x5C # ''u2028''
                 else if p = par_sep then CHR 0x5C # ''u2029'' else p) @
                quote_body (drop (rune_len s) s)))"
  by pat_completeness auto
termination
  by (relation "measure length") (auto simp: diff_less)

declare quote_body.simps [simp del]

subsection \<open>Reading a literal\<close>

text \<open>UTF-8 encoding of a code point.\<close>

definition utf8_encode :: "nat \<Rightarrow> bytes" where
  "utf8_encode n =
     (if n < 0x80 then [chr n]
      else if n < 0x800 then [chr (0xC0 + n div 64), chr (0x80 + n mod 64)]
      else if n < 0x10000 then
        [chr (0xE0 + n div 4096), chr (0x80 + n div 64 mod 64), chr (0x80 + n mod 64)]
      else [chr (0xF0 + n div 262144), chr (0x80 + n div 4096 mod 64), chr (0x80 + n div 64 mod 64),
            chr (0x80 + n mod 64)])"

definition fffd :: bytes where
  "fffd = [CHR 0xEF, CHR 0xBF, CHR 0xBD]"

definition is_surrogate :: "nat \<Rightarrow> bool" where
  "is_surrogate n \<longleftrightarrow> 0xD800 \<le> n \<and> n < 0xE000"

text \<open>The low half of a pair, if the rest starts with the escape of one: the combined code point.\<close>

definition surrogate_pair :: "nat \<Rightarrow> bytes \<Rightarrow> nat option" where
  "surrogate_pair hi r =
     (if 6 \<le> length r \<and> r ! 0 = CHR 0x5C \<and> r ! 1 = CHR ''u'' \<and> list_all is_hex (take 4 (drop 2 r)) then
        (let lo = hex4 (drop 2 r) in
         if hi < 0xDC00 \<and> 0xDC00 \<le> lo \<and> lo < 0xE000
         then Some ((hi - 0xD800) * 1024 + (lo - 0xDC00) + 0x10000) else None)
      else None)"

text \<open>The characters a backslash may stand before, \<open>u\<close> apart; the scanner refuses the others, \<open>unquote\<close> stops.\<close>

definition esc_char :: "char \<Rightarrow> bool" where
  "esc_char e \<longleftrightarrow> e \<in> {CHR 0x22, CHR 0x5C, CHR ''/'', CHR 0x27, CHR ''b'', CHR ''f'', CHR ''n'', CHR ''r'', CHR ''t''}"

definition unescape :: "char \<Rightarrow> char" where
  "unescape e =
     (if e = CHR ''b'' then chr 8 else if e = CHR ''f'' then chr 12 else if e = CHR ''n'' then chr 10
      else if e = CHR ''r'' then chr 13 else if e = CHR ''t'' then chr 9 else e)"

function unquote :: "bytes \<Rightarrow> bytes" where
  "unquote s =
     (case s of [] \<Rightarrow> []
      | c # r \<Rightarrow>
          if c = CHR 0x5C then
            (case r of [] \<Rightarrow> []
             | e # q \<Rightarrow>
                 if e = CHR ''u'' then
                   (let rr = hex4 q in
                    if is_surrogate rr then
                      (case surrogate_pair rr (drop 4 q) of
                         Some dec \<Rightarrow> utf8_encode dec @ unquote (drop 10 q)
                       | None \<Rightarrow> fffd @ unquote (drop 4 q))
                    else utf8_encode rr @ unquote (drop 4 q))
                 else if esc_char e then unescape e # unquote q
                 else [])
          else if byte c < 0x80 then c # unquote r
          else if rune_len s = 0 then fffd @ unquote r
          else take (rune_len s) s @ unquote (drop (rune_len s) s))"
  by pat_completeness auto
termination
  by (relation "measure length") (auto simp: diff_less)

declare unquote.simps [simp del]

lemma unquote_Nil [simp]: "unquote [] = []"
  by (subst unquote.simps) simp

subsection \<open>Writing, then reading, is the identity on valid UTF-8\<close>

lemma chr_eqI: "byte c = n \<Longrightarrow> chr n = c"
  by (metis char_of_char)

lemma digit_chars:
  "digit 0 = CHR ''0''" "digit (Suc 0) = CHR ''1''" "digit 1 = CHR ''1''" "digit 2 = CHR ''2''" "digit 3 = CHR ''3''"
  "digit 4 = CHR ''4''" "digit 5 = CHR ''5''" "digit 6 = CHR ''6''" "digit 7 = CHR ''7''" "digit 8 = CHR ''8''"
  "digit 9 = CHR ''9''"
  unfolding digit_def by (rule chr_eqI, simp)+

lemma utf8_line_sep: "utf8_encode 8232 = line_sep"
  by (simp add: utf8_encode_def line_sep_def) (intro conjI chr_eqI; simp)

lemma utf8_par_sep: "utf8_encode 8233 = par_sep"
  by (simp add: utf8_encode_def par_sep_def) (intro conjI chr_eqI; simp)

lemma seps_distinct [simp]: "line_sep \<noteq> par_sep" "par_sep \<noteq> line_sep"
  by (simp_all add: line_sep_def par_sep_def)

lemma hex4_00: "hi < 16 \<Longrightarrow> lo < 16 \<Longrightarrow>
    hex4 (CHR ''0'' # CHR ''0'' # hex_digit hi # hex_digit lo # r) = 16 * hi + lo"
  by (simp add: hex4_def hex_val_def [of "CHR ''0''"])

lemma unquote_u:
  assumes "\<not> is_surrogate (hex4 q)"
  shows "unquote (CHR 0x5C # CHR ''u'' # q) = utf8_encode (hex4 q) @ unquote (drop 4 q)"
  using assms by (subst unquote.simps) (simp add: Let_def)

lemma unquote_esc: "esc_char e \<Longrightarrow> unquote (CHR 0x5C # e # q) = unescape e # unquote q"
  by (subst unquote.simps) (auto simp: esc_char_def)

lemma unquote_plain: "byte c < 0x80 \<Longrightarrow> c \<noteq> CHR 0x5C \<Longrightarrow> unquote (c # r) = c # unquote r"
  by (subst unquote.simps) simp

lemma char_eq_chr: "byte c = n \<Longrightarrow> c = chr n"
  by (metis char_of_char)

lemma unquote_esc_ascii:
  assumes "byte c < 0x80"
  shows "unquote (esc_ascii c @ r) = c # unquote r"
proof -
  consider (quote) "c = CHR 0x5C \<or> c = CHR 0x22" | (short) "byte c \<in> {8, 12, 10, 13, 9}"
    | (u) "\<not> (c = CHR 0x5C \<or> c = CHR 0x22)" "byte c \<notin> {8, 12, 10, 13, 9}"
        "byte c < 0x20 \<or> c = CHR ''<'' \<or> c = CHR ''>'' \<or> c = CHR ''&''"
    | (plain) "\<not> (c = CHR 0x5C \<or> c = CHR 0x22)" "byte c \<notin> {8, 12, 10, 13, 9}"
        "\<not> (byte c < 0x20 \<or> c = CHR ''<'' \<or> c = CHR ''>'' \<or> c = CHR ''&'')"
    by blast
  then show ?thesis
  proof cases
    case quote
    then show ?thesis by (auto simp: esc_ascii_def unquote_esc unescape_def esc_char_def)
  next
    case short
    have c: "chr (byte c) = c" by simp
    from short have "c \<noteq> CHR 0x5C" "c \<noteq> CHR 0x22" by auto
    with short show ?thesis
      by (elim insertE) (use c in \<open>simp_all add: esc_ascii_def unquote_esc unescape_def esc_char_def\<close>)
  next
    case u
    have h: "hex4 (CHR ''0'' # CHR ''0'' # hex_digit (byte c div 16) # hex_digit (byte c mod 16) # r) = byte c"
      using assms by (subst hex4_00) auto
    moreover have "\<not> is_surrogate (byte c)" using assms by (simp add: is_surrogate_def)
    moreover have "esc_ascii c @ r = CHR 0x5C # CHR ''u'' #
        (CHR ''0'' # CHR ''0'' # hex_digit (byte c div 16) # hex_digit (byte c mod 16) # r)"
      using u by (simp add: esc_ascii_def)
    ultimately show ?thesis using assms
      unquote_u [of "CHR ''0'' # CHR ''0'' # hex_digit (byte c div 16) # hex_digit (byte c mod 16) # r"]
      by (simp add: utf8_encode_def)
  next
    case plain
    with assms show ?thesis by (simp add: esc_ascii_def unquote_plain)
  qed
qed

lemma unquote_rune:
  assumes "rune_len s = n" "0 < n"
  shows "unquote (take n s @ r) = take n s @ unquote r"
proof -
  have len: "length (take n s) = n" using rune_len_le [of s] assms(1) by simp
  then obtain c q where cq: "take n s = c # q" using assms(2) by (cases "take n s") auto
  have hi: "0x80 \<le> byte c" using rune_len_bytes [of c s] assms(1) cq by simp
  then have "c \<noteq> CHR 0x5C" by auto
  have "unquote (take n s @ r) =
      take (rune_len (take n s @ r)) (take n s @ r) @ unquote (drop (rune_len (take n s @ r)) (take n s @ r))"
    using hi \<open>c \<noteq> CHR 0x5C\<close> rune_len_take [OF assms, of r] assms(2) cq
    by (subst unquote.simps) simp
  with rune_len_take [OF assms, of r] len show ?thesis by simp
qed

theorem unquote_quote: "valid_utf8 s \<Longrightarrow> unquote (quote_body s) = s"
proof (induction s rule: quote_body.induct)
  case (1 s)
  show ?case
  proof (cases s)
    case Nil
    then show ?thesis by (simp add: quote_body.simps)
  next
    case (Cons c r)
    show ?thesis
    proof (cases "byte c < 0x80")
      case True
      with 1 Cons show ?thesis
        by (subst quote_body.simps) (simp add: unquote_esc_ascii valid_utf8_ascii)
    next
      case False
      let ?n = "rune_len s" and ?p = "take (rune_len s) s"
      from "1.prems" Cons False have n: "0 < ?n" and v: "valid_utf8 (drop ?n s)"
        by (subst (asm) valid_utf8.simps, simp split: if_splits)+
      have IH: "unquote (quote_body (drop ?n s)) = drop ?n s" using "1.IH"(3) [OF Cons False] n v by simp
      have q: "quote_body s = (if ?p = line_sep then CHR 0x5C # ''u2028''
          else if ?p = par_sep then CHR 0x5C # ''u2029'' else ?p) @ quote_body (drop ?n s)"
        using Cons False n by (subst quote_body.simps) (simp add: Let_def)
      have sep: "unquote (CHR 0x5C # CHR ''u'' # CHR ''2'' # CHR ''0'' # CHR ''2'' # x # r) =
          utf8_encode (8224 + hex_val x) @ unquote r" if "hex_val x < 16" for x r
      proof -
        have "hex4 (CHR ''2'' # CHR ''0'' # CHR ''2'' # x # r) = 8224 + hex_val x"
          by (simp add: hex4_def hex_val_def [of "CHR ''2''"] hex_val_def [of "CHR ''0''"])
        moreover have "\<not> is_surrogate (8224 + hex_val x)" using that by (simp add: is_surrogate_def)
        ultimately show ?thesis by (simp add: unquote_u)
      qed
      have "unquote (quote_body s) = ?p @ drop ?n s"
        unfolding q append_Cons append_Nil using sep [of "CHR ''8''"] sep [of "CHR ''9''"] IH unquote_rune [OF refl n]
        by (simp add: hex_val_def utf8_line_sep utf8_par_sep del: append_take_drop_id split: if_split)
      then show ?thesis by simp
    qed
  qed
qed

subsection \<open>What \<open>unquote\<close> gives is valid UTF-8\<close>

lemma tail_ok_append: "tail_ok n lo hi r \<Longrightarrow> tail_ok n lo hi (r @ x)"
  by (induction n lo hi r rule: tail_ok.induct) auto

lemma rune_len_append: "0 < rune_len s \<Longrightarrow> rune_len (s @ x) = rune_len s"
  by (cases s) (auto split: option.splits if_splits dest: tail_ok_append)

lemma valid_utf8_step: "0 < rune_len s \<Longrightarrow> valid_utf8 s = valid_utf8 (drop (rune_len s) s)"
proof (cases s)
  case (Cons c r)
  assume n: "0 < rune_len s"
  with Cons have "\<not> byte c < 0x80" by (auto simp del: rune_len.simps)
  with n Cons show ?thesis by (subst valid_utf8.simps) (simp del: rune_len.simps)
qed simp

lemma valid_utf8_append: "valid_utf8 s \<Longrightarrow> valid_utf8 (s @ x) = valid_utf8 x"
proof (induction s rule: valid_utf8.induct)
  case (1 s)
  show ?case
  proof (cases s)
    case (Cons c r)
    show ?thesis
    proof (cases "byte c < 0x80")
      case True
      with 1 Cons show ?thesis by (simp add: valid_utf8_ascii)
    next
      case False
      from "1.prems" Cons False have n: "0 < rune_len s" and v: "valid_utf8 (drop (rune_len s) s)"
        by (subst (asm) valid_utf8.simps, simp split: if_splits)+
      have "valid_utf8 (s @ x) = valid_utf8 (drop (rune_len s) s @ x)"
        using n rune_len_append [OF n, of x] rune_len_le [of s] valid_utf8_step [of "s @ x"] by simp
      with "1.IH"(2) [OF Cons False _ v] n show ?thesis by simp
    qed
  qed simp
qed

lemma valid_utf8_rune:
  assumes "rune_len s = length s" "s \<noteq> []"
  shows "valid_utf8 s"
proof -
  obtain c r where s: "s = c # r" using assms(2) by (cases s) auto
  with assms rune_len_bytes [of c s] have "\<not> byte c < 0x80" by (simp add: not_less)
  with s assms show ?thesis by (subst valid_utf8.simps) simp
qed

lemma valid_utf8_take_rune: "0 < rune_len s \<Longrightarrow> valid_utf8 (take (rune_len s) s)"
  using rune_len_take [of s "rune_len s" "[]"] rune_len_le [of s] by (intro valid_utf8_rune) auto

lemma valid_utf8_fffd: "valid_utf8 fffd"
  by (rule valid_utf8_rune) (simp_all add: fffd_def rune_spec_def eval_nat_numeral)

lemma valid_utf8_two:
  assumes "194 \<le> a" "a < 224" "128 \<le> b" "b < 192"
  shows "valid_utf8 [chr a, chr b]"
  using assms by (intro valid_utf8_rune) (simp_all add: rune_spec_def)

lemma valid_utf8_three:
  assumes "224 \<le> a" "a < 240" "128 \<le> b" "b < 192" "128 \<le> c" "c < 192" "a = 224 \<Longrightarrow> 160 \<le> b" "a = 237 \<Longrightarrow> b < 160"
  shows "valid_utf8 [chr a, chr b, chr c]"
proof (intro valid_utf8_rune)
  have m: "byte (chr a) = a" "byte (chr b) = b" "byte (chr c) = c" using assms by simp_all
  then show "rune_len [chr a, chr b, chr c] = length [chr a, chr b, chr c]"
    using assms by (cases "a = 224"; cases "a = 237") (simp_all add: rune_spec_def m numeral_2_eq_2 del: of_char_of)
qed simp

lemma valid_utf8_four:
  assumes "240 \<le> a" "a \<le> 244" "128 \<le> b" "b < 192" "128 \<le> c" "c < 192" "128 \<le> d" "d < 192"
    "a = 240 \<Longrightarrow> 144 \<le> b" "a = 244 \<Longrightarrow> b < 144"
  shows "valid_utf8 [chr a, chr b, chr c, chr d]"
proof (intro valid_utf8_rune)
  have m: "byte (chr a) = a" "byte (chr b) = b" "byte (chr c) = c" "byte (chr d) = d" using assms by simp_all
  then show "rune_len [chr a, chr b, chr c, chr d] = length [chr a, chr b, chr c, chr d]"
    using assms by (cases "a = 240"; cases "a = 244") (simp_all add: rune_spec_def m numeral_3_eq_3 del: of_char_of)
qed simp

lemma valid_utf8_encode:
  assumes "n < 0x110000" "\<not> is_surrogate n"
  shows "valid_utf8 (utf8_encode n)"
proof -
  define q where "q = n div 64"
  have q: "n div 4096 = q div 64" "n div 262144 = q div 64 div 64" by (simp_all add: q_def div_mult2_eq [symmetric])
  consider (one) "n < 0x80" | (two) "0x80 \<le> n" "n < 0x800" | (three) "0x800 \<le> n" "n < 0x10000" | (four) "0x10000 \<le> n"
    by linarith
  then show ?thesis
  proof cases
    case one
    then show ?thesis by (simp add: utf8_encode_def valid_utf8_ascii)
  next
    case two
    then have "2 \<le> q" "q < 32" unfolding q_def by linarith+
    moreover have "utf8_encode n = [chr (192 + q), chr (128 + n mod 64)]" using two by (simp add: utf8_encode_def q_def)
    ultimately show ?thesis by (simp add: valid_utf8_two)
  next
    case three
    have b: "32 \<le> q" "q < 1024" using three unfolding q_def by linarith+
    have "\<not> (864 \<le> q \<and> q < 896)" using assms(2) unfolding q_def is_surrogate_def by linarith
    moreover have "utf8_encode n = [chr (224 + q div 64), chr (128 + q mod 64), chr (128 + n mod 64)]"
      using three by (simp add: utf8_encode_def q q_def [symmetric])
    moreover have "224 + q div 64 < 240" using b by linarith
    moreover have "160 \<le> 128 + q mod 64" if "224 + q div 64 = 224" using that b by (simp add: div_eq_0_iff)
    moreover have "128 + q mod 64 < 160" if "224 + q div 64 = 237" "\<not> (864 \<le> q \<and> q < 896)"
    proof -
      from that(1) have "q = 832 + q mod 64" using div_mult_mod_eq [of q 64] by simp
      with that(2) b show ?thesis by linarith
    qed
    ultimately show ?thesis by (simp add: valid_utf8_three)
  next
    case four
    have b: "1024 \<le> q" "q < 17408" using four assms(1) unfolding q_def by linarith+
    define r where "r = q div 64"
    have r: "16 \<le> r" "r < 272" using b unfolding r_def by linarith+
    have "utf8_encode n = [chr (240 + r div 64), chr (128 + r mod 64), chr (128 + q mod 64), chr (128 + n mod 64)]"
      using four by (simp add: utf8_encode_def q r_def q_def [symmetric])
    moreover have "240 + r div 64 \<le> 244" using r by linarith
    moreover have "144 \<le> 128 + r mod 64" if "240 + r div 64 = 240" using that r by (simp add: div_eq_0_iff)
    moreover have "128 + r mod 64 < 144" if "240 + r div 64 = 244"
    proof -
      from that have "r = 256 + r mod 64" using div_mult_mod_eq [of r 64] by simp
      with r show ?thesis by linarith
    qed
    ultimately show ?thesis by (simp add: valid_utf8_four)
  qed
qed

lemma hex4_bound: "hex4 s < 0x110000"
proof -
  have h: "hex_val c \<le> 168" for c
  proof -
    have "byte c mod 256 < 256" by (rule mod_less_divisor) simp
    then have "byte c < 256" by simp
    moreover have "(if n \<le> 57 then n - 48 else if n \<le> 70 then n - 55 else n - 87) \<le> 168" if "n < 256" for n :: nat
      using that by auto
    ultimately show ?thesis by (simp only: hex_val_def)
  qed
  have "foldl (\<lambda>acc c. 16 * acc + hex_val c) a xs \<le> 16 ^ length xs * (a + 12)" for a xs
  proof (induction xs arbitrary: a)
    case (Cons x xs)
    have "16 ^ length xs * (16 * a + hex_val x + 12) \<le> 16 ^ length xs * (16 * (a + 12))"
      using h [of x] by (intro mult_left_mono) simp_all
    also have "\<dots> = 16 ^ length (x # xs) * (a + 12)" by simp
    finally show ?case using Cons [of "16 * a + hex_val x"] unfolding foldl_Cons by (rule order_trans [rotated])
  qed simp
  from this [of 0 "take 4 s"] have "hex4 s \<le> 16 ^ length (take 4 s) * 12" by (simp add: hex4_def)
  also have "\<dots> \<le> 16 ^ 4 * 12" by (intro mult_right_mono power_increasing) simp_all
  finally show ?thesis by simp
qed

lemma surrogate_pair_bound:
  assumes "surrogate_pair hi r = Some n" "is_surrogate hi"
  shows "n < 0x110000 \<and> \<not> is_surrogate n"
  using assms by (auto simp: surrogate_pair_def is_surrogate_def Let_def split: if_splits)

lemma unescape_ascii: "esc_char e \<Longrightarrow> byte (unescape e) < 0x80"
  unfolding esc_char_def by (elim insertE emptyE; simp add: unescape_def)

theorem valid_utf8_unquote: "valid_utf8 (unquote s)"
proof (induction s rule: measure_induct_rule [where f = length])
  case (less s)
  show ?case
  proof (cases s)
    case (Cons c r)
    have IH: "valid_utf8 (unquote (drop n r))" for n using less [of "drop n r"] Cons by simp
    have r: "valid_utf8 (unquote r)" using IH [of 0] by simp
    have rune: "valid_utf8 (unquote (drop (rune_len s) s))" if "0 < rune_len s"
      using that Cons by (intro less) (simp del: rune_len.simps)
    consider (esc) "c = CHR 0x5C" | (ascii) "c \<noteq> CHR 0x5C" "byte c < 0x80"
      | (bad) "c \<noteq> CHR 0x5C" "\<not> byte c < 0x80" "rune_len s = 0"
      | (rune) "c \<noteq> CHR 0x5C" "\<not> byte c < 0x80" "0 < rune_len s" by blast
    then show ?thesis
    proof cases
      case ascii
      with r Cons show ?thesis by (subst unquote.simps) (simp add: valid_utf8_ascii)
    next
      case bad
      with r Cons show ?thesis by (subst unquote.simps) (simp add: valid_utf8_append valid_utf8_fffd)
    next
      case rune': rune
      with rune Cons show ?thesis
        by (subst unquote.simps) (simp add: valid_utf8_append valid_utf8_take_rune del: rune_len.simps)
    next
      case esc
      show ?thesis
      proof (cases r)
        case Nil
        with Cons esc show ?thesis by (subst unquote.simps) simp
      next
        case r': (Cons e q)
        have q: "valid_utf8 (unquote (drop n q))" for n using IH [of "Suc n"] r' by simp
        consider (short) "esc_char e" | (plain) "e = CHR ''u''" "\<not> is_surrogate (hex4 q)"
          | (pair) n where "e = CHR ''u''" "is_surrogate (hex4 q)" "surrogate_pair (hex4 q) (drop 4 q) = Some n"
          | (lone) "e = CHR ''u''" "is_surrogate (hex4 q)" "surrogate_pair (hex4 q) (drop 4 q) = None"
          | (none) "e \<noteq> CHR ''u''" "\<not> esc_char e" by blast
        then show ?thesis
        proof cases
          case short
          then have "byte (unescape e) < 0x80" by (rule unescape_ascii)
          with Cons esc r' short q [of 0] show ?thesis by (simp add: unquote_esc valid_utf8_ascii)
        next
          case plain
          with Cons esc r' q [of 4] valid_utf8_encode [OF hex4_bound plain(2)] show ?thesis
            by (simp add: unquote_u valid_utf8_append)
        next
          case (pair n)
          have v: "valid_utf8 (utf8_encode n @ unquote (drop 10 q))"
            using surrogate_pair_bound [OF pair(3,2)] q [of 10] by (simp add: valid_utf8_append valid_utf8_encode)
          have "unquote s = utf8_encode n @ unquote (drop 10 q)"
            using pair by (simp add: Cons esc r' unquote.simps [of "CHR 0x5C # CHR ''u'' # q"])
          with v show ?thesis by simp
        next
          case lone
          have v: "valid_utf8 (fffd @ unquote (drop 4 q))" using q [of 4] by (simp add: valid_utf8_append valid_utf8_fffd)
          have "unquote s = fffd @ unquote (drop 4 q)"
            using lone by (simp add: Cons esc r' unquote.simps [of "CHR 0x5C # CHR ''u'' # q"])
          with v show ?thesis by simp
        next
          case none
          then have "unquote s = []" by (simp add: Cons esc r' unquote.simps [of "CHR 0x5C # e # q"])
          then show ?thesis by simp
        qed
      qed
    qed
  qed simp
qed

end
