(* ===== verification/Go_Time.thy ===== *)
theory Go_Time
  imports Go_Strings "HOL-Library.Monad_Syntax"
begin

section \<open>Go's \<open>time.Time\<close>\<close>

text \<open>
  An instant with its zone offset, as the sources use \<open>time.Time\<close>: comparison, \<open>IsZero\<close>, \<open>UTC\<close>,
  \<open>Add\<close>, the proleptic Gregorian calendar behind \<open>Format\<close> (the layouts of the archive's
  partition and file names) and the RFC 3339 text of \<open>MarshalJSON\<close> and \<open>UnmarshalJSON\<close>. Reading
  takes the spellings beyond RFC 3339 that Go's takes: a one-digit hour, a decimal comma, offsets of up to
  24 hours and 60 minutes. Those of a day or more are times that writing then refuses.
\<close>

subsection \<open>The type\<close>

text \<open>
  \<open>t_sec\<close> counts seconds from 0001-01-01T00:00:00Z, so the zero value of the record is Go's zero
  time; \<open>t_off\<close> is the zone offset in seconds east of UTC.
\<close>

record gtime =
  t_sec :: int
  t_nsec :: nat
  t_off :: int

definition zero_time :: gtime where
  "zero_time = \<lparr>t_sec = 0, t_nsec = 0, t_off = 0\<rparr>"

definition is_zero :: "gtime \<Rightarrow> bool" where
  "is_zero t \<longleftrightarrow> t_sec t = 0 \<and> t_nsec t = 0"

definition utc :: "gtime \<Rightarrow> gtime" where
  "utc t = t\<lparr>t_off := 0\<rparr>"

text \<open>\<open>t.Compare(u)\<close> and \<open>t.Equal(u)\<close> look at the instant only.\<close>

definition time_compare :: "gtime \<Rightarrow> gtime \<Rightarrow> int" where
  "time_compare t u =
     (if t_sec t < t_sec u \<or> (t_sec t = t_sec u \<and> t_nsec t < t_nsec u) then -1
      else if t_sec t = t_sec u \<and> t_nsec t = t_nsec u then 0 else 1)"

definition time_equal :: "gtime \<Rightarrow> gtime \<Rightarrow> bool" where
  "time_equal t u \<longleftrightarrow> t_sec t = t_sec u \<and> t_nsec t = t_nsec u"

text \<open>The instant cut to whole microseconds, in UTC.\<close>

definition trunc_micro :: "gtime \<Rightarrow> gtime" where
  "trunc_micro t = \<lparr>t_sec = t_sec t, t_nsec = t_nsec t div 1000 * 1000, t_off = 0\<rparr>"

lemma is_zero_zero_time [simp]: "is_zero zero_time"
  by (simp add: is_zero_def zero_time_def)

lemma is_zero_utc [simp]: "is_zero (utc t) = is_zero t"
  by (simp add: is_zero_def utc_def)

lemma utc_simps [simp]: "t_sec (utc t) = t_sec t" "t_nsec (utc t) = t_nsec t" "t_off (utc t) = 0"
  by (simp_all add: utc_def)

lemma trunc_micro_simps [simp]:
  "t_sec (trunc_micro t) = t_sec t" "t_off (trunc_micro t) = 0"
  "t_nsec (trunc_micro t) = t_nsec t div 1000 * 1000"
  by (simp_all add: trunc_micro_def)

lemma trunc_micro_idem [simp]: "trunc_micro (trunc_micro t) = trunc_micro t"
  by (simp add: trunc_micro_def)

subsection \<open>The calendar\<close>

definition is_leap :: "int \<Rightarrow> bool" where
  "is_leap y \<longleftrightarrow> y mod 4 = 0 \<and> (y mod 100 \<noteq> 0 \<or> y mod 400 = 0)"

text \<open>Days from 0001-01-01 to the first of January of a year.\<close>

definition days_before_year :: "int \<Rightarrow> int" where
  "days_before_year y = 365 * (y - 1) + (y - 1) div 4 - (y - 1) div 100 + (y - 1) div 400"

definition month_lens :: "int \<Rightarrow> nat list" where
  "month_lens y = [31, if is_leap y then 29 else 28, 31, 30, 31, 30, 31, 31, 30, 31, 30, 31]"

definition days_in :: "nat \<Rightarrow> int \<Rightarrow> nat" where
  "days_in m y = month_lens y ! (m - 1)"

definition days_of_civil :: "int \<Rightarrow> nat \<Rightarrow> nat \<Rightarrow> int" where
  "days_of_civil y m d =
     days_before_year y + int (sum_list (take (m - 1) (month_lens y)) + (d - 1))"

fun month_walk :: "nat list \<Rightarrow> nat \<Rightarrow> nat \<times> nat" where
  "month_walk [] k = (1, Suc k)"
| "month_walk (l # ls) k =
     (if k < l then (1, Suc k) else (let (m, d) = month_walk ls (k - l) in (Suc m, d)))"

definition year_of :: "int \<Rightarrow> int" where
  "year_of n =
     (let y = 400 * n div 146097 + 1
      in if n < days_before_year y then y - 1
         else if days_before_year (y + 1) \<le> n then y + 1 else y)"

definition civil_of_days :: "int \<Rightarrow> int \<times> nat \<times> nat" where
  "civil_of_days n =
     (let y = year_of n; (m, d) = month_walk (month_lens y) (nat (n - days_before_year y))
      in (y, m, d))"

definition valid_civil :: "int \<Rightarrow> nat \<Rightarrow> nat \<Rightarrow> bool" where
  "valid_civil y m d \<longleftrightarrow> 1 \<le> m \<and> m \<le> 12 \<and> 1 \<le> d \<and> d \<le> days_in m y"

lemma div_bounds: "0 < k \<Longrightarrow> k * (a div k) \<le> a \<and> a < k * (a div k) + (k :: int)"
  using mult_div_mod_eq [of k a] pos_mod_bound [of k a] pos_mod_sign [of k a] by linarith

lemma div_step:
  assumes "0 < (k :: int)"
  shows "y div k - (y - 1) div k = (if k dvd y then 1 else 0)"
proof (cases "k dvd y")
  case True
  then obtain q where q: "y = k * q" by (elim dvdE)
  then have "y - 1 = k * (q - 1) + (k - 1)" by (simp add: right_diff_distrib)
  then have "(y - 1) div k = q - 1" using assms by (intro int_div_pos_eq [where r = "k - 1"]) auto
  with q assms True show ?thesis by simp
next
  case False
  then have "y mod k \<noteq> 0" by (simp add: mod_eq_0_iff_dvd)
  with assms have "0 < y mod k" "y mod k < k" using pos_mod_sign [of k y] by (auto simp: le_less)
  moreover have "y - 1 = k * (y div k) + (y mod k - 1)" using mult_div_mod_eq [of k y] by linarith
  ultimately have "(y - 1) div k = y div k" by (intro int_div_pos_eq [where r = "y mod k - 1"]) linarith+
  with False show ?thesis by simp
qed

lemma leap_days:
  "(p400 \<Longrightarrow> p100) \<Longrightarrow> (p100 \<Longrightarrow> p4) \<Longrightarrow>
     365 + (if p4 then 1 else 0) - (if p100 then 1 else 0) + (if p400 then 1 else 0) =
     (if p4 \<and> (\<not> p100 \<or> p400) then 366 else 365 :: int)"
  by (cases p4; cases p100; cases p400; simp)

lemma length_month_lens [simp]: "length (month_lens y) = 12"
  by (simp add: month_lens_def)

lemma sum_month_lens: "int (sum_list (month_lens y)) = days_before_year (y + 1) - days_before_year y"
proof -
  have "days_before_year (y + 1) - days_before_year y =
      365 + (y div 4 - (y - 1) div 4) - (y div 100 - (y - 1) div 100) + (y div 400 - (y - 1) div 400)"
    by (simp add: days_before_year_def algebra_simps)
  also have "\<dots> = 365 + (if 4 dvd y then 1 else 0) - (if 100 dvd y then 1 else 0)
      + (if 400 dvd y then 1 else 0)"
    by (simp only: div_step zero_less_numeral)
  also have "\<dots> = (if is_leap y then 366 else 365)"
    unfolding is_leap_def mod_eq_0_iff_dvd
    by (rule leap_days) (erule dvd_trans [rotated], simp)+
  finally show ?thesis by (simp add: month_lens_def)
qed

lemma days_before_year_Suc: "days_before_year y < days_before_year (y + 1)"
proof -
  have "0 < sum_list (month_lens y)" by (simp add: month_lens_def)
  with sum_month_lens [of y] show ?thesis by linarith
qed

lemma days_before_year_mono: "a \<le> b \<Longrightarrow> days_before_year a \<le> days_before_year b"
proof (induction "nat (b - a)" arbitrary: b)
  case (Suc n)
  then have "n = nat ((b - 1) - a)" "a \<le> b - 1" by linarith+
  with Suc.hyps(1) have "days_before_year a \<le> days_before_year (b - 1)" by blast
  with days_before_year_Suc [of "b - 1"] show ?case by simp
qed simp

lemma year_of_bounds: "days_before_year (year_of n) \<le> n \<and> n < days_before_year (year_of n + 1)"
proof -
  define e where "e = 400 * n div 146097"
  have e: "146097 * e \<le> 400 * n" "400 * n < 146097 * e + 146097"
    unfolding e_def using div_bounds [of 146097 "400 * n"] by simp_all
  have lo: "days_before_year e \<le> n"
  proof -
    have "400 * (365 * x + a - b + c) < 146097 * x + 400"
      if "4 * a \<le> x" "x < 100 * b + 100" "400 * c \<le> x" for x a b c :: int
    proof -
      have "146000 * x + 400 * a - 400 * b + 400 * c < 146097 * x + 400" using that by linarith
      then show ?thesis by simp
    qed
    then have "400 * days_before_year e < 146097 * (e - 1) + 400"
      using div_bounds [of 4 "e - 1", OF zero_less_numeral] div_bounds [of 100 "e - 1", OF zero_less_numeral]
        div_bounds [of 400 "e - 1", OF zero_less_numeral]
      unfolding days_before_year_def by simp
    then have "400 * days_before_year e < 146097 * e - 145697" by simp
    with e show ?thesis by linarith
  qed
  have hi: "n < days_before_year (e + 3)"
  proof -
    have "400 * (365 * x + a - b + c) > 146097 * x - 800"
      if "x < 4 * a + 4" "100 * b \<le> x" "x < 400 * c + 400" for x a b c :: int
    proof -
      have "146000 * x + 400 * a - 400 * b + 400 * c > 146097 * x - 800" using that by linarith
      then show ?thesis by simp
    qed
    moreover have "e + 3 - 1 = e + 2" by simp
    ultimately have "400 * days_before_year (e + 3) > 146097 * (e + 2) - 800"
      using div_bounds [of 4 "e + 2", OF zero_less_numeral] div_bounds [of 100 "e + 2", OF zero_less_numeral]
        div_bounds [of 400 "e + 2", OF zero_less_numeral]
      unfolding days_before_year_def by simp
    then have "400 * days_before_year (e + 3) > 146097 * e + 291394" by simp
    with e show ?thesis by linarith
  qed
  from lo hi show ?thesis
    by (auto simp: year_of_def Let_def e_def [symmetric] add.commute)
qed

lemma year_unique:
  assumes "days_before_year y \<le> n" "n < days_before_year (y + 1)"
  shows "year_of n = y"
proof (rule ccontr)
  assume "year_of n \<noteq> y"
  then consider "year_of n + 1 \<le> y" | "y + 1 \<le> year_of n" by linarith
  then show False
    using days_before_year_mono [of "year_of n + 1" y] days_before_year_mono [of "y + 1" "year_of n"]
      year_of_bounds [of n] assms by cases linarith+
qed

lemma month_walk_inverse:
  "m < length ls \<Longrightarrow> d < ls ! m \<Longrightarrow> month_walk ls (sum_list (take m ls) + d) = (Suc m, Suc d)"
proof (induction ls arbitrary: m)
  case (Cons l ls)
  then show ?case by (cases m) auto
qed simp

lemma month_walk_valid:
  assumes "k < sum_list ls" and "month_walk ls k = (m, d)"
  shows "1 \<le> m \<and> m \<le> length ls \<and> 1 \<le> d \<and> d \<le> ls ! (m - 1) \<and> sum_list (take (m - 1) ls) + (d - 1) = k"
  using assms
proof (induction ls arbitrary: k m d)
  case (Cons l ls)
  show ?case
  proof (cases "k < l")
    case False
    obtain m' d' where md: "month_walk ls (k - l) = (m', d')" by (cases "month_walk ls (k - l)")
    from Cons.prems False have "k - l < sum_list ls" by simp
    note IH = Cons.IH [OF this md]
    from Cons.prems False md have "m = Suc m'" "d = d'" by auto
    with IH False show ?thesis by (cases m') auto
  qed (use Cons.prems in auto)
qed simp

lemma take_month_bound: "m < length ls \<Longrightarrow> d < ls ! m \<Longrightarrow> sum_list (take m ls) + d < (sum_list ls :: nat)"
proof (induction ls arbitrary: m)
  case (Cons l ls)
  then show ?case by (cases m) auto
qed simp

lemma days_of_civil_bounds:
  assumes "valid_civil y m d"
  shows "days_before_year y \<le> days_of_civil y m d" "days_of_civil y m d < days_before_year (y + 1)"
proof -
  have "sum_list (take (m - 1) (month_lens y)) + (d - 1) < sum_list (month_lens y)"
    using assms by (intro take_month_bound) (auto simp: valid_civil_def days_in_def)
  with sum_month_lens [of y]
  show "days_before_year y \<le> days_of_civil y m d" "days_of_civil y m d < days_before_year (y + 1)"
    by (simp_all add: days_of_civil_def)
qed

lemma civil_of_days_of_civil:
  assumes "valid_civil y m d"
  shows "civil_of_days (days_of_civil y m d) = (y, m, d)"
proof -
  have y: "year_of (days_of_civil y m d) = y"
    using days_of_civil_bounds [OF assms] by (rule year_unique)
  have "nat (days_of_civil y m d - days_before_year y) = sum_list (take (m - 1) (month_lens y)) + (d - 1)"
    by (simp add: days_of_civil_def)
  moreover have "month_walk (month_lens y) (sum_list (take (m - 1) (month_lens y)) + (d - 1)) =
      (Suc (m - 1), Suc (d - 1))"
    using assms by (intro month_walk_inverse) (auto simp: valid_civil_def days_in_def)
  ultimately show ?thesis using assms y by (simp add: civil_of_days_def valid_civil_def)
qed

lemma days_of_civil_of_days:
  assumes "civil_of_days n = (y, m, d)"
  shows "valid_civil y m d" "days_of_civil y m d = n"
proof -
  from assms have y: "y = year_of n"
    and md: "month_walk (month_lens y) (nat (n - days_before_year y)) = (m, d)"
    by (auto simp: civil_of_days_def Let_def split: prod.splits)
  from year_of_bounds [of n] y have "nat (n - days_before_year y) < sum_list (month_lens y)"
    using sum_month_lens [of y] by (simp add: nat_less_iff)
  from month_walk_valid [OF this md] year_of_bounds [of n] y
  show "valid_civil y m d" "days_of_civil y m d = n"
    by (auto simp: valid_civil_def days_in_def days_of_civil_def)
qed

text \<open>Dates are ordered as their day numbers are.\<close>

lemma sum_take_mono: "i < j \<Longrightarrow> j \<le> length ls \<Longrightarrow> d < ls ! i \<Longrightarrow>
    sum_list (take i ls) + d < (sum_list (take j ls) :: nat)"
proof (induction ls arbitrary: i j)
  case (Cons l ls)
  then show ?case by (cases i; cases j) auto
qed simp

lemma days_of_civil_less:
  assumes v: "valid_civil y m d" "valid_civil y' m' d'"
    and less: "y < y' \<or> (y = y' \<and> (m < m' \<or> (m = m' \<and> d < d')))"
  shows "days_of_civil y m d < days_of_civil y' m' d'"
proof (cases "y < y'")
  case True
  then have "days_before_year (y + 1) \<le> days_before_year y'" by (intro days_before_year_mono) simp
  with days_of_civil_bounds [OF v(1)] days_of_civil_bounds [OF v(2)] show ?thesis by linarith
next
  case False
  with less have y: "y = y'" and md: "m < m' \<or> (m = m' \<and> d < d')" by auto
  have "sum_list (take (m - 1) (month_lens y)) + (d - 1) <
      sum_list (take (m' - 1) (month_lens y)) + (d' - 1)"
  proof (cases "m < m'")
    case True
    with v have "sum_list (take (m - 1) (month_lens y)) + (d - 1) <
        sum_list (take (m' - 1) (month_lens y))"
      by (intro sum_take_mono) (auto simp: valid_civil_def days_in_def)
    then show ?thesis by simp
  next
    case False
    with md v show ?thesis by (auto simp: valid_civil_def)
  qed
  with y show ?thesis by (simp add: days_of_civil_def)
qed

lemma civil_less_iff:
  assumes "civil_of_days a = (y, m, d)" "civil_of_days b = (y', m', d')"
  shows "a < b \<longleftrightarrow> y < y' \<or> (y = y' \<and> (m < m' \<or> (m = m' \<and> d < d')))"
proof -
  note A = days_of_civil_of_days [OF assms(1)] and B = days_of_civil_of_days [OF assms(2)]
  let ?lt = "y < y' \<or> (y = y' \<and> (m < m' \<or> (m = m' \<and> d < d')))"
  have "b \<le> a" if "\<not> ?lt"
  proof (cases "y' < y \<or> (y' = y \<and> (m' < m \<or> (m' = m \<and> d' < d)))")
    case True
    from days_of_civil_less [OF B(1) A(1) this] A(2) B(2) show ?thesis by simp
  next
    case False
    with that have "y = y'" "m = m'" "d = d'" by auto
    with A(2) B(2) show ?thesis by simp
  qed
  moreover have "a < b" if ?lt
    using days_of_civil_less [OF A(1) B(1) that] A(2) B(2) by simp
  ultimately show ?thesis by fastforce
qed

lemma civil_bounds:
  assumes "civil_of_days n = (y, m, d)"
  shows "1 \<le> m" "m \<le> 12" "1 \<le> d" "d \<le> 31"
proof -
  have v: "valid_civil y m d" by (rule days_of_civil_of_days [OF assms])
  then show "1 \<le> m" "m \<le> 12" "1 \<le> d" by (auto simp: valid_civil_def)
  have "m - 1 < 12" using v by (auto simp: valid_civil_def)
  then have "month_lens y ! (m - 1) \<in> set (month_lens y)" by simp
  moreover have "\<forall>l \<in> set (month_lens y). l \<le> 31" by (simp add: month_lens_def)
  ultimately show "d \<le> 31" using v by (auto simp: valid_civil_def days_in_def)
qed

subsection \<open>Formatting\<close>

text \<open>The date and the clock shown in the time's own zone.\<close>

definition local_days :: "gtime \<Rightarrow> int" where
  "local_days t = (t_sec t + t_off t) div 86400"

definition local_secs :: "gtime \<Rightarrow> nat" where
  "local_secs t = nat ((t_sec t + t_off t) mod 86400)"

definition local_date :: "gtime \<Rightarrow> int \<times> nat \<times> nat" where
  "local_date t = civil_of_days (local_days t)"

definition fmt_year :: "int \<Rightarrow> string" where
  "fmt_year y =
     (if y < 0 then CHR ''-'' # (if - y < 10000 then pad_dec 4 (nat (- y)) else dec_nat (nat (- y)))
      else if y < 10000 then pad_dec 4 (nat y) else dec_nat (nat y))"

text \<open>\<open>t.UTC().Format("2006-01-02")\<close> and \<open>t.UTC().Format("20060102T150405.000000Z")\<close>.\<close>

definition format_date :: "gtime \<Rightarrow> string" where
  "format_date t =
     (let (y, m, d) = local_date t in fmt_year y @ ''-'' @ pad_dec 2 m @ ''-'' @ pad_dec 2 d)"

definition format_stamp :: "gtime \<Rightarrow> string" where
  "format_stamp t =
     (let (y, m, d) = local_date t; s = local_secs t
      in fmt_year y @ pad_dec 2 m @ pad_dec 2 d @ ''T'' @ pad_dec 2 (s div 3600) @
         pad_dec 2 (s div 60 mod 60) @ pad_dec 2 (s mod 60) @ ''.'' @
         pad_dec 6 (t_nsec t div 1000) @ ''Z'')"

text \<open>Years that print with four digits.\<close>

definition four_digit_year :: "gtime \<Rightarrow> bool" where
  "four_digit_year t \<longleftrightarrow> 0 \<le> fst (local_date t) \<and> fst (local_date t) < 10000"

text \<open>Formatted dates of four-digit years compare, as strings, like the days they name.\<close>

lemma format_date_less_iff:
  assumes "four_digit_year t" "four_digit_year u"
  shows "format_date t < format_date u \<longleftrightarrow> local_days t < local_days u"
proof -
  obtain y m d where t: "civil_of_days (local_days t) = (y, m, d)" by (cases "civil_of_days (local_days t)")
  obtain y' m' d' where u: "civil_of_days (local_days u) = (y', m', d')"
    by (cases "civil_of_days (local_days u)")
  from assms t u have y4: "0 \<le> y" "y < 10000" "0 \<le> y'" "y' < 10000"
    by (auto simp: four_digit_year_def local_date_def)
  then have y: "nat y < 10 ^ 4" "nat y' < 10 ^ 4" by auto
  from y4 have fy: "fmt_year y = pad_dec 4 (nat y)" "fmt_year y' = pad_dec 4 (nat y')"
    by (auto simp: fmt_year_def)
  have md: "m < 10 ^ 2" "m' < 10 ^ 2" "d < 10 ^ 2" "d' < 10 ^ 2"
    using civil_bounds [OF t] civil_bounds [OF u] by simp_all
  have "format_date t < format_date u \<longleftrightarrow>
      nat y < nat y' \<or> (nat y = nat y' \<and> (m < m' \<or> (m = m' \<and> d < d')))"
    using t u y md by (simp add: format_date_def local_date_def fy
        list_less_append_eq_length pad_dec_less_iff pad_dec_inj)
  also have "\<dots> \<longleftrightarrow> local_days t < local_days u"
    using y4 by (auto simp: civil_less_iff [OF t u])
  finally show ?thesis .
qed

lemma format_date_eq_iff:
  assumes "four_digit_year t" "four_digit_year u"
  shows "format_date t = format_date u \<longleftrightarrow> local_days t = local_days u"
proof
  assume "format_date t = format_date u"
  then show "local_days t = local_days u"
    using format_date_less_iff [OF assms] format_date_less_iff [OF assms(2,1)] by auto
qed (simp add: format_date_def local_date_def)

lemma format_date_chars:
  assumes "four_digit_year t"
  shows "length (format_date t) = 10" "c \<in> set (format_date t) \<Longrightarrow> is_digit c \<or> c = CHR ''-''"
proof -
  obtain y m d where t: "local_date t = (y, m, d)" by (cases "local_date t")
  with assms show "length (format_date t) = 10"
    "c \<in> set (format_date t) \<Longrightarrow> is_digit c \<or> c = CHR ''-''"
    by (auto simp: format_date_def four_digit_year_def fmt_year_def dest: pad_dec_digits)
qed

subsection \<open>RFC 3339 text\<close>

text \<open>The fraction of \<open>RFC3339Nano\<close>: nine digits without their trailing zeros, absent when zero.\<close>

definition strip_zeros :: "string \<Rightarrow> string" where
  "strip_zeros s = rev (dropWhile (\<lambda>c. c = CHR ''0'') (rev s))"

definition fmt_fraction :: "nat \<Rightarrow> string" where
  "fmt_fraction n = (if n = 0 then [] else CHR ''.'' # strip_zeros (pad_dec 9 n))"

definition fmt_zone :: "int \<Rightarrow> string" where
  "fmt_zone off =
     (if off = 0 then ''Z''
      else (let z = nat (\<bar>off\<bar> div 60)
            in (if off < 0 then CHR ''-'' else CHR ''+'') # pad_dec 2 (z div 60) @ '':'' @ pad_dec 2 (z mod 60)))"

text \<open>
  \<open>Time.MarshalJSON\<close> without its quotes. Years outside 0..9999 and zones of 24 hours or more are
  errors.
\<close>

definition marshal_time :: "gtime \<Rightarrow> string result" where
  "marshal_time t =
     (let (y, m, d) = local_date t; s = local_secs t
      in if y < 0 \<or> 9999 < y then Inl (ErrNew ''Time.MarshalJSON: year outside of range [0,9999]'')
         else if 86400 \<le> \<bar>t_off t\<bar> then
           Inl (ErrNew ''Time.MarshalJSON: timezone hour outside of range [0,23]'')
         else Inr (pad_dec 4 (nat y) @ ''-'' @ pad_dec 2 m @ ''-'' @ pad_dec 2 d @ ''T'' @
           pad_dec 2 (s div 3600) @ '':'' @ pad_dec 2 (s div 60 mod 60) @ '':'' @ pad_dec 2 (s mod 60) @
           fmt_fraction (t_nsec t) @ fmt_zone (t_off t)))"

text \<open>Reading: fixed-width unsigned fields with a range, and separators.\<close>

definition parse_uint :: "nat \<Rightarrow> nat \<Rightarrow> nat \<Rightarrow> string \<Rightarrow> (nat \<times> string) option" where
  "parse_uint w lo hi s =
     (let p = take w s; v = dec_val p
      in if length p = w \<and> list_all is_digit p \<and> lo \<le> v \<and> v \<le> hi then Some (v, drop w s) else None)"

fun expect :: "char \<Rightarrow> string \<Rightarrow> string option" where
  "expect c [] = None"
| "expect c (x # xs) = (if x = c then Some xs else None)"

text \<open>
  A fraction is a separator followed by at least one digit; digits after the ninth are dropped. A zone is
  \<open>Z\<close> or a sign, hours, a colon and minutes, each with a bound.
\<close>

definition parse_fraction :: "string \<Rightarrow> string \<Rightarrow> nat \<times> string" where
  "parse_fraction seps s =
     (case s of
        c # r \<Rightarrow>
          (if c \<in> set seps \<and> r \<noteq> [] \<and> is_digit (hd r) then
             (dec_val (take 9 (takeWhile is_digit r @ replicate 9 (CHR ''0''))), dropWhile is_digit r)
           else (0, s))
      | [] \<Rightarrow> (0, s))"

definition parse_zone :: "nat \<Rightarrow> nat \<Rightarrow> string \<Rightarrow> int option" where
  "parse_zone hmax mmax s =
     (if s = ''Z'' then Some 0
      else (case s of
              [] \<Rightarrow> None
            | c # r \<Rightarrow>
                do {
                  (hh, r) \<leftarrow> parse_uint 2 0 hmax r;
                  r \<leftarrow> expect (CHR '':'') r;
                  (mm, r) \<leftarrow> parse_uint 2 0 mmax r;
                  if r \<noteq> [] then None
                  else if c = CHR ''+'' then Some (int (hh * 60 + mm) * 60)
                  else if c = CHR ''-'' then Some (- (int (hh * 60 + mm) * 60))
                  else None
                }))"

text \<open>
  \<open>Time.UnmarshalJSON\<close> tries RFC 3339 as written (\<open>parse_rfc3339\<close>), then \<open>time.Parse\<close> with the
  layout of RFC 3339 (\<open>parse_layout\<close>), whose strict checks are switched off in Go's library: it also
  takes an hour of one digit, a comma for the point, and zones of up to 24 hours and 60 minutes. The two
  differ in nothing else, and \<open>parse_clock\<close> is what they share.
\<close>

definition parse_clock :: "(string \<Rightarrow> (nat \<times> string) option) \<Rightarrow> string \<Rightarrow> nat \<Rightarrow> nat \<Rightarrow> string \<Rightarrow> gtime option" where
  "parse_clock get_hour seps hmax mmax s =
     do {
       (y, s) \<leftarrow> parse_uint 4 0 9999 s;
       s \<leftarrow> expect (CHR ''-'') s;
       (m, s) \<leftarrow> parse_uint 2 1 12 s;
       s \<leftarrow> expect (CHR ''-'') s;
       (d, s) \<leftarrow> parse_uint 2 1 (days_in m (int y)) s;
       s \<leftarrow> expect (CHR ''T'') s;
       (hh, s) \<leftarrow> get_hour s;
       s \<leftarrow> expect (CHR '':'') s;
       (mi, s) \<leftarrow> parse_uint 2 0 59 s;
       s \<leftarrow> expect (CHR '':'') s;
       (sec, s) \<leftarrow> parse_uint 2 0 59 s;
       let (nsec, s) = parse_fraction seps s;
       off \<leftarrow> parse_zone hmax mmax s;
       Some \<lparr>t_sec = days_of_civil (int y) m d * 86400 + int (hh * 3600 + mi * 60 + sec) - off,
             t_nsec = nsec, t_off = off\<rparr>
     }"

definition parse_hour :: "string \<Rightarrow> (nat \<times> string) option" where
  "parse_hour s =
     (if parse_uint 2 0 99 s = None then parse_uint 1 0 9 s else parse_uint 2 0 23 s)"

definition parse_rfc3339 :: "string \<Rightarrow> gtime option" where
  "parse_rfc3339 s = parse_clock (parse_uint 2 0 23) ''.'' 23 59 s"

definition parse_layout :: "string \<Rightarrow> gtime option" where
  "parse_layout s = parse_clock parse_hour ''.,'' 24 60 s"

definition parse_time :: "string \<Rightarrow> gtime option" where
  "parse_time s = (case parse_rfc3339 s of Some t \<Rightarrow> Some t | None \<Rightarrow> parse_layout s)"

lemma parse_uint_pad:
  "n < 10 ^ w \<Longrightarrow> lo \<le> n \<Longrightarrow> n \<le> hi \<Longrightarrow> parse_uint w lo hi (pad_dec w n @ s) = Some (n, s)"
  by (auto simp: parse_uint_def Let_def dec_val_pad_dec list_all_iff dest: pad_dec_digits)

lemma strip_zeros_pad: "\<exists>k. s = strip_zeros s @ replicate k (CHR ''0'')"
proof -
  let ?z = "takeWhile (\<lambda>c. c = CHR ''0'') (rev s)"
  have "?z = replicate (length ?z) (CHR ''0'')"
    by (rule replicate_eqI) (auto dest: set_takeWhileD)
  moreover have "s = strip_zeros s @ rev ?z"
    unfolding strip_zeros_def by (metis rev_append rev_rev_ident takeWhile_dropWhile_id)
  ultimately show ?thesis by (metis rev_replicate)
qed

lemma take_strip_zeros:
  "length s = n \<Longrightarrow> take n (strip_zeros s @ replicate n (CHR ''0'')) = s"
proof -
  assume n: "length s = n"
  obtain k where k: "s = strip_zeros s @ replicate k (CHR ''0'')" using strip_zeros_pad by blast
  with n have "k \<le> n" by (metis le_add2 length_append length_replicate)
  then have "replicate n (CHR ''0'') = replicate k (CHR ''0'') @ replicate (n - k) (CHR ''0'')"
    by (metis le_add_diff_inverse replicate_add)
  with k n show ?thesis by (metis append.assoc append_eq_conv_conj)
qed

lemma strip_zeros_digits: "c \<in> set (strip_zeros (pad_dec w n)) \<Longrightarrow> is_digit c"
  unfolding strip_zeros_def by (auto dest!: set_dropWhileD pad_dec_digits)

lemma dec_val_zeros: "dec_val (replicate k (CHR ''0'')) = 0"
proof (induction k)
  case (Suc k)
  have "digit_val (CHR ''0'') = 0" by (simp add: digit_val_def)
  moreover have "replicate (Suc k) (CHR ''0'') = replicate k (CHR ''0'') @ [CHR ''0'']"
    by (simp add: replicate_append_same)
  ultimately show ?case using Suc by (simp only: dec_val_snoc)
qed simp

lemma strip_zeros_nonempty:
  assumes "0 < n" "n < 10 ^ w"
  shows "strip_zeros (pad_dec w n) \<noteq> []"
proof
  assume "strip_zeros (pad_dec w n) = []"
  with strip_zeros_pad [of "pad_dec w n"] obtain k where "pad_dec w n = replicate k (CHR ''0'')" by auto
  with dec_val_pad_dec [OF assms(2)] dec_val_zeros [of k] assms(1) show False by simp
qed

lemma parse_fraction_fmt:
  assumes "n < 10 ^ 9" and "s = [] \<or> (\<not> is_digit (hd s) \<and> hd s \<noteq> CHR ''.'')"
  shows "parse_fraction ''.'' (fmt_fraction n @ s) = (n, s)"
proof (cases "n = 0")
  case True
  with assms show ?thesis by (cases s) (auto simp: fmt_fraction_def parse_fraction_def)
next
  case False
  let ?p = "strip_zeros (pad_dec 9 n)"
  have ne: "?p \<noteq> []" using False assms(1) by (intro strip_zeros_nonempty) auto
  have digs: "\<And>c. c \<in> set ?p \<Longrightarrow> is_digit c" by (rule strip_zeros_digits)
  from assms(2) have "takeWhile is_digit s = []" "dropWhile is_digit s = s" by (cases s; auto)+
  with digs have "takeWhile is_digit (?p @ s) = ?p" "dropWhile is_digit (?p @ s) = s"
    by (simp_all add: takeWhile_append2 dropWhile_append2)
  moreover have "is_digit (hd (?p @ s))" using ne digs by simp
  moreover have "take 9 (?p @ replicate 9 (CHR ''0'')) = pad_dec 9 n" by (rule take_strip_zeros) simp
  ultimately show ?thesis using False ne assms(1)
    by (simp add: parse_fraction_def fmt_fraction_def dec_val_pad_dec
        del: take_append takeWhile_append dropWhile_append)
qed

lemma parse_zone_fmt:
  assumes "\<bar>off\<bar> < 86400" "60 dvd off"
  shows "parse_zone 23 59 (fmt_zone off) = Some off"
proof (cases "off = 0")
  case False
  let ?z = "nat (\<bar>off\<bar> div 60)"
  have z: "?z div 60 \<le> 23" "?z mod 60 \<le> 59" using assms(1) by (auto simp: nat_le_iff)
  have "int ?z * 60 = \<bar>off\<bar>" using assms(2) by (simp add: pos_imp_zdiv_nonneg_iff)
  then have zz: "int (?z div 60 * 60 + ?z mod 60) * 60 = \<bar>off\<bar>" by (simp only: div_mult_mod_eq)
  have "parse_uint 2 0 23 (pad_dec 2 (?z div 60) @ CHR '':'' # pad_dec 2 (?z mod 60)) =
      Some (?z div 60, CHR '':'' # pad_dec 2 (?z mod 60))"
    using z by (intro parse_uint_pad) auto
  moreover have "parse_uint 2 0 59 (pad_dec 2 (?z mod 60)) = Some (?z mod 60, [])"
    using parse_uint_pad [of "?z mod 60" 2 0 59 "[]"] z by simp
  ultimately show ?thesis using False zz by (auto simp: fmt_zone_def parse_zone_def Let_def)
qed (simp add: fmt_zone_def parse_zone_def)

lemma fmt_zone_hd: "fmt_zone off \<noteq> [] \<and> \<not> is_digit (hd (fmt_zone off)) \<and> hd (fmt_zone off) \<noteq> CHR ''.''"
  by (auto simp: fmt_zone_def Let_def is_digit_def)

text \<open>Times that JSON can carry: a four-digit local year and a zone of whole minutes under a day.\<close>

definition json_time :: "gtime \<Rightarrow> bool" where
  "json_time t \<longleftrightarrow> four_digit_year t \<and> t_nsec t < 10 ^ 9 \<and> \<bar>t_off t\<bar> < 86400 \<and> 60 dvd t_off t"

lemma local_secs_bound: "local_secs t < 86400"
  by (simp add: local_secs_def nat_less_iff)

lemma local_split: "t_sec t = local_days t * 86400 + int (local_secs t) - t_off t"
  by (simp add: local_days_def local_secs_def)

lemma marshal_time_ok_iff:
  "(\<exists>s. marshal_time t = Inr s) \<longleftrightarrow> four_digit_year t \<and> \<bar>t_off t\<bar> < 86400"
  by (auto simp: marshal_time_def four_digit_year_def Let_def split: prod.splits)

lemma clock_split: "s div 3600 * 3600 + s div 60 mod 60 * 60 + s mod 60 = (s :: nat)"
proof -
  define q where "q = s div 60"
  have "s div 3600 = q div 60" by (simp add: q_def div_mult2_eq [symmetric])
  then have "s div 3600 * 3600 + q mod 60 * 60 = (q div 60 * 60 + q mod 60) * 60"
  proof -
    have "a * 3600 + b * 60 = (a * 60 + b) * 60" for a b :: nat by simp
    with \<open>s div 3600 = q div 60\<close> show ?thesis by presburger
  qed
  also have "\<dots> = q * 60" by (simp only: div_mult_mod_eq)
  finally show ?thesis by (simp add: q_def)
qed

lemma parse_marshal_time:
  assumes "json_time t" "marshal_time t = Inr s"
  shows "parse_rfc3339 s = Some t"
proof -
  obtain y m d where ymd: "local_date t = (y, m, d)" by (cases "local_date t")
  then have civ: "civil_of_days (local_days t) = (y, m, d)" by (simp add: local_date_def)
  note days = days_of_civil_of_days [OF civ]
  let ?s = "local_secs t"
  from assms(1) ymd have y: "0 \<le> y" "y < 10000" by (auto simp: json_time_def four_digit_year_def)
  have bounds: "?s div 3600 \<le> 23" "?s div 60 mod 60 \<le> 59" "?s mod 60 \<le> 59"
    using local_secs_bound [of t] by auto
  have m: "1 \<le> m" "m \<le> 12" "1 \<le> d" "d \<le> days_in m y" "d \<le> 31"
    using days(1) civil_bounds [OF civ] by (auto simp: valid_civil_def)
  from assms y have s: "s = pad_dec 4 (nat y) @ ''-'' @ pad_dec 2 m @ ''-'' @ pad_dec 2 d @ ''T'' @
      pad_dec 2 (?s div 3600) @ '':'' @ pad_dec 2 (?s div 60 mod 60) @ '':'' @ pad_dec 2 (?s mod 60) @
      fmt_fraction (t_nsec t) @ fmt_zone (t_off t)"
    by (simp add: marshal_time_def ymd Let_def json_time_def split: if_splits)
  have secs: "?s div 3600 * 3600 + ?s div 60 mod 60 * 60 + ?s mod 60 = ?s" by (rule clock_split)
  have zone: "parse_zone 23 59 (fmt_zone (t_off t)) = Some (t_off t)"
    using assms(1) by (intro parse_zone_fmt) (auto simp: json_time_def)
  have frac: "parse_fraction ''.'' (fmt_fraction (t_nsec t) @ fmt_zone (t_off t)) = (t_nsec t, fmt_zone (t_off t))"
    using assms(1) fmt_zone_hd [of "t_off t"] by (intro parse_fraction_fmt) (auto simp: json_time_def)
  have "parse_rfc3339 s = Some \<lparr>t_sec = days_of_civil y m d * 86400 +
      int (?s div 3600 * 3600 + ?s div 60 mod 60 * 60 + ?s mod 60) - t_off t,
      t_nsec = t_nsec t, t_off = t_off t\<rparr>"
    unfolding s parse_rfc3339_def parse_clock_def using y m bounds frac zone
    by (simp add: parse_uint_pad)
  also have "\<dots> = Some t" using local_split [of t] days(2) by (simp only: secs) simp
  finally show ?thesis .
qed

corollary parse_time_marshal: "json_time t \<Longrightarrow> marshal_time t = Inr s \<Longrightarrow> parse_time s = Some t"
  by (simp add: parse_time_def parse_marshal_time)

subsection \<open>What times JSON text gives\<close>

text \<open>
  A four-digit local year and a zone of whole minutes, at most 25 hours: those of a day or more are the
  ones that cannot be written again (\<open>marshal_time_ok_iff\<close>).
\<close>

definition go_time :: "gtime \<Rightarrow> bool" where
  "go_time t \<longleftrightarrow> four_digit_year t \<and> t_nsec t < 10 ^ 9 \<and> \<bar>t_off t\<bar> \<le> 90000 \<and> 60 dvd t_off t"

lemma json_time_go: "json_time t \<longleftrightarrow> go_time t \<and> \<bar>t_off t\<bar> < 86400"
  by (auto simp: json_time_def go_time_def)

lemma json_time_iff: "go_time t \<Longrightarrow> json_time t \<longleftrightarrow> (\<exists>s. marshal_time t = Inr s)"
  by (auto simp: json_time_def go_time_def marshal_time_ok_iff)

lemma parse_uint_bounds: "parse_uint w lo hi s = Some (n, r) \<Longrightarrow> lo \<le> n \<and> n \<le> hi"
  by (auto simp: parse_uint_def Let_def split: if_splits)

lemma parse_hour_bound: "parse_hour s = Some (n, r) \<Longrightarrow> n \<le> 23"
  by (auto simp: parse_hour_def split: if_splits dest: parse_uint_bounds)

lemma parse_fraction_bound: "fst (parse_fraction seps s) < 10 ^ 9"
proof -
  have d: "list_all is_digit (take 9 (takeWhile is_digit r @ replicate 9 (CHR ''0'')))" for r
    by (auto simp: list_all_iff is_digit_def dest!: in_set_takeD dest: set_takeWhileD)
  have "length (take 9 (takeWhile is_digit r @ replicate 9 (CHR ''0''))) = 9" for r by simp
  then have "dec_val (take 9 (takeWhile is_digit r @ replicate 9 (CHR ''0''))) < 10 ^ 9" for r
    using dec_val_bound [OF d [of r]] by (simp only:)
  then show ?thesis by (auto simp: parse_fraction_def simp del: take_append split: list.split)
qed

lemma bind_uintE:
  assumes "Option.bind (parse_uint w lo hi s) (\<lambda>(n, r). f n r) = Some x"
  obtains n r where "lo \<le> n" "n \<le> hi" "f n r = Some x"
  using assms by (auto simp: Option.bind_eq_Some_conv dest: parse_uint_bounds)

lemma bind_hourE:
  assumes "Option.bind (get s) (\<lambda>(n, r). f n r) = Some x"
  obtains n q r where "get q = Some (n, r)" "f n r = Some x"
  using assms by (auto simp: Option.bind_eq_Some_conv)

lemma bind_expectE:
  assumes "Option.bind (expect c s) f = Some x"
  obtains r where "f r = Some x"
  using assms by (auto simp: Option.bind_eq_Some_conv)

lemma parse_zone_bound:
  assumes "parse_zone hmax mmax s = Some off"
  shows "\<bar>off\<bar> \<le> int (hmax * 60 + mmax) * 60 \<and> 60 dvd off"
proof (cases "s = ''Z'' \<or> s = []")
  case True
  with assms show ?thesis by (auto simp: parse_zone_def)
next
  case False
  then obtain c r where s: "c # r \<noteq> ''Z''" "s = c # r" by (cases s) auto
  from assms obtain hh mm where "hh \<le> hmax" "mm \<le> mmax"
      and off: "off = int (hh * 60 + mm) * 60 \<or> off = - (int (hh * 60 + mm) * 60)"
    unfolding parse_zone_def s(2) if_not_P [OF s(1)] list.case
    by (elim bind_uintE bind_expectE) (auto split: if_splits)
  then have "hh * 60 + mm \<le> hmax * 60 + mmax" by (intro add_mono mult_le_mono) auto
  with off show ?thesis by (auto simp del: of_nat_add of_nat_mult)
qed

lemma local_days_eq:
  assumes "t_sec t = n * 86400 + int s - t_off t" "s < 86400"
  shows "local_days t = n"
  using assms by (simp add: local_days_def)

lemma parse_clock_go_time:
  assumes p: "parse_clock get seps hmax mmax s = Some t"
    and hour: "\<And>s n r. get s = Some (n, r) \<Longrightarrow> n \<le> 23" and zone: "hmax * 60 + mmax \<le> 1500"
  shows "go_time t"
proof -
  obtain y m d hh mi sec nsec off where y: "y \<le> 9999" and md: "1 \<le> m" "m \<le> 12" "1 \<le> d" "d \<le> days_in m (int y)"
    and hms: "hh \<le> 23" "mi \<le> 59" "sec \<le> 59" and nsec: "nsec < 10 ^ 9"
    and off: "\<bar>off\<bar> \<le> int (hmax * 60 + mmax) * 60 \<and> 60 dvd off"
    and t: "t = \<lparr>t_sec = days_of_civil (int y) m d * 86400 + int (hh * 3600 + mi * 60 + sec) - off, t_nsec = nsec, t_off = off\<rparr>"
  proof -
    note E = that
    from p show thesis
      unfolding parse_clock_def
    proof (elim bind_uintE bind_expectE bind_hourE [where get = get])
      fix y s1 s2 m s3 s4 d s5 s6 hh s7 s7' s8 mi s9 s10 sec s11
      assume b: "y \<le> 9999" "1 \<le> m" "m \<le> 12" "1 \<le> d" "d \<le> days_in m (int y)" "get s7' = Some (hh, s7)"
          "mi \<le> 59" "sec \<le> 59"
        and r: "(let (nsec, s) = parse_fraction seps s11 in Option.bind (parse_zone hmax mmax s) (\<lambda>off.
          Some \<lparr>t_sec = days_of_civil (int y) m d * 86400 + int (hh * 3600 + mi * 60 + sec) - off,
             t_nsec = nsec, t_off = off\<rparr>)) = Some t"
      obtain nsec q where q: "parse_fraction seps s11 = (nsec, q)" by (cases "parse_fraction seps s11")
      from r q obtain off where o: "parse_zone hmax mmax q = Some off"
        "t = \<lparr>t_sec = days_of_civil (int y) m d * 86400 + int (hh * 3600 + mi * 60 + sec) - off, t_nsec = nsec, t_off = off\<rparr>"
        by (auto simp: Option.bind_eq_Some_conv)
      from q parse_fraction_bound [of seps s11] have "nsec < 10 ^ 9" by simp
      from E [OF b(1-5) hour [OF b(6)] b(7,8) this parse_zone_bound [OF o(1)] o(2)] show thesis .
    qed
  qed
  have v: "valid_civil (int y) m d" using md by (simp add: valid_civil_def)
  have "hh * 3600 + mi * 60 + sec < 86400" using hms by linarith
  then have "local_days t = days_of_civil (int y) m d" unfolding t by (intro local_days_eq) simp_all
  moreover have "int (hmax * 60 + mmax) * 60 \<le> 90000" using of_nat_mono [OF zone, where 'a = int] by simp
  ultimately show ?thesis using civil_of_days_of_civil [OF v] y nsec off
    by (simp add: go_time_def four_digit_year_def local_date_def t)
qed

theorem parse_time_go_time:
  assumes "parse_time s = Some t"
  shows "go_time t"
proof (cases "parse_rfc3339 s")
  case None
  with assms have "parse_layout s = Some t" by (simp add: parse_time_def)
  then show ?thesis unfolding parse_layout_def by (rule parse_clock_go_time) (auto dest: parse_hour_bound)
next
  case (Some u)
  with assms have "parse_rfc3339 s = Some t" by (simp add: parse_time_def)
  then show ?thesis unfolding parse_rfc3339_def by (rule parse_clock_go_time) (auto dest: parse_uint_bounds)
qed

lemma zero_time_json [simp]: "json_time zero_time"
proof -
  have "days_of_civil 1 1 1 = 0" by (simp add: days_of_civil_def days_before_year_def month_lens_def)
  moreover have "valid_civil 1 1 1" by (simp add: valid_civil_def days_in_def month_lens_def)
  ultimately have "civil_of_days 0 = (1, 1, 1)" using civil_of_days_of_civil [of 1 1 1] by simp
  then show ?thesis
    by (simp add: json_time_def four_digit_year_def local_date_def local_days_def zero_time_def)
qed

end
