(* ===== verification/Go_Json.thy ===== *)
theory Go_Json
  imports Go_Utf8 Go_Time
begin

section \<open>\<open>encoding/json\<close>\<close>

text \<open>
  The part of \<open>encoding/json\<close> the sources use, on bytes: the syntax scanner (state machines for
  strings and numbers, the nesting limit of 10000), \<open>Unmarshal\<close> (one value, nothing but blanks after
  it), the first value a \<open>Decoder\<close> reads from a size-limited body, compact printing, and the decoding
  of values into Go fields. String values keep their literal, since \<open>time.Time\<close> reads it unescaped.
  The parser recurses on fuel; \<open>parse_value_fuel\<close> shows that \<open>json_fuel\<close> is always enough.
\<close>

subsection \<open>Values and scanner results\<close>

datatype json =
    JNull
  | JBool bool
  | JNum string
  | JStr bytes
  | JArr "json list"
  | JObj "(bytes \<times> json) list"

text \<open>A value and the rest, a syntax error, the end of the input inside a value, or no fuel left.\<close>

datatype 'a pres = POk 'a bytes | PErr | PMore | PFuel

fun pmap :: "('a \<Rightarrow> 'b) \<Rightarrow> 'a pres \<Rightarrow> 'b pres" where
  "pmap f (POk x r) = POk (f x) r"
| "pmap f PErr = PErr"
| "pmap f PMore = PMore"
| "pmap f PFuel = PFuel"

definition is_blank :: "char \<Rightarrow> bool" where
  "is_blank c \<longleftrightarrow> c = CHR '' '' \<or> c = CHR 0x09 \<or> c = CHR 0x0D \<or> c = CHR 0x0A"

abbreviation skip_ws :: "bytes \<Rightarrow> bytes" where
  "skip_ws \<equiv> dropWhile is_blank"

subsection \<open>Strings, numbers, literals\<close>

datatype sstate = InString | InEsc | InHex nat

text \<open>From after the opening quote: the literal without its quotes, and the rest after the closing one.\<close>

fun scan_string :: "sstate \<Rightarrow> bytes \<Rightarrow> bytes pres" where
  "scan_string st [] = PMore"
| "scan_string InString (c # s) =
     (if c = CHR 0x22 then POk [] s
      else if c = CHR 0x5C then pmap (Cons c) (scan_string InEsc s)
      else if byte c < 0x20 then PErr
      else pmap (Cons c) (scan_string InString s))"
| "scan_string InEsc (c # s) =
     (if c \<in> set ''bfnrt/'' \<or> c = CHR 0x5C \<or> c = CHR 0x22 then pmap (Cons c) (scan_string InString s)
      else if c = CHR ''u'' then pmap (Cons c) (scan_string (InHex 3) s)
      else PErr)"
| "scan_string (InHex n) (c # s) =
     (if is_hex c
      then pmap (Cons c) (scan_string (case n of 0 \<Rightarrow> InString | Suc m \<Rightarrow> InHex m) s)
      else PErr)"

datatype nstate = NNeg | NZero | NInt | NDot | NFrac | NExp | NExpSign | NExpDigits

text \<open>One character of a number: the next state, or the end of the number, or an error.\<close>

datatype nstep = NGo nstate | NEnd | NBad

definition num_step :: "nstate \<Rightarrow> char \<Rightarrow> nstep" where
  "num_step st c =
     (let frac_or_exp = (if c = CHR ''.'' then NGo NDot
                         else if c = CHR ''e'' \<or> c = CHR ''E'' then NGo NExp else NEnd)
      in case st of
           NNeg \<Rightarrow> if c = CHR ''0'' then NGo NZero else if is_digit c then NGo NInt else NBad
         | NZero \<Rightarrow> frac_or_exp
         | NInt \<Rightarrow> if is_digit c then NGo NInt else frac_or_exp
         | NDot \<Rightarrow> if is_digit c then NGo NFrac else NBad
         | NFrac \<Rightarrow> if is_digit c then NGo NFrac
                   else if c = CHR ''e'' \<or> c = CHR ''E'' then NGo NExp else NEnd
         | NExp \<Rightarrow> if c = CHR ''+'' \<or> c = CHR ''-'' then NGo NExpSign
                  else if is_digit c then NGo NExpDigits else NBad
         | NExpSign \<Rightarrow> if is_digit c then NGo NExpDigits else NBad
         | NExpDigits \<Rightarrow> if is_digit c then NGo NExpDigits else NEnd)"

definition num_accepts :: "nstate \<Rightarrow> bool" where
  "num_accepts st \<longleftrightarrow> st = NZero \<or> st = NInt \<or> st = NFrac \<or> st = NExpDigits"

fun scan_number :: "nstate \<Rightarrow> bytes \<Rightarrow> bytes pres" where
  "scan_number st [] = (if num_accepts st then POk [] [] else PMore)"
| "scan_number st (c # s) =
     (case num_step st c of
        NGo st' \<Rightarrow> pmap (Cons c) (scan_number st' s)
      | NEnd \<Rightarrow> POk [] (c # s)
      | NBad \<Rightarrow> PErr)"

fun scan_literal :: "bytes \<Rightarrow> bytes \<Rightarrow> unit pres" where
  "scan_literal [] s = POk () s"
| "scan_literal (e # es) [] = PMore"
| "scan_literal (e # es) (c # s) = (if c = e then scan_literal es s else PErr)"

text \<open>A value that starts with neither a brace nor a bracket; the first character is already taken.\<close>

definition scan_scalar :: "char \<Rightarrow> bytes \<Rightarrow> json pres" where
  "scan_scalar c r =
     (if c = CHR 0x22 then pmap JStr (scan_string InString r)
      else if c = CHR ''t'' then pmap (\<lambda>_. JBool True) (scan_literal ''rue'' r)
      else if c = CHR ''f'' then pmap (\<lambda>_. JBool False) (scan_literal ''alse'' r)
      else if c = CHR ''n'' then pmap (\<lambda>_. JNull) (scan_literal ''ull'' r)
      else if c = CHR ''-'' then pmap (\<lambda>l. JNum (c # l)) (scan_number NNeg r)
      else if c = CHR ''0'' then pmap (\<lambda>l. JNum (c # l)) (scan_number NZero r)
      else if is_digit c then pmap (\<lambda>l. JNum (c # l)) (scan_number NInt r)
      else PErr)"

subsection \<open>Values\<close>

definition max_nesting :: nat where
  "max_nesting = 10000"

text \<open>\<open>parse_value fuel depth input\<close>; \<open>parse_members\<close> starts after the opening quote of a key.\<close>

fun parse_value :: "nat \<Rightarrow> nat \<Rightarrow> bytes \<Rightarrow> json pres"
  and parse_elems :: "nat \<Rightarrow> nat \<Rightarrow> bytes \<Rightarrow> json list pres"
  and parse_members :: "nat \<Rightarrow> nat \<Rightarrow> bytes \<Rightarrow> (bytes \<times> json) list pres" where
  "parse_value 0 d s = PFuel"
| "parse_value (Suc n) d s =
     (case skip_ws s of
        [] \<Rightarrow> PMore
      | c # r \<Rightarrow>
          if c = CHR ''{'' then
            (if max_nesting \<le> d then PErr
             else (case skip_ws r of
                     [] \<Rightarrow> PMore
                   | k # r' \<Rightarrow>
                       if k = CHR ''}'' then POk (JObj []) r'
                       else if k = CHR 0x22 then pmap JObj (parse_members n (Suc d) r')
                       else PErr))
          else if c = CHR ''['' then
            (if max_nesting \<le> d then PErr
             else (case skip_ws r of
                     [] \<Rightarrow> PMore
                   | k # r' \<Rightarrow>
                       if k = CHR '']'' then POk (JArr []) r'
                       else pmap JArr (parse_elems n (Suc d) (k # r'))))
          else scan_scalar c r)"
| "parse_elems 0 d s = PFuel"
| "parse_elems (Suc n) d s =
     (case parse_value n d s of
        POk v r \<Rightarrow>
          (case skip_ws r of
             [] \<Rightarrow> PMore
           | c # r' \<Rightarrow>
               if c = CHR '','' then pmap (Cons v) (parse_elems n d r')
               else if c = CHR '']'' then POk [v] r'
               else PErr)
      | PErr \<Rightarrow> PErr | PMore \<Rightarrow> PMore | PFuel \<Rightarrow> PFuel)"
| "parse_members 0 d s = PFuel"
| "parse_members (Suc n) d s =
     (case scan_string InString s of
        POk k r \<Rightarrow>
          (case skip_ws r of
             [] \<Rightarrow> PMore
           | c # r1 \<Rightarrow>
               if c \<noteq> CHR '':'' then PErr
               else (case parse_value n d r1 of
                       POk v r2 \<Rightarrow>
                         (case skip_ws r2 of
                            [] \<Rightarrow> PMore
                          | c2 # r3 \<Rightarrow>
                              if c2 = CHR ''}'' then POk [(k, v)] r3
                              else if c2 = CHR '','' then
                                (case skip_ws r3 of
                                   [] \<Rightarrow> PMore
                                 | c3 # r4 \<Rightarrow>
                                     if c3 = CHR 0x22 then pmap (Cons (k, v)) (parse_members n d r4)
                                     else PErr)
                              else PErr)
                     | PErr \<Rightarrow> PErr | PMore \<Rightarrow> PMore | PFuel \<Rightarrow> PFuel))
      | PErr \<Rightarrow> PErr | PMore \<Rightarrow> PMore | PFuel \<Rightarrow> PFuel)"

definition json_fuel :: "bytes \<Rightarrow> nat" where
  "json_fuel s = 2 * length s + 2"

definition parse_json :: "bytes \<Rightarrow> json pres" where
  "parse_json s = parse_value (json_fuel s) 0 s"

subsection \<open>The fuel is enough\<close>

declare dropWhile_eq_Nil_conv [simp del]

lemma pmap_POk: "pmap f p = POk y r \<longleftrightarrow> (\<exists>x. p = POk x r \<and> y = f x)"
  by (cases p) auto

lemma pmap_PFuel [simp]: "pmap f p = PFuel \<longleftrightarrow> p = PFuel"
  by (cases p) auto

lemma skip_ws_length: "length (skip_ws s) \<le> length s"
  by (rule length_dropWhile_le)

lemma skip_ws_Cons_length: "skip_ws s = c # r \<Longrightarrow> length r < length s"
  using skip_ws_length [of s] by simp

lemma scan_string_rest: "scan_string st s = POk x r \<Longrightarrow> length r < length s"
  by (induction st s arbitrary: x rule: scan_string.induct)
    (auto simp: pmap_POk split: if_splits intro: less_SucI)

lemma scan_number_rest: "scan_number st s = POk x r \<Longrightarrow> length r \<le> length s"
  by (induction st s arbitrary: x rule: scan_number.induct)
    (auto simp: pmap_POk split: nstep.splits if_splits intro: le_SucI)

lemma scan_literal_rest: "scan_literal e s = POk x r \<Longrightarrow> length r \<le> length s"
  by (induction e s rule: scan_literal.induct) (auto split: if_splits)

lemma scan_string_PFuel [simp]: "scan_string st s \<noteq> PFuel"
  by (induction st s rule: scan_string.induct) auto

lemma scan_number_PFuel [simp]: "scan_number st s \<noteq> PFuel"
  by (induction st s rule: scan_number.induct) (auto split: nstep.splits)

lemma scan_literal_PFuel [simp]: "scan_literal e s \<noteq> PFuel"
  by (induction e s rule: scan_literal.induct) auto

lemma scan_scalar_PFuel [simp]: "scan_scalar c r \<noteq> PFuel"
  by (auto simp: scan_scalar_def)

lemma scan_scalar_rest: "scan_scalar c r = POk v r' \<Longrightarrow> length r' \<le> length r"
  by (auto simp: scan_scalar_def pmap_POk split: if_splits
      dest: scan_string_rest scan_number_rest scan_literal_rest)

lemma parse_rest:
  "parse_value n d s = POk v r \<Longrightarrow> length r < length s"
  "parse_elems n d s = POk vs r \<Longrightarrow> length r < length s"
  "parse_members n d s = POk ms r \<Longrightarrow> length r < length s"
proof (induction n d s and n d s and n d s arbitrary: v r and vs r and ms r
    rule: parse_value_parse_elems_parse_members.induct)
  case (2 n d s)
  obtain c q where cq: "skip_ws s = c # q" using "2.prems" by (auto split: list.splits)
  note len = skip_ws_Cons_length [OF cq]
  show ?case
  proof (cases "c = CHR ''{'' \<or> c = CHR ''[''")
    case True
    then obtain k q' where kq: "skip_ws q = k # q'" using "2.prems" cq
      by (auto split: list.splits if_splits)
    with "2.prems" cq "2.IH" skip_ws_Cons_length [OF kq] len True show ?thesis
      by (fastforce simp: pmap_POk split: if_splits)
  next
    case False
    with "2.prems" cq len show ?thesis by (auto dest: scan_scalar_rest)
  qed
next
  case (4 n d s)
  then obtain v q where v: "parse_value n d s = POk v q" by (auto split: pres.splits)
  with "4.prems" obtain c q' where cq: "skip_ws q = c # q'" by (auto split: list.splits)
  from "4.IH"(1) [OF v] skip_ws_Cons_length [OF cq] have "length q' < length s" by simp
  with "4.prems" "4.IH"(2) [OF v cq] v cq show ?case by (fastforce simp: pmap_POk split: if_splits)
next
  case (6 n d s)
  then obtain k q where k: "scan_string InString s = POk k q" by (auto split: pres.splits)
  with "6.prems" obtain c q1 where c: "skip_ws q = c # q1" "c = CHR '':''"
    by (auto split: list.splits if_splits)
  with "6.prems" k obtain v q2 where v: "parse_value n d q1 = POk v q2" by (auto split: pres.splits)
  with "6.prems" k c obtain c2 q3 where c2: "skip_ws q2 = c2 # q3" by (auto split: list.splits)
  have l: "length q3 < length s"
    using scan_string_rest [OF k] skip_ws_Cons_length [OF c(1)] "6.IH"(1) [OF k c(1)] c v
      skip_ws_Cons_length [OF c2] by fastforce
  show ?case
  proof (cases "c2 = CHR '',''")
    case True
    with "6.prems" k c v c2 obtain c3 q4 ms' where q4: "skip_ws q3 = c3 # q4" "c3 = CHR 0x22"
        "parse_members n d q4 = POk ms' r"
      by (auto simp: pmap_POk split: list.splits if_splits)
    with "6.IH"(2) [OF k c(1) _ v c2 _ _ q4(1,2)] c True skip_ws_Cons_length [OF q4(1)] l show ?thesis
      by fastforce
  next
    case False
    with "6.prems" k c v c2 l show ?thesis by (auto split: if_splits)
  qed
qed simp_all

lemma parse_fuel:
  "2 * length s < n \<Longrightarrow> parse_value n d s \<noteq> PFuel"
  "2 * length s + 1 < n \<Longrightarrow> parse_elems n d s \<noteq> PFuel"
  "2 * length s + 1 < n \<Longrightarrow> parse_members n d s \<noteq> PFuel"
proof (induction n d s and n d s and n d s rule: parse_value_parse_elems_parse_members.induct)
  case (2 n d s)
  show ?case
  proof (cases "skip_ws s")
    case (Cons c q)
    note len = skip_ws_Cons_length [OF Cons]
    show ?thesis
    proof (cases "skip_ws q")
      case Nil
      with Cons show ?thesis by simp
    next
      case kq: (Cons k q')
      with skip_ws_Cons_length [OF kq] len "2.prems" have
        "2 * length q' + 1 < n" "2 * length (k # q') + 1 < n" using skip_ws_length [of q] by auto
      with "2.IH"(1) [OF Cons _ _ kq] "2.IH"(2) [OF Cons _ _ _ kq] Cons kq show ?thesis by simp
    qed
  qed simp
next
  case (4 n d s)
  from "4.prems" have nv: "parse_value n d s \<noteq> PFuel" by (intro "4.IH"(1)) simp
  show ?case
  proof (cases "parse_value n d s")
    case (POk v q)
    show ?thesis
    proof (cases "skip_ws q")
      case (Cons c q')
      from parse_rest(1) [OF POk] skip_ws_Cons_length [OF Cons] "4.prems"
      have "2 * length q' + 1 < n" by simp
      with "4.IH"(2) [OF POk Cons] POk Cons show ?thesis by simp
    qed (simp add: POk)
  qed (use nv in simp_all)
next
  case (6 n d s)
  show ?case
  proof (cases "scan_string InString s")
    case k: (POk k q)
    show ?thesis
    proof (cases "skip_ws q")
      case c: (Cons c q1)
      have l1: "length q1 + 2 \<le> length s"
        using scan_string_rest [OF k] skip_ws_Cons_length [OF c] by simp
      have nv: "c = CHR '':'' \<Longrightarrow> parse_value n d q1 \<noteq> PFuel"
        using "6.IH"(1) [OF k c] "6.prems" l1 by simp
      show ?thesis
      proof (cases "c = CHR '':''")
        case True
        show ?thesis
        proof (cases "parse_value n d q1")
          case v: (POk v q2)
          show ?thesis
          proof (cases "skip_ws q2")
            case c2: (Cons c2 q3)
            show ?thesis
            proof (cases "skip_ws q3")
              case c3: (Cons c3 q4)
              have "2 * length q4 + 1 < n"
                using skip_ws_Cons_length [OF c3] skip_ws_Cons_length [OF c2] parse_rest(1) [OF v] l1
                  "6.prems" by simp
              with "6.IH"(2) [OF k c _ v c2 _ _ c3] True k c v c2 c3 show ?thesis by simp
            qed (simp add: k c v c2)
          qed (simp add: k c v)
        qed (use nv True k c in simp_all)
      qed (simp add: k c)
    qed (simp add: k)
  qed simp_all
qed simp_all

theorem parse_value_fuel: "parse_json s \<noteq> PFuel"
  unfolding parse_json_def json_fuel_def by (rule parse_fuel(1)) simp

subsection \<open>Printing\<close>

text \<open>Compact form, as \<open>json.Marshal\<close> writes it.\<close>

fun print_json :: "json \<Rightarrow> bytes" where
  "print_json JNull = ''null''"
| "print_json (JBool b) = (if b then ''true'' else ''false'')"
| "print_json (JNum l) = l"
| "print_json (JStr raw) = CHR 0x22 # raw @ [CHR 0x22]"
| "print_json (JArr js) = CHR ''['' # join_with '','' (map print_json js) @ '']''"
| "print_json (JObj ms) =
     CHR ''{'' # join_with '','' (map (\<lambda>(k, v). CHR 0x22 # k @ CHR 0x22 # CHR '':'' # print_json v) ms) @ ''}''"

text \<open>Literals the scanner takes whole, and the nesting of a value.\<close>

definition wf_raw :: "bytes \<Rightarrow> bool" where
  "wf_raw raw \<longleftrightarrow> scan_string InString (raw @ [CHR 0x22]) = POk raw []"

definition wf_num :: "string \<Rightarrow> bool" where
  "wf_num l = (case l of [] \<Rightarrow> False | c # r \<Rightarrow> c \<noteq> CHR 0x22 \<and> scan_scalar c r = POk (JNum l) [])"

fun wf_json :: "json \<Rightarrow> bool" where
  "wf_json (JNum l) = wf_num l"
| "wf_json (JStr raw) = wf_raw raw"
| "wf_json (JArr js) = (\<forall>j \<in> set js. wf_json j)"
| "wf_json (JObj ms) = (\<forall>(k, v) \<in> set ms. wf_raw k \<and> wf_json v)"
| "wf_json _ = True"

fun json_depth :: "json \<Rightarrow> nat" where
  "json_depth (JArr js) = Suc (foldr max (map json_depth js) 0)"
| "json_depth (JObj ms) = Suc (foldr max (map (\<lambda>(k, v). json_depth v) ms) 0)"
| "json_depth _ = 0"

definition num_end :: "bytes \<Rightarrow> bool" where
  "num_end t \<longleftrightarrow> (case t of [] \<Rightarrow> True
     | c # _ \<Rightarrow> \<not> is_digit c \<and> c \<noteq> CHR ''.'' \<and> c \<noteq> CHR ''e'' \<and> c \<noteq> CHR ''E'')"

subsection \<open>Reading what was printed\<close>

lemma le_foldr_max: "x \<in> set xs \<Longrightarrow> x \<le> foldr max xs (0::nat)"
  by (induction xs) auto

lemma scan_string_append: "scan_string st s = POk x r \<Longrightarrow> scan_string st (s @ t) = POk x (r @ t)"
  by (induction st s arbitrary: x rule: scan_string.induct)
    (auto simp: pmap_POk split: if_splits)

lemma wf_raw_scan: "wf_raw raw \<Longrightarrow> scan_string InString (raw @ CHR 0x22 # t) = POk raw t"
  unfolding wf_raw_def using scan_string_append [of InString "raw @ [CHR 0x22]" raw "[]" t] by simp

lemma num_step_end: "num_accepts st \<Longrightarrow> num_end (c # t) \<Longrightarrow> num_step st c = NEnd"
  by (cases st) (simp_all add: num_accepts_def num_end_def num_step_def)

lemma scan_number_append:
  "scan_number st s = POk x [] \<Longrightarrow> num_end t \<Longrightarrow> scan_number st (s @ t) = POk x t"
proof (induction st s arbitrary: x rule: scan_number.induct)
  case (1 st)
  then show ?case by (cases t) (auto simp: num_step_end split: if_splits)
next
  case (2 st c s)
  then show ?case by (auto simp: pmap_POk split: nstep.splits)
qed

lemma wf_num_scan:
  assumes "wf_num l" "num_end t"
  obtains c r where "l = c # r" "\<not> is_blank c" "c \<notin> set ''{[]''" "scan_scalar c (r @ t) = POk (JNum l) t"
proof -
  from assms(1) obtain c r where l: "l = c # r" "scan_scalar c r = POk (JNum l) []" "c \<noteq> CHR 0x22"
    by (auto simp: wf_num_def split: list.splits)
  from l have "c = CHR ''-'' \<or> is_digit c"
    by (auto simp: scan_scalar_def pmap_POk is_digit_def split: if_splits)
  then have c: "\<not> is_blank c" "c \<notin> set ''{[]''" by (auto simp: is_blank_def is_digit_def)
  have "scan_scalar c (r @ t) = POk (JNum l) t"
    using l scan_number_append [OF _ assms(2)] by (auto simp: scan_scalar_def pmap_POk split: if_splits)
  with l c that show thesis by blast
qed

lemma scan_literal_append: "scan_literal es (es @ t) = POk () t"
  by (induction es) auto

lemma skip_ws_nonblank: "\<not> is_blank c \<Longrightarrow> skip_ws (c # s) = c # s"
  by simp

lemma join_with_Cons: "xs \<noteq> [] \<Longrightarrow> join_with sep (x # xs) = x @ sep @ join_with sep xs"
  by (cases xs) auto

lemma print_json_hd:
  assumes "wf_json j"
  obtains c r where "print_json j = c # r" "\<not> is_blank c" "c \<noteq> CHR '']''"
proof (cases j)
  case (JNum l)
  with assms obtain c r where "l = c # r" "\<not> is_blank c" "c \<notin> set ''{[]''"
    by (auto simp: num_end_def elim!: wf_num_scan [where t = "[]"])
  with JNum that show ?thesis by auto
next
  case (JBool b)
  with that show ?thesis by (cases b) (auto simp: is_blank_def)
qed (use that in \<open>auto simp: is_blank_def\<close>)

lemma parse_elems_print:
  assumes "js \<noteq> []"
    and "\<And>j n t. j \<in> set js \<Longrightarrow> 2 * length (print_json j) < n \<Longrightarrow> num_end t \<Longrightarrow>
      parse_value n d (print_json j @ t) = POk j t"
    and "2 * length (join_with '','' (map print_json js)) + 1 < n"
  shows "parse_elems n d (join_with '','' (map print_json js) @ CHR '']'' # t) = POk js t"
  using assms
proof (induction js arbitrary: n)
  case (Cons j js)
  from Cons.prems(3) obtain m where m: "n = Suc m" by (cases n) auto
  have delim: "num_end (CHR '','' # u)" "num_end (CHR '']'' # u)" "\<not> is_blank (CHR '','')"
    "\<not> is_blank (CHR '']'')" for u
    by (simp_all add: num_end_def is_digit_def is_blank_def)
  show ?case
  proof (cases "js = []")
    case True
    with Cons.prems(2) [of j m "CHR '']'' # t"] Cons.prems(3) m delim show ?thesis by simp
  next
    case False
    let ?tail = "join_with '','' (map print_json js)"
    from False have eq: "join_with '','' (map print_json (j # js)) = print_json j @ CHR '','' # ?tail"
      by (simp add: join_with_Cons)
    from Cons.prems(3) m eq have "2 * length (print_json j) < m" "2 * length ?tail + 1 < m" by auto
    with Cons.prems(2) [of j m "CHR '','' # ?tail @ CHR '']'' # t"] Cons.IH [OF False, of m]
      Cons.prems(2) delim
    show ?thesis unfolding eq m by simp
  qed
qed simp

abbreviation print_member :: "bytes \<times> json \<Rightarrow> bytes" where
  "print_member \<equiv> \<lambda>(k, v). CHR 0x22 # k @ CHR 0x22 # CHR '':'' # print_json v"

lemma parse_members_print:
  assumes "ms \<noteq> []"
    and "\<And>k v n t. (k, v) \<in> set ms \<Longrightarrow> 2 * length (print_json v) < n \<Longrightarrow> num_end t \<Longrightarrow>
      parse_value n d (print_json v @ t) = POk v t"
    and "\<And>k v. (k, v) \<in> set ms \<Longrightarrow> wf_raw k"
    and "2 * length (join_with '','' (map print_member ms)) < n"
    and "join_with '','' (map print_member ms) = CHR 0x22 # s"
  shows "parse_members n d (s @ CHR ''}'' # t) = POk ms t"
  using assms
proof (induction ms arbitrary: n s)
  case (Cons m ms)
  obtain k v where kv: "m = (k, v)" by (cases m)
  from Cons.prems(4) obtain n' where n': "n = Suc n'" by (cases n) auto
  have delim: "num_end (CHR '','' # u)" "num_end (CHR ''}'' # u)" "\<not> is_blank (CHR '','')"
    "\<not> is_blank (CHR ''}'')" "\<not> is_blank (CHR '':'')" "\<not> is_blank (CHR 0x22)" for u
    by (simp_all add: num_end_def is_digit_def is_blank_def)
  have wk: "wf_raw k" using Cons.prems(3) kv by auto
  show ?case
  proof (cases "ms = []")
    case True
    with Cons.prems(5) kv have s: "s = k @ CHR 0x22 # CHR '':'' # print_json v" by simp
    with Cons.prems(2) [of k v n' "CHR ''}'' # t"] Cons.prems(4) kv n' wf_raw_scan [OF wk] delim True
    show ?thesis by simp
  next
    case False
    let ?tail = "join_with '','' (map print_member ms)"
    obtain s' where s': "?tail = CHR 0x22 # s'"
      using False by (cases ms; cases "tl ms") (auto split: prod.splits)
    from Cons.prems(5) kv False have s: "s = k @ CHR 0x22 # CHR '':'' # print_json v @ CHR '','' # ?tail"
      by (simp add: join_with_Cons)
    from Cons.prems(4) kv False n' have len: "2 * length (print_json v) < n'" "2 * length ?tail < n'"
      by (auto simp: join_with_Cons)
    have "parse_members n' d (s' @ CHR ''}'' # t) = POk ms t"
      by (rule Cons.IH [OF False _ _ len(2) s']) (use Cons.prems(2,3) in \<open>meson list.set_intros(2)\<close>)+
    with Cons.prems(2) [of k v n' "CHR '','' # CHR 0x22 # s' @ CHR ''}'' # t"] kv len(1) delim s s' n'
      wf_raw_scan [OF wk]
    show ?thesis by simp
  qed
qed simp

theorem parse_print_json:
  "wf_json j \<Longrightarrow> json_depth j + d \<le> max_nesting \<Longrightarrow> 2 * length (print_json j) < n \<Longrightarrow> num_end t \<Longrightarrow>
     parse_value n d (print_json j @ t) = POk j t"
proof (induction j arbitrary: d n t)
  case (JArr js)
  from JArr.prems obtain m where m: "n = Suc m" by (cases n) auto
  from JArr.prems(2) have d: "\<not> max_nesting \<le> d" by simp
  show ?case
  proof (cases "js = []")
    case True
    with m d show ?thesis by (simp add: is_blank_def)
  next
    case False
    have "parse_elems m (Suc d) (join_with '','' (map print_json js) @ CHR '']'' # t) = POk js t"
    proof (rule parse_elems_print [OF False])
      fix j n' t' assume j: "j \<in> set js" "2 * length (print_json j) < n'" "num_end t'"
      from j(1) have "json_depth j \<le> foldr max (map json_depth js) 0" by (intro le_foldr_max) auto
      with JArr.prems(1,2) j show "parse_value n' (Suc d) (print_json j @ t') = POk j t'"
        by (intro JArr.IH) auto
    qed (use JArr.prems m in simp)
    moreover obtain j js' where js: "js = j # js'" using False by (cases js) auto
    obtain c r where c: "print_json j = c # r" "\<not> is_blank c" "c \<noteq> CHR '']''"
      using JArr.prems(1) js print_json_hd [of j] by auto
    have "\<exists>q. join_with '','' (map print_json js) = c # q"
      using js c by (cases js') auto
    ultimately show ?thesis using c m d by (auto simp: is_blank_def)
  qed
next
  case (JObj ms)
  from JObj.prems obtain m where m: "n = Suc m" by (cases n) auto
  from JObj.prems(2) have d: "\<not> max_nesting \<le> d" by simp
  show ?case
  proof (cases "ms = []")
    case True
    with m d show ?thesis by (simp add: is_blank_def)
  next
    case False
    obtain s where s: "join_with '','' (map print_member ms) = CHR 0x22 # s"
      using False by (cases ms; cases "tl ms") (auto split: prod.splits)
    have "parse_members m (Suc d) (s @ CHR ''}'' # t) = POk ms t"
    proof (rule parse_members_print [OF False _ _ _ s])
      fix k v n' t' assume kv: "(k, v) \<in> set ms" "2 * length (print_json v) < n'" "num_end t'"
      from kv(1) have "json_depth v \<le> foldr max (map (\<lambda>(k, v). json_depth v) ms) 0"
        by (intro le_foldr_max) force
      with JObj.prems(1,2) kv show "parse_value n' (Suc d) (print_json v @ t') = POk v t'"
        by (intro JObj.IH [of "(k, v)"]) auto
    qed (use JObj.prems m in auto)
    with s m d show ?thesis by (simp add: is_blank_def)
  qed
next
  case (JNum l)
  from JNum.prems obtain m where m: "n = Suc m" by (cases n) auto
  from JNum.prems obtain c r where "l = c # r" "\<not> is_blank c" "c \<notin> set ''{[]''"
      "scan_scalar c (r @ t) = POk (JNum l) t"
    by (auto elim: wf_num_scan)
  with m show ?case by simp
next
  case (JStr raw)
  from JStr.prems obtain m where m: "n = Suc m" by (cases n) auto
  with JStr wf_raw_scan [of raw t] show ?case by (simp add: is_blank_def scan_scalar_def)
next
  case JNull
  from JNull.prems obtain m where m: "n = Suc m" by (cases n) auto
  with scan_literal_append [of "''ull''" t] show ?case by (simp add: is_blank_def scan_scalar_def)
next
  case (JBool b)
  from JBool.prems obtain m where m: "n = Suc m" by (cases n) auto
  with scan_literal_append [of "''rue''" t] scan_literal_append [of "''alse''" t]
  show ?case by (simp add: is_blank_def scan_scalar_def)
qed

end
