(* ===== verification/Go_Decode.thy ===== *)
theory Go_Decode
  imports Go_Json
begin

section \<open>Between JSON values and Go values\<close>

text \<open>
  \<open>json.Unmarshal\<close>, the first value of a \<open>Decoder\<close> over \<open>http.MaxBytesReader\<close>, integers and
  floats read from number literals, and the decoding of objects into struct fields: keys are matched
  without regard to case, unknown keys are ignored, later duplicates win, \<open>null\<close> leaves a
  non-pointer field alone and clears a pointer or a slice.
\<close>

subsection \<open>Literals that print and scan\<close>

lemma pmap_pmap [simp]: "pmap f (pmap g p) = pmap (f \<circ> g) p"
  by (cases p) auto

lemma pmap_id [simp]: "pmap (\<lambda>x. x) p = p"
  by (cases p) auto

text \<open>Bytes that the string scanner takes as they are.\<close>

definition plain_byte :: "char \<Rightarrow> bool" where
  "plain_byte c \<longleftrightarrow> 0x20 \<le> byte c \<and> c \<noteq> CHR 0x22 \<and> c \<noteq> CHR 0x5C"

lemma append_fun [simp]: "(@) [] = (\<lambda>x. x)" "(@) (a # x) = (\<lambda>r. a # x @ r)"
  by (rule ext, simp)+

lemma scan_plain: "(\<And>c. c \<in> set x \<Longrightarrow> plain_byte c) \<Longrightarrow>
    scan_string InString (x @ t) = pmap (append x) (scan_string InString t)"
proof (induction x)
  case (Cons a x)
  then have "plain_byte a" "scan_string InString (x @ t) = pmap (append x) (scan_string InString t)"
    by auto
  then show ?case by (simp add: plain_byte_def comp_def)
qed simp

lemma is_hex_lower: "is_hex (CHR ''0'')" "is_hex (CHR ''2'')" "is_hex (CHR ''8'')" "is_hex (CHR ''9'')"
  "is_hex (CHR ''f'')" "is_hex (CHR ''d'')"
  by (simp_all add: is_hex_def)

lemma scan_u: "is_hex a \<Longrightarrow> is_hex b \<Longrightarrow> is_hex c \<Longrightarrow> is_hex d \<Longrightarrow>
    scan_string InString ([CHR 0x5C, CHR ''u'', a, b, c, d] @ t) =
    pmap (append [CHR 0x5C, CHR ''u'', a, b, c, d]) (scan_string InString t)"
  by (simp add: eval_nat_numeral comp_def)

lemma scan_short: "e \<in> set ''bfnrt'' \<or> e = CHR 0x5C \<or> e = CHR 0x22 \<Longrightarrow>
    scan_string InString ([CHR 0x5C, e] @ t) = pmap (append [CHR 0x5C, e]) (scan_string InString t)"
  by (auto simp: comp_def)

lemma scan_esc_ascii:
  assumes c: "byte c < 0x80"
  shows "scan_string InString (esc_ascii c @ t) = pmap (append (esc_ascii c)) (scan_string InString t)"
proof -
  consider "c = CHR 0x5C \<or> c = CHR 0x22" | "byte c = 8" | "byte c = 12" | "byte c = 10" | "byte c = 13"
    | "byte c = 9" | "esc_ascii c = [CHR 0x5C, CHR ''u'', CHR ''0'', CHR ''0'', hex_digit (byte c div 16), hex_digit (byte c mod 16)]"
    | "esc_ascii c = [c]" "plain_byte c"
  proof (cases "c = CHR 0x5C \<or> c = CHR 0x22 \<or> byte c = 8 \<or> byte c = 12 \<or> byte c = 10 \<or> byte c = 13 \<or> byte c = 9")
    case True
    with that(1-6) show ?thesis by blast
  next
    case False
    then have "esc_ascii c = [CHR 0x5C, CHR ''u'', CHR ''0'', CHR ''0'', hex_digit (byte c div 16), hex_digit (byte c mod 16)]
        \<or> (esc_ascii c = [c] \<and> plain_byte c)"
      by (simp add: esc_ascii_def plain_byte_def)
    with that(7,8) show ?thesis by blast
  qed
  then show ?thesis
  proof cases
    case 1
    then have "esc_ascii c = [CHR 0x5C, c]" by (auto simp: esc_ascii_def)
    with scan_short [of c t] 1 show ?thesis by auto
  next
    case 7
    have "is_hex (hex_digit (byte c div 16))" "is_hex (hex_digit (byte c mod 16))" using c by simp_all
    then show ?thesis unfolding 7 by (intro scan_u is_hex_lower)
  next
    case 8
    then show ?thesis using scan_plain [of "[c]" t] by simp
  qed (auto simp: esc_ascii_def comp_def)
qed

lemma scan_quote_body:
  "scan_string InString (quote_body s @ t) = pmap (append (quote_body s)) (scan_string InString t)"
proof (induction s arbitrary: t rule: quote_body.induct)
  case (1 s)
  show ?case
  proof (cases s)
    case Nil
    then show ?thesis by (simp add: quote_body.simps)
  next
    case (Cons c r)
    show ?thesis
    proof (cases "byte c < 0x80")
      case True
      then have q: "quote_body s = esc_ascii c @ quote_body r" using Cons by (subst quote_body.simps) simp
      show ?thesis unfolding q append_assoc scan_esc_ascii [OF True] using "1.IH"(1) [OF Cons True]
        by (simp add: comp_def)
    next
      case high: False
      show ?thesis
      proof (cases "rune_len s = 0")
        case True
        with Cons high have q: "quote_body s = esc_fffd @ quote_body r" by (subst quote_body.simps) simp
        have "scan_string InString (esc_fffd @ t') = pmap (append esc_fffd) (scan_string InString t')" for t'
          unfolding esc_fffd_def using scan_u [of "CHR ''f''" "CHR ''f''" "CHR ''f''" "CHR ''d''" t']
          by (simp add: is_hex_lower)
        then show ?thesis unfolding q append_assoc using "1.IH"(2) [OF Cons high True]
          by (simp add: comp_def)
      next
        case False
        let ?p = "take (rune_len s) s"
        let ?w = "if ?p = line_sep then CHR 0x5C # ''u2028'' else if ?p = par_sep then CHR 0x5C # ''u2029'' else ?p"
        have q: "quote_body s = ?w @ quote_body (drop (rune_len s) s)"
          using Cons high False by (subst quote_body.simps) (simp add: Let_def)
        have plain: "plain_byte c" if "c \<in> set ?p" for c
          using rune_len_bytes [OF that] by (auto simp: plain_byte_def)
        have "scan_string InString (?w @ t') = pmap (append ?w) (scan_string InString t')" for t'
          using scan_u [of "CHR ''2''" "CHR ''0''" "CHR ''2''" "CHR ''8''" t'] scan_plain [OF plain]
            scan_u [of "CHR ''2''" "CHR ''0''" "CHR ''2''" "CHR ''9''" t']
          by (simp add: is_hex_lower)
        then show ?thesis unfolding q append_assoc using "1.IH"(3) [OF Cons high False refl]
          by (simp add: comp_def)
      qed
    qed
  qed
qed

lemma wf_raw_quote [simp]: "wf_raw (quote_body s)"
  unfolding wf_raw_def by (simp add: scan_quote_body)

lemma wf_raw_plain: "(\<And>c. c \<in> set s \<Longrightarrow> plain_byte c) \<Longrightarrow> wf_raw s"
  unfolding wf_raw_def by (simp add: scan_plain)

lemma scan_digits: "(\<And>c. c \<in> set ds \<Longrightarrow> is_digit c) \<Longrightarrow> scan_number NInt ds = POk ds []"
  by (induction ds) (auto simp: num_accepts_def num_step_def)

lemma scan_dec_nat:
  obtains c r where "dec_nat n = c # r" "is_digit c"
    "scan_number (if c = CHR ''0'' then NZero else NInt) r = POk r []"
proof -
  obtain c r where cr: "dec_nat n = c # r" by (cases "dec_nat n") auto
  have digs: "\<And>x. x \<in> set (c # r) \<Longrightarrow> is_digit x" using dec_nat_digits [of _ n] cr by auto
  have "scan_number (if c = CHR ''0'' then NZero else NInt) r = POk r []"
  proof (cases "c = CHR ''0''")
    case True
    with hd_dec_nat_zero [of n] cr have "n = 0" by simp
    with cr have "r = []" by (simp add: dec_nat.simps)
    then show ?thesis by (simp add: num_accepts_def)
  next
    case False
    with digs show ?thesis by (simp add: scan_digits)
  qed
  with cr digs that show thesis by auto
qed

lemma wf_num_itoa [simp]: "wf_num (itoa i)"
proof -
  have neg: "scan_number NNeg (dec_nat n) = POk (dec_nat n) []" for n
  proof -
    obtain c r where cr: "dec_nat n = c # r" "is_digit c"
        "scan_number (if c = CHR ''0'' then NZero else NInt) r = POk r []" by (rule scan_dec_nat)
    then show ?thesis by (auto simp: num_step_def split: if_splits)
  qed
  have pos: "wf_num (dec_nat n)" for n
  proof -
    obtain c r where cr: "dec_nat n = c # r" "is_digit c"
        "scan_number (if c = CHR ''0'' then NZero else NInt) r = POk r []" by (rule scan_dec_nat)
    then show ?thesis by (auto simp: wf_num_def scan_scalar_def is_digit_def split: if_splits)
  qed
  show ?thesis using neg pos by (auto simp: itoa_def wf_num_def scan_scalar_def)
qed

subsection \<open>Integers\<close>

text \<open>\<open>strconv.ParseInt\<close> of a JSON number literal into a signed width of limit \<open>lim\<close> (\<open>2 ^ 63\<close>, \<open>2 ^ 31\<close>).\<close>

definition parse_int :: "int \<Rightarrow> string \<Rightarrow> int option" where
  "parse_int lim l =
     (let (neg, ds) = (case l of c # r \<Rightarrow> if c = CHR ''-'' then (True, r) else (False, l) | [] \<Rightarrow> (False, []));
          v = int (dec_val ds)
      in if ds \<noteq> [] \<and> list_all is_digit ds \<and> (if neg then v \<le> lim else v < lim)
         then Some (if neg then - v else v) else None)"

lemma parse_int_itoa:
  assumes "- lim \<le> i" "i < lim"
  shows "parse_int lim (itoa i) = Some i"
proof (cases "i < 0")
  case True
  with assms show ?thesis
    by (auto simp: itoa_def parse_int_def Let_def list_all_iff dest: dec_nat_digits)
next
  case False
  obtain c r where cr: "dec_nat (nat i) = c # r" by (cases "dec_nat (nat i)") auto
  have "is_digit c" using dec_nat_digits [of c "nat i"] cr by simp
  then have "c \<noteq> CHR ''-''" by (auto simp: is_digit_def)
  then have "parse_int lim (itoa i) = (let v = int (dec_val (dec_nat (nat i))) in
      if dec_nat (nat i) \<noteq> [] \<and> list_all is_digit (dec_nat (nat i)) \<and> v < lim then Some v else None)"
    using False by (simp add: itoa_def parse_int_def cr Let_def)
  with False assms show ?thesis by (auto simp: list_all_iff dest: dec_nat_digits)
qed

lemma parse_int_range: "parse_int lim l = Some i \<Longrightarrow> - lim \<le> i \<and> i < max lim 1"
  by (auto simp: parse_int_def Let_def split: if_splits list.splits prod.splits)

subsection \<open>Floats\<close>

text \<open>A finite IEEE double: sign, mantissa and binary exponent of its value.\<close>

record float64 =
  f_neg :: bool
  f_mant :: nat
  f_exp :: int

fun bit_len :: "nat \<Rightarrow> nat" where
  "bit_len n = (if n = 0 then 0 else Suc (bit_len (n div 2)))"

declare bit_len.simps [simp del]

definition round_half_even :: "nat \<Rightarrow> nat \<Rightarrow> nat" where
  "round_half_even a b =
     (let q = a div b; r = a mod b
      in if 2 * r < b then q else if b < 2 * r then q + 1 else if even q then q else q + 1)"

definition scale2 :: "nat \<Rightarrow> nat \<Rightarrow> int \<Rightarrow> nat \<times> nat" where
  "scale2 a b e = (if 0 \<le> e then (a, b * 2 ^ nat e) else (a * 2 ^ nat (- e), b))"

text \<open>The double nearest to \<open>a / b\<close>, ties to even; \<open>None\<close> when it overflows.\<close>

definition round_f64 :: "bool \<Rightarrow> nat \<Rightarrow> nat \<Rightarrow> float64 option" where
  "round_f64 neg a b =
     (if a = 0 then Some \<lparr>f_neg = neg, f_mant = 0, f_exp = 0\<rparr>
      else
        (let e0 = int (bit_len a) - int (bit_len b) - 53;
             (a0, b0) = scale2 a b e0;
             e1 = max (- 1074) (if a0 div b0 < 2 ^ 53 then e0 else e0 + 1);
             (a1, b1) = scale2 a b e1;
             m1 = round_half_even a1 b1;
             (m, e) = (if m1 = 2 ^ 53 then (2 ^ 52, e1 + 1) else (m1, e1))
         in if 971 < e then None else Some \<lparr>f_neg = neg, f_mant = m, f_exp = e\<rparr>))"

definition parse_float :: "string \<Rightarrow> float64 option" where
  "parse_float l =
     (let (neg, s) = (case l of c # r \<Rightarrow> if c = CHR ''-'' then (True, r) else (False, l) | [] \<Rightarrow> (False, []));
          is_e = (\<lambda>c. c = CHR ''e'' \<or> c = CHR ''E'');
          m = takeWhile (\<lambda>c. \<not> is_e c) s;
          x = drop 1 (dropWhile (\<lambda>c. \<not> is_e c) s);
          ip = takeWhile (\<lambda>c. c \<noteq> CHR ''.'') m;
          fp = drop 1 (dropWhile (\<lambda>c. c \<noteq> CHR ''.'') m);
          ex = (case x of [] \<Rightarrow> 0
                | c # r \<Rightarrow> if c = CHR ''-'' then - int (dec_val r)
                           else if c = CHR ''+'' then int (dec_val r) else int (dec_val x));
          e = ex - int (length fp);
          n = dec_val (ip @ fp)
      in if 0 \<le> e then round_f64 neg (n * 10 ^ nat e) 1 else round_f64 neg n (10 ^ nat (- e)))"

text \<open>\<open>x < 0\<close>: negative zero is not.\<close>

definition f64_negative :: "float64 \<Rightarrow> bool" where
  "f64_negative x \<longleftrightarrow> f_neg x \<and> f_mant x \<noteq> 0"

subsection \<open>Field decoders\<close>

text \<open>Each takes the field's present value, which \<open>null\<close> leaves as it is.\<close>

fun dec_string :: "bytes \<Rightarrow> json \<Rightarrow> bytes option" where
  "dec_string old (JStr raw) = Some (unquote raw)"
| "dec_string old JNull = Some old"
| "dec_string old _ = None"

fun dec_int :: "int \<Rightarrow> int \<Rightarrow> json \<Rightarrow> int option" where
  "dec_int lim old (JNum l) = parse_int lim l"
| "dec_int lim old JNull = Some old"
| "dec_int lim old _ = None"

fun dec_bool :: "bool \<Rightarrow> json \<Rightarrow> bool option" where
  "dec_bool old (JBool b) = Some b"
| "dec_bool old JNull = Some old"
| "dec_bool old _ = None"

fun dec_float :: "float64 \<Rightarrow> json \<Rightarrow> float64 option" where
  "dec_float old (JNum l) = parse_float l"
| "dec_float old JNull = Some old"
| "dec_float old _ = None"

text \<open>\<open>Time.UnmarshalJSON\<close> reads the literal between the quotes, escapes and all.\<close>

fun dec_time :: "gtime \<Rightarrow> json \<Rightarrow> gtime option" where
  "dec_time old (JStr raw) = parse_time raw"
| "dec_time old JNull = Some old"
| "dec_time old _ = None"

text \<open>
  Pointers and slices, \<open>None\<close> when nil: \<open>null\<close> clears them. A slice is decoded from its start, each
  element into the one in its place, if a repeated key finds one there, and into a zero one past its end.
\<close>

definition dec_ptr :: "('a \<Rightarrow> json \<Rightarrow> 'a option) \<Rightarrow> 'a \<Rightarrow> 'a option \<Rightarrow> json \<Rightarrow> 'a option option" where
  "dec_ptr dec zero old j =
     (case j of JNull \<Rightarrow> Some None
      | _ \<Rightarrow> map_option Some (dec (case old of None \<Rightarrow> zero | Some x \<Rightarrow> x) j))"

fun dec_elems :: "('a \<Rightarrow> json \<Rightarrow> 'a option) \<Rightarrow> 'a \<Rightarrow> 'a list \<Rightarrow> json list \<Rightarrow> 'a list option" where
  "dec_elems dec zero old [] = Some []"
| "dec_elems dec zero old (j # js) =
     (case dec (case old of [] \<Rightarrow> zero | x # _ \<Rightarrow> x) j of
        None \<Rightarrow> None
      | Some v \<Rightarrow> map_option (Cons v) (dec_elems dec zero (tl old) js))"

definition dec_slice :: "('a \<Rightarrow> json \<Rightarrow> 'a option) \<Rightarrow> 'a \<Rightarrow> 'a list option \<Rightarrow> json \<Rightarrow> 'a list option option" where
  "dec_slice dec zero old j =
     (case j of JNull \<Rightarrow> Some None
      | JArr js \<Rightarrow> map_option Some (dec_elems dec zero (case old of None \<Rightarrow> [] | Some xs \<Rightarrow> xs) js)
      | _ \<Rightarrow> None)"

text \<open>
  Key matching: ASCII letters without case, and the two other characters that fold to ASCII letters
  (U+017F to S, U+212A to K).
\<close>

definition upper :: "char \<Rightarrow> char" where
  "upper c = (if 97 \<le> byte c \<and> byte c \<le> 122 then chr (byte c - 32) else c)"

function fold_name :: "bytes \<Rightarrow> bytes" where
  "fold_name s =
     (case s of [] \<Rightarrow> []
      | c # r \<Rightarrow>
          if take 2 s = [CHR 0xC5, CHR 0xBF] then CHR ''S'' # fold_name (drop 2 s)
          else if take 3 s = [CHR 0xE2, CHR 0x84, CHR 0xAA] then CHR ''K'' # fold_name (drop 3 s)
          else upper c # fold_name r)"
  by pat_completeness auto
termination
  by (relation "measure length") auto

declare fold_name.simps [simp del]

type_synonym 'r fields = "(string \<times> ('r \<Rightarrow> json \<Rightarrow> 'r option)) list"

definition field_for :: "'r fields \<Rightarrow> bytes \<Rightarrow> ('r \<Rightarrow> json \<Rightarrow> 'r option) option" where
  "field_for fs key = map_of (map (\<lambda>(n, f). (fold_name n, f)) fs) (fold_name key)"

fun decode_members :: "'r fields \<Rightarrow> 'r \<Rightarrow> (bytes \<times> json) list \<Rightarrow> 'r option" where
  "decode_members fs r [] = Some r"
| "decode_members fs r ((k, v) # ms) =
     (case field_for fs (unquote k) of
        None \<Rightarrow> decode_members fs r ms
      | Some f \<Rightarrow> (case f r v of None \<Rightarrow> None | Some r' \<Rightarrow> decode_members fs r' ms))"

fun decode_struct :: "'r fields \<Rightarrow> 'r \<Rightarrow> json \<Rightarrow> 'r option" where
  "decode_struct fs r (JObj ms) = decode_members fs r ms"
| "decode_struct fs r JNull = Some r"
| "decode_struct fs r _ = None"

text \<open>What every field decoder keeps, the whole object keeps.\<close>

lemma decode_members_keeps:
  assumes "decode_members fs r ms = Some r'" "P r"
    and "\<And>k f r v r'. (k, f) \<in> set fs \<Longrightarrow> P r \<Longrightarrow> f r v = Some r' \<Longrightarrow> P r'"
  shows "P r'"
  using assms
proof (induction fs r ms rule: decode_members.induct)
  case (2 fs r k v ms)
  show ?case
  proof (cases "field_for fs (unquote k)")
    case None
    with "2.prems" "2.IH"(1) show ?thesis by simp
  next
    case (Some f)
    then obtain n where n: "(n, f) \<in> set fs" by (auto simp: field_for_def dest!: map_of_SomeD)
    from "2.prems"(1) Some obtain r1 where r1: "f r v = Some r1" "decode_members fs r1 ms = Some r'"
      by (auto split: option.splits)
    show ?thesis
      by (rule "2.IH"(2) [OF Some r1 "2.prems"(3) [OF n "2.prems"(2) r1(1)] "2.prems"(3)])
  qed
qed simp

lemma decode_struct_keeps:
  assumes "decode_struct fs r j = Some r'" "P r"
    and "\<And>k f r v r'. (k, f) \<in> set fs \<Longrightarrow> P r \<Longrightarrow> f r v = Some r' \<Longrightarrow> P r'"
  shows "P r'"
  using assms decode_members_keeps [of fs r _ r' P] by (cases "(fs, r, j)" rule: decode_struct.cases) auto

lemma dec_elems_keeps:
  assumes "dec_elems dec zero old js = Some vs" "P zero" "list_all P old"
    and keeps: "\<And>x j v. P x \<Longrightarrow> dec x j = Some v \<Longrightarrow> P v"
  shows "list_all P vs"
  using assms(1,3)
proof (induction js arbitrary: old vs)
  case (Cons j js)
  let ?x = "case old of [] \<Rightarrow> zero | x # _ \<Rightarrow> x"
  from Cons.prems(1) obtain v ws where v: "dec ?x j = Some v"
      "dec_elems dec zero (tl old) js = Some ws" "vs = v # ws"
    by (auto split: option.splits)
  have "P ?x" "list_all P (tl old)" using Cons.prems(2) assms(2) by (cases old; simp)+
  with keeps [OF _ v(1)] Cons.IH [OF v(2)] v(3) show ?case by simp
qed simp

text \<open>Names of lower-case letters and underscores: matched as they are, printed as they are.\<close>

definition lower_char :: "char \<Rightarrow> bool" where
  "lower_char c \<longleftrightarrow> byte c = 95 \<or> (97 \<le> byte c \<and> byte c \<le> 122)"

definition lower_name :: "string \<Rightarrow> bool" where
  "lower_name s \<longleftrightarrow> list_all lower_char s"

lemma lower_char_not: "lower_char c \<Longrightarrow> byte d < 95 \<or> 122 < byte d \<Longrightarrow> c \<noteq> d"
  unfolding lower_char_def by (cases "c = d") auto

lemma fold_name_lower: "lower_name s \<Longrightarrow> fold_name s = map upper s"
proof (induction s)
  case (Cons c r)
  then have c: "lower_char c" and r: "fold_name r = map upper r" by (simp_all add: lower_name_def)
  have "c \<noteq> CHR 0xC5" "c \<noteq> CHR 0xE2" by (rule lower_char_not [OF c], simp)+
  then have "take 2 (c # r) \<noteq> [CHR 0xC5, CHR 0xBF]" "take 3 (c # r) \<noteq> [CHR 0xE2, CHR 0x84, CHR 0xAA]"
    by (simp_all add: numeral_2_eq_2 numeral_3_eq_3)
  with r show ?case by (subst fold_name.simps) (simp only: list.case if_False list.map)
qed (simp add: fold_name.simps)

lemma byte_upper: "lower_char c \<Longrightarrow> byte (upper c) = (if byte c = 95 then 95 else byte c - 32)"
  unfolding lower_char_def upper_def by (cases "byte c = 95") auto

lemma upper_inj: "lower_char c \<Longrightarrow> lower_char d \<Longrightarrow> upper c = upper d \<Longrightarrow> c = d"
proof -
  assume c: "lower_char c" and d: "lower_char d" and "upper c = upper d"
  then have "byte (upper c) = byte (upper d)" by simp
  moreover have "x = y" if "(if x = 95 then 95 else x - 32) = (if y = 95 then 95 else y - 32)"
      "x = 95 \<or> (97 \<le> x \<and> x \<le> 122)" "y = 95 \<or> (97 \<le> y \<and> y \<le> 122)" for x y :: nat
    using that by presburger
  ultimately have "byte c = byte d"
    using c d unfolding byte_upper [OF c] byte_upper [OF d] lower_char_def by blast
  then show "c = d" by (simp only: of_char_eq_iff)
qed

lemma fold_name_eq_iff:
  assumes "lower_name s" "lower_name t"
  shows "fold_name s = fold_name t \<longleftrightarrow> s = t"
proof -
  have "inj_on upper (set s \<union> set t)"
    using assms by (auto simp: lower_name_def list_all_iff intro!: inj_onI upper_inj)
  with assms show ?thesis by (simp add: fold_name_lower inj_on_map_eq_map)
qed

lemma field_for_lower:
  assumes "list_all (\<lambda>(n, f). lower_name n) fs" "lower_name key"
  shows "field_for fs key = map_of fs key"
  using assms by (induction fs) (auto simp: field_for_def fold_name_eq_iff)

lemma esc_ascii_lower: "lower_char c \<Longrightarrow> esc_ascii c = [c]"
proof -
  assume c: "lower_char c"
  have "c \<noteq> CHR 0x22" "c \<noteq> CHR ''<''" "c \<noteq> CHR ''>''" "c \<noteq> CHR ''&''" "c \<noteq> CHR 0x5C"
    by (rule lower_char_not [OF c], simp)+
  moreover have "32 \<le> byte c" using c unfolding lower_char_def by linarith
  ultimately show ?thesis by (simp add: esc_ascii_def)
qed

lemma lower_char_ascii: "lower_char c \<Longrightarrow> byte c < 0x80"
  unfolding lower_char_def by linarith

lemma quote_body_lower: "lower_name s \<Longrightarrow> quote_body s = s"
proof (induction s)
  case (Cons c r)
  then have "byte c < 0x80" "esc_ascii c = [c]" "quote_body r = r"
    by (simp_all add: lower_name_def lower_char_ascii esc_ascii_lower)
  then show ?case by (subst quote_body.simps) simp
qed (simp add: quote_body.simps)

lemma unquote_lower: "lower_name s \<Longrightarrow> unquote s = s"
proof -
  assume s: "lower_name s"
  then have "valid_utf8 s"
    by (intro valid_utf8_all_ascii) (auto simp: lower_name_def list_all_iff lower_char_ascii)
  with unquote_quote [of s] quote_body_lower [OF s] show ?thesis by simp
qed

lemma wf_raw_lower: "lower_name s \<Longrightarrow> wf_raw s"
  by (metis quote_body_lower wf_raw_quote)

subsection \<open>Unmarshal and Decoder\<close>

definition unmarshal_json :: "bytes \<Rightarrow> json option" where
  "unmarshal_json s =
     (case parse_json s of POk j r \<Rightarrow> if skip_ws r = [] then Some j else None | _ \<Rightarrow> None)"

text \<open>Values whose last byte ends them; the others end at the byte after, or at the end of input.\<close>

fun self_delimiting :: "json \<Rightarrow> bool" where
  "self_delimiting (JObj _) = True"
| "self_delimiting (JArr _) = True"
| "self_delimiting _ = False"

text \<open>
  The first value of the body read through \<open>http.MaxBytesReader\<close>: past the limit, reading is an error
  of its own kind. What follows the first value is not looked at.
\<close>

definition decoder_read :: "nat \<Rightarrow> bytes \<Rightarrow> json result" where
  "decoder_read limit body =
     (let data = take limit body; over = limit < length body
      in case parse_json data of
           POk j r \<Rightarrow> if over \<and> r = [] \<and> \<not> self_delimiting j then Inl ErrMaxBytes else Inr j
         | PErr \<Rightarrow> Inl (ErrNew ''invalid character'')
         | PMore \<Rightarrow> if over then Inl ErrMaxBytes else Inl (ErrNew ''unexpected EOF'')
         | PFuel \<Rightarrow> Inl (ErrNew ''out of fuel''))"

lemma parse_json_print:
  assumes "wf_json j" "json_depth j \<le> max_nesting" "num_end t"
  shows "parse_json (print_json j @ t) = POk j t"
  unfolding parse_json_def json_fuel_def using assms by (intro parse_print_json) auto

lemma unmarshal_print:
  assumes "wf_json j" "json_depth j \<le> max_nesting"
  shows "unmarshal_json (print_json j) = Some j"
  using parse_json_print [OF assms, of "[]"] by (simp add: unmarshal_json_def num_end_def)

lemma decoder_read_print:
  assumes "wf_json j" "json_depth j \<le> max_nesting" "length (print_json j) \<le> limit"
  shows "decoder_read limit (print_json j) = Inr j"
  using parse_json_print [OF assms(1,2), of "[]"] assms(3) by (simp add: decoder_read_def num_end_def)

end
