(* ===== verification/Consume.thy ===== *)
theory Consume
  imports Go_Strings
begin

section \<open>The batch consumer (\<open>internal/consume/consume.go\<close>)\<close>

text \<open>
  \<open>consume.Batch\<close>: poll, decode, accumulate, flush, until the context is cancelled. The Kafka
  client is third-party code: it is the parameter \<open>kclient\<close> over an opaque state, and
  \<open>kafka_contract\<close> names what the loop relies on. The clock and the context are the parameter
  \<open>hostops\<close>: every reading may give anything. One iteration is \<open>batch_iter\<close>, the loop is
  \<open>batch_loop\<close> (\<open>None\<close> is "does not return"), and \<open>batch_reach\<close> are the loop heads it passes
  through. The locale \<open>batch_sink\<close> is the contract the loop has with the \<open>flush\<close> its callers
  give it; the archiver and the history writer interpret it with their own \<open>flush\<close>.
\<close>

subsection \<open>The Kafka client, the host and the world\<close>

record krecord =
  kr_topic :: string
  kr_partition :: int
  kr_offset :: int
  kr_key :: bytes
  kr_value :: bytes

record fetches =
  f_records :: "krecord list"
  f_err :: "gerror option"

text \<open>\<open>k_poll deadline max\<close> is \<open>PollRecords\<close>, \<open>k_commit\<close> is \<open>CommitUncommittedOffsets\<close>.\<close>

record 'k kclient =
  k_poll :: "int \<Rightarrow> int \<Rightarrow> 'k \<Rightarrow> fetches \<times> 'k"
  k_commit :: "'k \<Rightarrow> gerror option \<times> 'k"

text \<open>\<open>time.Now\<close> in nanoseconds, and \<open>ctx.Err()\<close>.\<close>

record 'e hostops =
  h_now :: "'e \<Rightarrow> int \<times> 'e"
  h_ctx_err :: "'e \<Rightarrow> gerror option \<times> 'e"

text \<open>What a service holds: its Kafka client, the host, and the storage its flush writes to.\<close>

record ('k, 'e, 's) world =
  kafka :: 'k
  host :: 'e
  sink :: 's

type_synonym ('a, 'k, 'e, 's) flush_fn =
  "'a list \<Rightarrow> ('k, 'e, 's) world \<Rightarrow> gerror option \<times> ('k, 'e, 's) world"

text \<open>
  The client's documented behaviour. \<open>polled\<close> are the records handed out in this session and
  \<open>committed\<close> those of them whose offsets the group has committed, both in order. A poll hands out
  at most \<open>max\<close> records and commits nothing (automatic commits are disabled); a successful commit
  covers every record polled so far; a failed one may or may not have reached the broker.
\<close>

definition kafka_contract ::
  "'k kclient \<Rightarrow> ('k \<Rightarrow> krecord list) \<Rightarrow> ('k \<Rightarrow> krecord list) \<Rightarrow> bool" where
  "kafka_contract cl polled committed \<longleftrightarrow>
     (\<forall>dl mx k. polled (snd (k_poll cl dl mx k)) = polled k @ f_records (fst (k_poll cl dl mx k))
        \<and> committed (snd (k_poll cl dl mx k)) = committed k
        \<and> (0 < mx \<longrightarrow> int (length (f_records (fst (k_poll cl dl mx k)))) \<le> mx)) \<and>
     (\<forall>k. polled (snd (k_commit cl k)) = polled k
        \<and> (fst (k_commit cl k) = None \<longrightarrow> committed (snd (k_commit cl k)) = polled k)
        \<and> (committed (snd (k_commit cl k)) = committed k
            \<or> committed (snd (k_commit cl k)) = polled k))"

lemma kafka_contract_poll:
  assumes "kafka_contract cl polled committed" and "k_poll cl dl mx k = (fs, k')"
  shows "polled k' = polled k @ f_records fs" "committed k' = committed k"
    "0 < mx \<Longrightarrow> int (length (f_records fs)) \<le> mx"
  using assms unfolding kafka_contract_def by (metis fst_conv snd_conv)+

lemma kafka_contract_commit:
  assumes "kafka_contract cl polled committed" and "k_commit cl k = (r, k')"
  shows "polled k' = polled k" "r = None \<Longrightarrow> committed k' = polled k"
    "committed k' = committed k \<or> committed k' = polled k"
  using assms unfolding kafka_contract_def by (metis fst_conv snd_conv)+

text \<open>
  A small broker that keeps the contract: the records still to hand out, those handed out, those
  committed. The host's clock stands still and its context is cancelled after a number of readings.
\<close>

definition sample_kafka :: "(krecord list \<times> krecord list \<times> krecord list) kclient" where
  "sample_kafka =
     \<lparr>k_poll = (\<lambda>dl mx (q, p, c).
         let b = take (if 0 < mx then nat mx else length q) q
         in (\<lparr>f_records = b, f_err = None\<rparr>, (drop (length b) q, p @ b, c))),
      k_commit = (\<lambda>(q, p, c). (None, (q, p, p)))\<rparr>"

definition sample_host :: "nat hostops" where
  "sample_host =
     \<lparr>h_now = (\<lambda>n. (0, n)), h_ctx_err = (\<lambda>n. (if n = 0 then Some ErrCanceled else None, n - 1))\<rparr>"

abbreviation sample_polled :: "krecord list \<times> krecord list \<times> krecord list \<Rightarrow> krecord list" where
  "sample_polled k \<equiv> fst (snd k)"

abbreviation sample_committed :: "krecord list \<times> krecord list \<times> krecord list \<Rightarrow> krecord list" where
  "sample_committed k \<equiv> snd (snd k)"

lemma sample_kafka_simps:
  "k_poll sample_kafka dl mx (q, p, c) =
     (let b = take (if 0 < mx then nat mx else length q) q
      in (\<lparr>f_records = b, f_err = None\<rparr>, (drop (length b) q, p @ b, c)))"
  "k_commit sample_kafka (q, p, c) = (None, (q, p, p))"
  "h_now sample_host n = (0, n)"
  "h_ctx_err sample_host n = (if n = 0 then Some ErrCanceled else None, n - 1)"
  by (simp_all add: sample_kafka_def sample_host_def)

lemma sample_kafka_contract [simp]: "kafka_contract sample_kafka sample_polled sample_committed"
  by (auto simp: kafka_contract_def sample_kafka_def Let_def)

definition sample_record :: "bytes \<Rightarrow> krecord" where
  "sample_record v = \<lparr>kr_topic = ''t'', kr_partition = 0, kr_offset = 0, kr_key = [], kr_value = v\<rparr>"

definition sample_decode :: "krecord \<Rightarrow> bytes result" where
  "sample_decode rec = (if kr_value rec = [] then Inl (ErrNew ''empty'') else Inr (kr_value rec))"

subsection \<open>The loop\<close>

text \<open>
  \<open>fetches.EachRecord\<close> with the closure of the loop: decode every record until the first failure,
  which names topic and offset and leaves the records after it undecoded.
\<close>

fun each_record ::
  "(krecord \<Rightarrow> 'a result) \<Rightarrow> krecord list \<Rightarrow> 'a list \<Rightarrow> gerror option \<times> 'a list" where
  "each_record decode [] pending = (None, pending)"
| "each_record decode (rec # recs) pending =
     (case decode rec of
        Inl err \<Rightarrow>
          (Some (ErrWrap (''decode '' @ kr_topic rec @ ''/'' @ itoa (kr_offset rec)) err), pending)
      | Inr r \<Rightarrow> each_record decode recs (pending @ [r]))"

text \<open>The loop's variables.\<close>

record ('a, 'k, 'e, 's) bstate =
  pending :: "'a list"
  last_flush :: int
  b_world :: "('k, 'e, 's) world"

definition second :: int where
  "second = 1000000000"

text \<open>\<open>err := fetches.Err(); err != nil && !errors.Is(err, context.DeadlineExceeded)\<close>.\<close>

definition poll_error :: "fetches \<Rightarrow> gerror option" where
  "poll_error fs =
     (case f_err fs of
        None \<Rightarrow> None
      | Some err \<Rightarrow> if errors_is err ErrDeadlineExceeded then None else Some err)"

text \<open>
  \<open>len(pending) >= flushRecords || time.Since(lastFlush) >= flushAfter\<close>: the clock is read only
  when the first operand is false.
\<close>

definition flush_due ::
  "'e hostops \<Rightarrow> int \<Rightarrow> int \<Rightarrow> 'a list \<Rightarrow> int \<Rightarrow> ('k, 'e, 's) world \<Rightarrow> bool \<times> ('k, 'e, 's) world" where
  "flush_due ho flushRecords flushAfter pend lastFlush w =
     (if int (length pend) \<ge> flushRecords then (True, w)
      else (let (t, e) = h_now ho (host w) in (t - lastFlush \<ge> flushAfter, w\<lparr>host := e\<rparr>)))"

text \<open>One iteration: \<open>Inl\<close> returns, \<open>Inr\<close> goes round again.\<close>

definition batch_iter ::
  "'k kclient \<Rightarrow> 'e hostops \<Rightarrow> int \<Rightarrow> int \<Rightarrow> (krecord \<Rightarrow> 'a result) \<Rightarrow> ('a, 'k, 'e, 's) flush_fn \<Rightarrow>
   ('a, 'k, 'e, 's) bstate \<Rightarrow>
   (gerror option \<times> ('k, 'e, 's) world) + ('a, 'k, 'e, 's) bstate" where
  "batch_iter cl ho flushRecords flushSeconds decode flush st =
     (let flushAfter = flushSeconds * second;
          (fs, k) = k_poll cl (last_flush st + flushAfter)
                      (flushRecords - int (length (pending st))) (kafka (b_world st));
          w1 = (b_world st)\<lparr>kafka := k\<rparr>
      in case each_record decode (f_records fs) (pending st) of
           (Some decodeErr, _) \<Rightarrow> Inl (Some decodeErr, w1)
         | (None, pend) \<Rightarrow>
             (let (cerr, e) = h_ctx_err ho (host w1); w2 = w1\<lparr>host := e\<rparr> in
              if cerr \<noteq> None then Inl (flush pend w2)
              else (case poll_error fs of
                      Some err \<Rightarrow> Inl (Some (ErrWrap ''poll'' err), w2)
                    | None \<Rightarrow>
                        (case flush_due ho flushRecords flushAfter pend (last_flush st) w2 of
                           (False, w3) \<Rightarrow> Inr (st\<lparr>pending := pend, b_world := w3\<rparr>)
                         | (True, w3) \<Rightarrow>
                             (case flush pend w3 of
                                (Some err, w4) \<Rightarrow> Inl (Some err, w4)
                              | (None, w4) \<Rightarrow>
                                  (let (t, e') = h_now ho (host w4)
                                   in Inr \<lparr>pending = [], last_flush = t,
                                           b_world = w4\<lparr>host := e'\<rparr>\<rparr>))))))"

partial_function (option) batch_loop ::
  "'k kclient \<Rightarrow> 'e hostops \<Rightarrow> int \<Rightarrow> int \<Rightarrow> (krecord \<Rightarrow> 'a result) \<Rightarrow> ('a, 'k, 'e, 's) flush_fn \<Rightarrow>
   ('a, 'k, 'e, 's) bstate \<Rightarrow> (gerror option \<times> ('k, 'e, 's) world) option" where
  "batch_loop cl ho flushRecords flushSeconds decode flush st =
     (case batch_iter cl ho flushRecords flushSeconds decode flush st of
        Inl r \<Rightarrow> Some r
      | Inr st' \<Rightarrow> batch_loop cl ho flushRecords flushSeconds decode flush st')"

text \<open>The state at the first loop head, and \<open>Batch\<close> itself.\<close>

definition batch_start ::
  "'e hostops \<Rightarrow> ('k, 'e, 's) world \<Rightarrow> ('a, 'k, 'e, 's) bstate" where
  "batch_start ho w =
     (let (t, e) = h_now ho (host w)
      in \<lparr>pending = [], last_flush = t, b_world = w\<lparr>host := e\<rparr>\<rparr>)"

definition batch ::
  "'k kclient \<Rightarrow> 'e hostops \<Rightarrow> int \<Rightarrow> int \<Rightarrow> (krecord \<Rightarrow> 'a result) \<Rightarrow> ('a, 'k, 'e, 's) flush_fn \<Rightarrow>
   ('k, 'e, 's) world \<Rightarrow> (gerror option \<times> ('k, 'e, 's) world) option" where
  "batch cl ho flushRecords flushSeconds decode flush w =
     batch_loop cl ho flushRecords flushSeconds decode flush (batch_start ho w)"

text \<open>The loop heads a run passes through, whether or not it returns.\<close>

inductive batch_reach ::
  "'k kclient \<Rightarrow> 'e hostops \<Rightarrow> int \<Rightarrow> int \<Rightarrow> (krecord \<Rightarrow> 'a result) \<Rightarrow> ('a, 'k, 'e, 's) flush_fn \<Rightarrow>
   ('k, 'e, 's) world \<Rightarrow> ('a, 'k, 'e, 's) bstate \<Rightarrow> bool"
  for cl ho fr fsec decode flush w where
  reach_start: "batch_reach cl ho fr fsec decode flush w (batch_start ho w)"
| reach_iter: "batch_reach cl ho fr fsec decode flush w st \<Longrightarrow>
     batch_iter cl ho fr fsec decode flush st = Inr st' \<Longrightarrow>
     batch_reach cl ho fr fsec decode flush w st'"

subsection \<open>The decoding step\<close>

definition decoded :: "(krecord \<Rightarrow> 'a result) \<Rightarrow> krecord list \<Rightarrow> 'a list \<Rightarrow> bool" where
  "decoded decode recs rows \<longleftrightarrow> list_all2 (\<lambda>rec r. decode rec = Inr r) recs rows"

lemma decoded_Nil [simp]: "decoded decode [] rows \<longleftrightarrow> rows = []" "decoded decode recs [] \<longleftrightarrow> recs = []"
  by (auto simp: decoded_def)

lemma decoded_append:
  "decoded decode as xs \<Longrightarrow> decoded decode bs ys \<Longrightarrow> decoded decode (as @ bs) (xs @ ys)"
  by (simp add: decoded_def list_all2_appendI)

lemma decoded_mem:
  "decoded decode recs rows \<Longrightarrow> rec \<in> set recs \<Longrightarrow> \<exists>r \<in> set rows. decode rec = Inr r"
  unfolding decoded_def by (auto simp: list_all2_conv_all_nth in_set_conv_nth)

lemma each_record_ok:
  "each_record decode recs pend = (None, pend') \<Longrightarrow>
     \<exists>rows. pend' = pend @ rows \<and> decoded decode recs rows"
proof (induction decode recs pend rule: each_record.induct)
  case (2 decode rec recs pend)
  then obtain r where r: "decode rec = Inr r" by (cases "decode rec") auto
  with 2 obtain rows where "pend' = (pend @ [r]) @ rows" "decoded decode recs rows" by auto
  with r show ?case by (intro exI [of _ "r # rows"]) (simp add: decoded_def)
qed simp

lemma each_record_all:
  "decoded decode recs rows \<Longrightarrow> each_record decode recs pend = (None, pend @ rows)"
  unfolding decoded_def by (induction recs rows arbitrary: pend rule: list_all2_induct) auto

lemma each_record_fails:
  "decoded decode good rows \<Longrightarrow> decode bad = Inl err \<Longrightarrow>
     each_record decode (good @ bad # rest) pend =
       (Some (ErrWrap (''decode '' @ kr_topic bad @ ''/'' @ itoa (kr_offset bad)) err), pend @ rows)"
  unfolding decoded_def by (induction good rows arbitrary: pend rule: list_all2_induct) auto

subsection \<open>The outcomes of an iteration\<close>

lemma flush_due_world:
  "flush_due ho fr fa pend lf w = (b, w') \<Longrightarrow> kafka w' = kafka w \<and> sink w' = sink w"
  by (auto simp: flush_due_def Let_def split: if_splits prod.splits)

text \<open>An iteration that goes round again either kept accumulating or flushed everything pending.\<close>

lemma batch_iter_InrE:
  assumes "batch_iter cl ho fr fsec decode flush st = Inr st'"
  obtains (accumulate) fs k rows w where
      "k_poll cl (last_flush st + fsec * second) (fr - int (length (pending st))) (kafka (b_world st)) = (fs, k)"
      "decoded decode (f_records fs) rows"
      "kafka w = k" "sink w = sink (b_world st)"
      "flush_due ho fr (fsec * second) (pending st @ rows) (last_flush st)
         ((b_world st)\<lparr>kafka := k, host := snd (h_ctx_err ho (host (b_world st)))\<rparr>) = (False, w)"
      "st' = st\<lparr>pending := pending st @ rows, b_world := w\<rparr>"
  | (flushed) fs k rows w w4 where
      "k_poll cl (last_flush st + fsec * second) (fr - int (length (pending st))) (kafka (b_world st)) = (fs, k)"
      "decoded decode (f_records fs) rows"
      "kafka w = k" "sink w = sink (b_world st)"
      "flush (pending st @ rows) w = (None, w4)"
      "pending st' = []" "kafka (b_world st') = kafka w4" "sink (b_world st') = sink w4"
proof -
  obtain fs k where p: "k_poll cl (last_flush st + fsec * second) (fr - int (length (pending st)))
      (kafka (b_world st)) = (fs, k)" by (cases "k_poll cl (last_flush st + fsec * second)
      (fr - int (length (pending st))) (kafka (b_world st))")
  obtain de pend where d: "each_record decode (f_records fs) (pending st) = (de, pend)"
    by (cases "each_record decode (f_records fs) (pending st)")
  let ?w1 = "(b_world st)\<lparr>kafka := k\<rparr>"
  let ?w2 = "(b_world st)\<lparr>kafka := k, host := snd (h_ctx_err ho (host (b_world st)))\<rparr>"
  from assms p d have de: "de = None"
    by (cases de) (auto simp: batch_iter_def)
  with d obtain rows where rows: "pend = pending st @ rows" "decoded decode (f_records fs) rows"
    by (auto dest: each_record_ok)
  from assms p d de have c: "fst (h_ctx_err ho (host (b_world st))) = None" "poll_error fs = None"
    by (auto simp: batch_iter_def Let_def split: if_splits prod.splits option.splits)
  obtain b w3 where fd: "flush_due ho fr (fsec * second) pend (last_flush st) ?w2 = (b, w3)"
    by (cases "flush_due ho fr (fsec * second) pend (last_flush st) ?w2")
  have w3: "kafka w3 = k" "sink w3 = sink (b_world st)" using flush_due_world [OF fd] by auto
  show thesis
  proof (cases b)
    case False
    with assms p d de c fd have "st' = st\<lparr>pending := pend, b_world := w3\<rparr>"
      by (auto simp: batch_iter_def Let_def split: prod.splits)
    with accumulate p rows w3 fd False show thesis by auto
  next
    case True
    obtain r w4 where f: "flush pend w3 = (r, w4)" by (cases "flush pend w3")
    with True assms p d de c fd have r: "r = None"
      and st': "pending st' = []" "kafka (b_world st') = kafka w4" "sink (b_world st') = sink w4"
      by (auto simp: batch_iter_def Let_def split: prod.splits option.splits)
    with flushed [of fs k rows w3 w4] p rows w3 f show thesis by auto
  qed
qed

text \<open>The four ways out: a decode failure, cancellation, a poll failure, a failed flush.\<close>

lemma batch_iter_InlE:
  assumes "batch_iter cl ho fr fsec decode flush st = Inl (res, w')"
  obtains (decode_failed) fs k e where
      "k_poll cl (last_flush st + fsec * second) (fr - int (length (pending st))) (kafka (b_world st)) = (fs, k)"
      "res = Some e" "kafka w' = k" "sink w' = sink (b_world st)"
  | (cancelled) fs k rows w where
      "k_poll cl (last_flush st + fsec * second) (fr - int (length (pending st))) (kafka (b_world st)) = (fs, k)"
      "decoded decode (f_records fs) rows"
      "kafka w = k" "sink w = sink (b_world st)"
      "flush (pending st @ rows) w = (res, w')"
  | (poll_failed) fs k e where
      "k_poll cl (last_flush st + fsec * second) (fr - int (length (pending st))) (kafka (b_world st)) = (fs, k)"
      "res = Some e" "kafka w' = k" "sink w' = sink (b_world st)"
  | (flush_failed) fs k rows w e where
      "k_poll cl (last_flush st + fsec * second) (fr - int (length (pending st))) (kafka (b_world st)) = (fs, k)"
      "decoded decode (f_records fs) rows"
      "kafka w = k" "sink w = sink (b_world st)"
      "flush (pending st @ rows) w = (Some e, w')" "res = Some e"
proof -
  obtain fs k where p: "k_poll cl (last_flush st + fsec * second) (fr - int (length (pending st)))
      (kafka (b_world st)) = (fs, k)" by (cases "k_poll cl (last_flush st + fsec * second)
      (fr - int (length (pending st))) (kafka (b_world st))")
  obtain de pend where d: "each_record decode (f_records fs) (pending st) = (de, pend)"
    by (cases "each_record decode (f_records fs) (pending st)")
  let ?w2 = "(b_world st)\<lparr>kafka := k, host := snd (h_ctx_err ho (host (b_world st)))\<rparr>"
  show thesis
  proof (cases de)
    case (Some e)
    with assms p d have "res = Some e" "w' = (b_world st)\<lparr>kafka := k\<rparr>"
      by (auto simp: batch_iter_def)
    with decode_failed p show thesis by auto
  next
    case None
    with d obtain rows where rows: "pend = pending st @ rows" "decoded decode (f_records fs) rows"
      by (auto dest: each_record_ok)
    show thesis
    proof (cases "fst (h_ctx_err ho (host (b_world st))) = None")
      case False
      with assms p d None have "flush pend ?w2 = (res, w')"
        by (auto simp: batch_iter_def Let_def split: prod.splits)
      with cancelled [of fs k rows ?w2] p rows show thesis by auto
    next
      case ctx: True
      obtain b w3 where fd: "flush_due ho fr (fsec * second) pend (last_flush st) ?w2 = (b, w3)"
        by (cases "flush_due ho fr (fsec * second) pend (last_flush st) ?w2")
      have w3: "kafka w3 = k" "sink w3 = sink (b_world st)" using flush_due_world [OF fd] by auto
      show thesis
      proof (cases "poll_error fs")
        case (Some e)
        with assms p d None ctx have "res = Some (ErrWrap ''poll'' e)" "w' = ?w2"
          by (auto simp: batch_iter_def Let_def split: prod.splits)
        with poll_failed p show thesis by auto
      next
        case pe: None
        obtain r w4 where f: "flush pend w3 = (r, w4)" by (cases "flush pend w3")
        with assms p d None ctx pe fd have "r = res" "w4 = w'" "r \<noteq> None"
          by (auto simp: batch_iter_def Let_def split: prod.splits option.splits bool.splits)
        with flush_failed [of fs k rows w3] p rows w3 f show thesis by auto
      qed
    qed
  qed
qed

lemma batch_start_simps [simp]:
  "pending (batch_start ho w) = []"
  "kafka (b_world (batch_start ho w)) = kafka w"
  "sink (b_world (batch_start ho w)) = sink w"
  by (simp_all add: batch_start_def Let_def split: prod.splits)

text \<open>What \<open>Batch\<close> returns is what its last iteration returns, at a loop head it reached.\<close>

lemma batch_loop_reach:
  fixes cl :: "'k kclient" and ho :: "'e hostops" and decode :: "krecord \<Rightarrow> 'a result"
    and flush :: "('a, 'k, 'e, 's) flush_fn" and w :: "('k, 'e, 's) world"
  assumes "batch_loop cl ho fr fsec decode flush st = Some r"
    and "batch_reach cl ho fr fsec decode flush w st"
  shows "\<exists>st'. batch_reach cl ho fr fsec decode flush w st' \<and>
           batch_iter cl ho fr fsec decode flush st' = Inl r"
proof -
  have "batch_reach cl ho fr fsec decode flush w st \<longrightarrow>
      (\<exists>st'. batch_reach cl ho fr fsec decode flush w st' \<and>
           batch_iter cl ho fr fsec decode flush st' = Inl r)"
  proof (rule batch_loop.raw_induct [where P = "\<lambda>cl ho fr fsec decode flush st r.
      batch_reach cl ho fr fsec decode flush w st \<longrightarrow>
      (\<exists>st'. batch_reach cl ho fr fsec decode flush w st' \<and>
           batch_iter cl ho fr fsec decode flush st' = Inl r)", OF _ assms(1)])
    fix bl and cl :: "'k kclient" and ho :: "'e hostops" and fr fsec
      and decode :: "krecord \<Rightarrow> 'a result" and flush :: "('a, 'k, 'e, 's) flush_fn" and st r
    assume IH: "\<And>cl ho fr fsec decode flush st r. bl cl ho fr fsec decode flush st = Some r \<Longrightarrow>
        batch_reach cl ho fr fsec decode flush w st \<longrightarrow>
        (\<exists>st'. batch_reach cl ho fr fsec decode flush w st' \<and>
             batch_iter cl ho fr fsec decode flush st' = Inl r)"
      and eq: "(case batch_iter cl ho fr fsec decode flush st of Inl r \<Rightarrow> Some r
          | Inr st' \<Rightarrow> bl cl ho fr fsec decode flush st') = Some r"
    show "batch_reach cl ho fr fsec decode flush w st \<longrightarrow>
        (\<exists>st'. batch_reach cl ho fr fsec decode flush w st' \<and>
             batch_iter cl ho fr fsec decode flush st' = Inl r)"
    proof (cases "batch_iter cl ho fr fsec decode flush st")
      case (Inl a)
      with eq show ?thesis by auto
    next
      case (Inr st')
      with eq IH [of cl ho fr fsec decode flush st' r] show ?thesis
        by (auto intro: reach_iter)
    qed
  qed
  with assms(2) show ?thesis by blast
qed

lemma batch_returns_from:
  "batch cl ho fr fsec decode flush w = Some r \<Longrightarrow>
     \<exists>st. batch_reach cl ho fr fsec decode flush w st \<and> batch_iter cl ho fr fsec decode flush st = Inl r"
  unfolding batch_def by (rule batch_loop_reach [OF _ reach_start])

subsection \<open>Invariants of the storage\<close>

text \<open>Everything pending, and so everything flushed, was decoded from a record.\<close>

definition all_decoded :: "(krecord \<Rightarrow> 'a result) \<Rightarrow> 'a list \<Rightarrow> bool" where
  "all_decoded decode rows \<longleftrightarrow> (\<forall>r \<in> set rows. \<exists>rec. decode rec = Inr r)"

lemma decoded_all: "decoded decode recs rows \<Longrightarrow> all_decoded decode rows"
  unfolding decoded_def all_decoded_def by (meson list_all2_mem2)

lemma all_decoded_append [simp]: "all_decoded decode (xs @ ys) \<longleftrightarrow> all_decoded decode xs \<and> all_decoded decode ys"
  by (auto simp: all_decoded_def)

lemma reach_pending: "batch_reach cl ho fr fsec decode flush w st \<Longrightarrow> all_decoded decode (pending st)"
proof (induction rule: batch_reach.induct)
  case (reach_iter st st')
  from reach_iter.hyps(2) show ?case
    by (cases rule: batch_iter_InrE) (use reach_iter.IH decoded_all in \<open>auto simp: all_decoded_def [of _ "[]"]\<close>)
qed (simp add: all_decoded_def)

lemma iter_sink:
  assumes "batch_iter cl ho fr fsec decode flush st = out" "all_decoded decode (pending st)"
    and step: "\<And>rows w res w'. all_decoded decode rows \<Longrightarrow> flush rows w = (res, w') \<Longrightarrow> P (sink w) \<Longrightarrow> P (sink w')"
    and "P (sink (b_world st))"
  shows "case out of Inl (res, w') \<Rightarrow> P (sink w') | Inr st' \<Rightarrow> P (sink (b_world st'))"
proof (cases out)
  case (Inr st')
  with assms(1) have "batch_iter cl ho fr fsec decode flush st = Inr st'" by simp
  then have "P (sink (b_world st'))"
  proof (cases rule: batch_iter_InrE)
    case (flushed fs k rows w w4)
    with step [OF _ flushed(5)] assms(2,4) decoded_all [OF flushed(2)] show ?thesis by simp
  qed (use assms(4) in simp)
  with Inr show ?thesis by simp
next
  case (Inl a)
  then obtain res w' where out: "out = Inl (res, w')" by (cases a) auto
  with assms(1) have "batch_iter cl ho fr fsec decode flush st = Inl (res, w')" by simp
  then have "P (sink w')"
  proof (cases rule: batch_iter_InlE)
    case (cancelled fs k rows w)
    with step [OF _ cancelled(5)] assms(2,4) decoded_all [OF cancelled(2)] show ?thesis by simp
  next
    case (flush_failed fs k rows w e)
    with step [OF _ flush_failed(5)] assms(2,4) decoded_all [OF flush_failed(2)] show ?thesis by simp
  qed (use assms(4) in simp_all)
  with out show ?thesis by simp
qed

lemma reach_sink:
  assumes "batch_reach cl ho fr fsec decode flush w0 st"
    and step: "\<And>rows w res w'. all_decoded decode rows \<Longrightarrow> flush rows w = (res, w') \<Longrightarrow> P (sink w) \<Longrightarrow> P (sink w')"
    and "P (sink w0)"
  shows "P (sink (b_world st))"
  using assms(1)
proof (induction rule: batch_reach.induct)
  case (reach_iter st st')
  from iter_sink [where P = P, OF reach_iter.hyps(2) reach_pending [OF reach_iter.hyps(1)] step reach_iter.IH] show ?case by simp
qed (simp add: assms(3))

lemma batch_sink_invariant:
  assumes "batch cl ho fr fsec decode flush w0 = Some (res, w')"
    and step: "\<And>rows w res w'. all_decoded decode rows \<Longrightarrow> flush rows w = (res, w') \<Longrightarrow> P (sink w) \<Longrightarrow> P (sink w')"
    and "P (sink w0)"
  shows "P (sink w')"
proof -
  obtain st where st: "batch_reach cl ho fr fsec decode flush w0 st"
      "batch_iter cl ho fr fsec decode flush st = Inl (res, w')" using batch_returns_from [OF assms(1)] by blast
  from iter_sink [where P = P, OF st(2) reach_pending [OF st(1)] step reach_sink [where P = P, OF st(1) step assms(3)]] show ?thesis by simp
qed

text \<open>What no poll, no reading of the host and no flush changes, a whole run does not change.\<close>

definition undisturbed ::
  "'k kclient \<Rightarrow> ('a, 'k, 'e, 's) flush_fn \<Rightarrow> (('k, 'e, 's) world \<Rightarrow> 'x) \<Rightarrow> bool" where
  "undisturbed cl flush f \<longleftrightarrow>
     (\<forall>w d m. f (w\<lparr>kafka := snd (k_poll cl d m (kafka w))\<rparr>) = f w) \<and>
     (\<forall>w e. f (w\<lparr>host := e\<rparr>) = f w) \<and> (\<forall>rows w. f (snd (flush rows w)) = f w)"

lemma undisturbed_rules:
  assumes "undisturbed cl flush f"
  shows "k_poll cl d m (kafka w) = (fs, k) \<Longrightarrow> f (w\<lparr>kafka := k\<rparr>) = f w" "f (w\<lparr>host := e\<rparr>) = f w"
    "flush rows w = (r, w') \<Longrightarrow> f w' = f w"
  using assms unfolding undisturbed_def by (metis snd_conv)+

lemma undisturbed_due:
  assumes "undisturbed cl flush f" "flush_due ho fr fa pend lf w = (b, w')"
  shows "f w' = f w"
  using assms(2) undisturbed_rules(2) [OF assms(1)]
  by (auto simp: flush_due_def Let_def split: if_splits prod.splits)

lemma undisturbed_iter:
  assumes u: "undisturbed cl flush f" and "batch_iter cl ho fr fsec decode flush st = out"
  shows "f (case out of Inl (res, w') \<Rightarrow> w' | Inr st' \<Rightarrow> b_world st') = f (b_world st)"
proof -
  obtain fs k where p: "k_poll cl (last_flush st + fsec * second) (fr - int (length (pending st))) (kafka (b_world st)) = (fs, k)"
    by (cases "k_poll cl (last_flush st + fsec * second) (fr - int (length (pending st))) (kafka (b_world st))")
  let ?w1 = "(b_world st)\<lparr>kafka := k\<rparr>"
  obtain c e where c: "h_ctx_err ho (host (b_world st)) = (c, e)" by (cases "h_ctx_err ho (host (b_world st))")
  have f: "f ?w1 = f (b_world st)" "f (?w1\<lparr>host := e\<rparr>) = f (b_world st)"
    using undisturbed_rules(1) [OF u p] undisturbed_rules(2) [OF u, where w = ?w1 and e = e] by simp_all
  obtain de pend where d: "each_record decode (f_records fs) (pending st) = (de, pend)"
    by (cases "each_record decode (f_records fs) (pending st)")
  obtain b w3 where fd: "flush_due ho fr (fsec * second) pend (last_flush st) (?w1\<lparr>host := e\<rparr>) = (b, w3)"
    by (cases "flush_due ho fr (fsec * second) pend (last_flush st) (?w1\<lparr>host := e\<rparr>)")
  have w3: "f w3 = f (b_world st)" using undisturbed_due [OF u fd] f(2) by simp
  obtain r2 w2 where f2: "flush pend (?w1\<lparr>host := e\<rparr>) = (r2, w2)" by (cases "flush pend (?w1\<lparr>host := e\<rparr>)")
  obtain r4 w4 where f4: "flush pend w3 = (r4, w4)" by (cases "flush pend w3")
  note fl = undisturbed_rules(3) [OF u f2] undisturbed_rules(3) [OF u f4] undisturbed_rules(2) [OF u, where w = w4]
  show ?thesis unfolding assms(2) [symmetric]
    by (simp add: batch_iter_def p d c fd f2 f4 f fl w3 Let_def
        split: option.split bool.split prod.split)
qed

lemma batch_undisturbed:
  assumes u: "undisturbed cl flush f" and "batch cl ho fr fsec decode flush w = Some (res, w')"
  shows "f w' = f w"
proof -
  obtain st where st: "batch_reach cl ho fr fsec decode flush w st"
      "batch_iter cl ho fr fsec decode flush st = Inl (res, w')" using batch_returns_from [OF assms(2)] by blast
  from st(1) have "f (b_world st) = f w"
  proof (induction rule: batch_reach.induct)
    case reach_start
    then show ?case using undisturbed_rules(2) [OF u] by (simp add: batch_start_def Let_def split: prod.split)
  next
    case (reach_iter st st')
    with undisturbed_iter [OF u reach_iter.hyps(2)] show ?case by simp
  qed
  with undisturbed_iter [OF u st(2)] show ?thesis by simp
qed

text \<open>Only a cancelled context makes \<open>Batch\<close> return nil.\<close>

lemma batch_nil_cancelled:
  assumes "batch cl ho fr fsec decode flush w = Some (None, w')"
  shows "\<exists>st. batch_reach cl ho fr fsec decode flush w st \<and> fst (h_ctx_err ho (host (b_world st))) \<noteq> None"
proof -
  obtain st where st: "batch_reach cl ho fr fsec decode flush w st"
      "batch_iter cl ho fr fsec decode flush st = Inl (None, w')" using batch_returns_from [OF assms] by blast
  have "fst (h_ctx_err ho (host (b_world st))) \<noteq> None"
  proof
    assume "fst (h_ctx_err ho (host (b_world st))) = None"
    with st(2) show False
      by (auto simp: batch_iter_def Let_def split: prod.splits option.splits bool.splits)
  qed
  with st(1) show ?thesis by blast
qed

subsection \<open>Bounds, deadlines, cancellation, decode failures\<close>

lemma pending_bounded:
  assumes "kafka_contract cl polled committed" and "0 < fr"
    and "batch_reach cl ho fr fsec decode flush w st"
  shows "int (length (pending st)) < fr"
  using assms(3)
proof (induction rule: batch_reach.induct)
  case reach_start
  with assms(2) show ?case by simp
next
  case (reach_iter st st')
  from reach_iter.hyps(2) show ?case
  proof (cases rule: batch_iter_InrE)
    case (accumulate fs k rows w)
    then show ?thesis by (auto simp: flush_due_def split: if_splits)
  next
    case (flushed fs k rows w w4)
    with assms(2) show ?thesis by simp
  qed
qed

lemma batch_iter_flush_cong:
  assumes "\<And>fs k pend w. k_poll cl (last_flush st + fsec * second) (fr - int (length (pending st))) (kafka (b_world st)) = (fs, k) \<Longrightarrow>
      each_record decode (f_records fs) (pending st) = (None, pend) \<Longrightarrow> flush' pend w = flush pend w"
  shows "batch_iter cl ho fr fsec decode flush' st = batch_iter cl ho fr fsec decode flush st"
proof -
  obtain fs k where p: "k_poll cl (last_flush st + fsec * second) (fr - int (length (pending st))) (kafka (b_world st)) = (fs, k)"
    by (cases "k_poll cl (last_flush st + fsec * second) (fr - int (length (pending st))) (kafka (b_world st))")
  obtain de pend where d: "each_record decode (f_records fs) (pending st) = (de, pend)"
    by (cases "each_record decode (f_records fs) (pending st)")
  show ?thesis
  proof (cases de)
    case (Some err)
    with p d show ?thesis by (simp add: batch_iter_def)
  next
    case None
    with assms [OF p] d have f: "flush' pend = flush pend" by (intro ext) simp
    show ?thesis unfolding batch_iter_def Let_def p d None prod.case option.case f ..
  qed
qed

lemma pending_room:
  assumes "kafka_contract cl polled committed" "0 < fr" "batch_reach cl ho fr fsec decode flush w st"
    and "k_poll cl (last_flush st + fsec * second) (fr - int (length (pending st))) (kafka (b_world st)) = (fs, k)"
    and "each_record decode (f_records fs) (pending st) = (None, pend)"
  shows "int (length pend) \<le> fr"
proof -
  from pending_bounded [OF assms(1-3)] have p: "int (length (pending st)) < fr" .
  with kafka_contract_poll(3) [OF assms(1,4)]
  have "int (length (f_records fs)) \<le> fr - int (length (pending st))" by simp
  moreover obtain rows where "pend = pending st @ rows" "decoded decode (f_records fs) rows"
    using each_record_ok [OF assms(5)] by blast
  ultimately show ?thesis using p by (auto simp: decoded_def dest: list_all2_lengthD)
qed

text \<open>C29: a batch never outgrows its limit. At every loop head fewer than \<open>flushRecords\<close> rows are pending, and
  the iteration from there never hands \<open>flush\<close> more than \<open>flushRecords\<close> rows, since each poll is asked for
  no more than the room left: with any other \<open>flush\<close> that does the same on up to that many rows, and
  whatever else on more, the iteration is the same.\<close>

theorem batch_bounded:
  assumes "kafka_contract cl polled committed" and "0 < flushRecords"
    and "batch_reach cl ho flushRecords flushSeconds decode flush w st"
    and "\<forall>rows w. int (length rows) \<le> flushRecords \<longrightarrow> flush' rows w = flush rows w"
  shows "int (length (pending st)) < flushRecords \<and>
    batch_iter cl ho flushRecords flushSeconds decode flush' st =
    batch_iter cl ho flushRecords flushSeconds decode flush st"
proof
  show "int (length (pending st)) < flushRecords" by (rule pending_bounded [OF assms(1-3)])
  show "batch_iter cl ho flushRecords flushSeconds decode flush' st =
      batch_iter cl ho flushRecords flushSeconds decode flush st"
    by (rule batch_iter_flush_cong) (use pending_room [OF assms(1-3)] assms(4) in blast)
qed

definition sample_world :: "bytes list \<Rightarrow> nat \<Rightarrow>
    (krecord list \<times> krecord list \<times> krecord list, nat, unit) world" where
  "sample_world vs n = \<lparr>kafka = (map sample_record vs, [], []), host = n, sink = ()\<rparr>"

abbreviation no_flush :: "(bytes, 'k, nat, unit) flush_fn" where
  "no_flush \<equiv> (\<lambda>rows w. (None, w))"

lemma sample_start: "batch_start sample_host w = \<lparr>pending = [], last_flush = 0, b_world = w\<rparr>"
  by (cases w) (simp add: batch_start_def sample_host_def)

theorem batch_bounded_witness:
  "batch_iter sample_kafka sample_host 2 5 sample_decode
     (\<lambda>rows w. if length rows \<le> 2 then (None, w) else (Some (ErrNew ''overfull''), w))
     (batch_start sample_host (sample_world [''a'', ''b'', ''c''] 9)) =
   batch_iter sample_kafka sample_host 2 5 sample_decode no_flush
     (batch_start sample_host (sample_world [''a'', ''b'', ''c''] 9))"
  using batch_bounded [OF sample_kafka_contract _ reach_start, where flushRecords = 2 and flushSeconds = 5
      and ho = sample_host and decode = sample_decode and w = "sample_world [''a'', ''b'', ''c''] 9" and flush = no_flush
      and flush' = "\<lambda>rows w. if length rows \<le> 2 then (None, w) else (Some (ErrNew ''overfull''), w)"]
  by simp

text \<open>No row waits past the flush interval. An iteration that ends with rows still pending read a
  clock that is less than \<open>flushSeconds\<close> after the last flush.\<close>

theorem batch_flush_deadline:
  assumes "batch_iter cl ho flushRecords flushSeconds decode flush st = Inr st'"
    and "pending st' \<noteq> []"
  shows "last_flush st' = last_flush st \<and>
    fst (h_now ho (snd (h_ctx_err ho (host (b_world st))))) < last_flush st + flushSeconds * second"
  using assms(1)
proof (cases rule: batch_iter_InrE)
  case (accumulate fs k rows w)
  then show ?thesis by (auto simp: flush_due_def Let_def split: if_splits prod.splits)
next
  case (flushed fs k rows w w4)
  with assms(2) show ?thesis by simp
qed

theorem batch_flush_deadline_witness:
  "fst (h_now sample_host 8) < 0 + 5 * second"
  using batch_flush_deadline [of sample_kafka sample_host 2 5 sample_decode no_flush
      "batch_start sample_host (sample_world [''a''] 9)"
      "\<lparr>pending = [''a''], last_flush = 0,
        b_world = \<lparr>kafka = ([], [sample_record ''a''], []), host = 8, sink = ()\<rparr>\<rparr>"]
  by (simp add: sample_start batch_iter_def sample_world_def sample_kafka_simps
      sample_decode_def sample_record_def poll_error_def flush_due_def second_def Let_def)

text \<open>C28: a record that does not decode stops the batch before anything is acknowledged: the loop
  returns the error, which names the record, without calling flush, so the storage is untouched and
  no offset is committed.\<close>

theorem batch_stops_at_undecodable:
  assumes "kafka_contract cl polled committed"
    and "k_poll cl (last_flush st + flushSeconds * second)
           (flushRecords - int (length (pending st))) (kafka (b_world st)) = (fs, k)"
    and "f_records fs = good @ bad # rest"
    and "decoded decode good rows" and "decode bad = Inl err"
  shows "\<exists>w'. batch_iter cl ho flushRecords flushSeconds decode flush st =
      Inl (Some (ErrWrap (''decode '' @ kr_topic bad @ ''/'' @ itoa (kr_offset bad)) err), w') \<and>
    sink w' = sink (b_world st) \<and> committed (kafka w') = committed (kafka (b_world st))"
  using each_record_fails [OF assms(4,5), of rest "pending st"] assms(2,3)
    kafka_contract_poll(2) [OF assms(1,2)]
  by (simp add: batch_iter_def)

theorem batch_stops_at_undecodable_witness:
  "\<exists>w'. batch_iter sample_kafka sample_host 2 5 sample_decode no_flush
      (batch_start sample_host (sample_world [''a'', []] 9)) =
      Inl (Some (ErrWrap (''decode '' @ ''t'' @ ''/'' @ itoa 0) (ErrNew ''empty'')), w')"
  using batch_stops_at_undecodable [OF sample_kafka_contract, of
      "batch_start sample_host (sample_world [''a'', []] 9)" 5 2
      "\<lparr>f_records = [sample_record ''a'', sample_record []], f_err = None\<rparr>"
      "([], [sample_record ''a'', sample_record []], [])" "[sample_record ''a'']" "sample_record []" "[]"
      sample_decode "[''a'']" "ErrNew ''empty''" sample_host no_flush]
  by (simp add: sample_start sample_world_def sample_kafka_simps sample_decode_def sample_record_def decoded_def Let_def) blast

text \<open>C27: on cancellation the loop does not go round again: everything the last poll returned is decoded
  and handed to one final flush together with what was pending, and \<open>Batch\<close> returns what that flush
  returns.\<close>

theorem batch_cancelled_flushes:
  assumes "k_poll cl (last_flush st + flushSeconds * second)
           (flushRecords - int (length (pending st))) (kafka (b_world st)) = (fs, k)"
    and "decoded decode (f_records fs) rows"
    and "h_ctx_err ho (host (b_world st)) = (Some cerr, e)"
  shows "batch_loop cl ho flushRecords flushSeconds decode flush st =
    Some (flush (pending st @ rows) ((b_world st)\<lparr>kafka := k, host := e\<rparr>))"
  using assms(1,3) each_record_all [OF assms(2)]
  by (subst batch_loop.simps) (simp add: batch_iter_def)

theorem batch_cancelled_flushes_witness:
  "batch_loop sample_kafka sample_host 2 5 sample_decode (\<lambda>rows w. (Some (ErrNew (concat rows)), w))
      (batch_start sample_host (sample_world [''a''] 0)) =
     Some (Some (ErrNew ''a''), \<lparr>kafka = ([], [sample_record ''a''], []), host = 0, sink = ()\<rparr>)"
  using batch_cancelled_flushes [of sample_kafka "batch_start sample_host (sample_world [''a''] 0)" 5 2
      "\<lparr>f_records = [sample_record ''a''], f_err = None\<rparr>" "([], [sample_record ''a''], [])" sample_decode "[''a'']"
      sample_host ErrCanceled 0 "\<lambda>rows w. (Some (ErrNew (concat rows)), w)"]
  by (simp add: sample_start sample_world_def sample_kafka_simps sample_decode_def
      sample_record_def decoded_def Let_def)

lemma loop_steps_batch:
  "loop_steps (batch_iter cl ho fr fsec decode flush) n st = Inl r \<Longrightarrow>
     batch_loop cl ho fr fsec decode flush st = Some r"
proof (induction n arbitrary: st)
  case (Suc n)
  then show ?case by (subst batch_loop.simps) (auto split: sum.splits)
qed simp

lemma cancelled_iter_returns:
  "fst (h_ctx_err ho (host (b_world st))) \<noteq> None \<Longrightarrow>
     \<exists>r. batch_iter cl ho fr fsec decode flush st = Inl r"
  by (auto simp: batch_iter_def Let_def split: prod.splits option.splits)

text \<open>C15: \<open>Batch\<close> returns: a run that does not come back passes through infinitely many loop heads
  without one at which the context is cancelled. Stated positively: if every endless sequence of
  iterations meets a cancelled context, the loop returns a value.\<close>

theorem batch_terminates:
  assumes "\<And>f. f 0 = batch_start ho w \<Longrightarrow>
      (\<forall>i. batch_iter cl ho flushRecords flushSeconds decode flush (f i) = Inr (f (Suc i))) \<Longrightarrow>
      (\<exists>i. fst (h_ctx_err ho (host (b_world (f i)))) \<noteq> None)"
  shows "\<exists>r. batch cl ho flushRecords flushSeconds decode flush w = Some r"
proof -
  have "\<exists>n r. loop_steps (batch_iter cl ho flushRecords flushSeconds decode flush) n (batch_start ho w) = Inl r"
    by (rule loop_ends) (use assms cancelled_iter_returns in blast)
  then show ?thesis unfolding batch_def using loop_steps_batch by blast
qed

lemma iter_host_sample:
  "batch_iter cl sample_host fr fsec decode no_flush st = Inr st' \<Longrightarrow>
     0 < host (b_world st) \<and> host (b_world st') = host (b_world st) - 1"
  by (auto simp: batch_iter_def sample_host_def flush_due_def Let_def
      split: prod.splits option.splits if_splits bool.splits)

theorem batch_terminates_witness:
  "\<exists>r. batch sample_kafka sample_host 2 5 sample_decode no_flush (sample_world [''a''] 3) = Some r"
proof (rule batch_terminates)
  fix f assume "\<forall>i. batch_iter sample_kafka sample_host 2 5 sample_decode no_flush (f i) = Inr (f (Suc i))"
  then have s: "0 < host (b_world (f i)) \<and> host (b_world (f (Suc i))) = host (b_world (f i)) - 1" for i
    using iter_host_sample by blast
  have "host (b_world (f i)) + i = host (b_world (f 0))" for i
  proof (induction i)
    case (Suc i)
    with s [of i] show ?case by simp
  qed simp
  from this [of "Suc (host (b_world (f 0)))"] show "\<exists>i. fst (h_ctx_err sample_host (host (b_world (f i)))) \<noteq> None"
    by simp
qed

subsection \<open>The contract between the loop and its flush\<close>

text \<open>The world an iteration leaves, whether it returns or not.\<close>

definition iter_world ::
  "(gerror option \<times> ('k, 'e, 's) world) + ('a, 'k, 'e, 's) bstate \<Rightarrow> ('k, 'e, 's) world" where
  "iter_world out = (case out of Inl (_, w) \<Rightarrow> w | Inr st \<Rightarrow> b_world st)"

text \<open>
  What \<open>Batch\<close> relies on of the flush it is given: an empty batch does nothing; a flush never
  un-polls; it commits only what was polled; success means that the rows are stored and, for a
  non-empty batch, that every polled record is committed; and a commit happens only when the rows
  are stored, also in a flush that fails.
\<close>

locale batch_sink =
  fixes good :: "'c \<Rightarrow> bool"
    and flush :: "'c \<Rightarrow> 'k kclient \<Rightarrow> ('a, 'k, 'e, 's) flush_fn"
    and stored :: "'c \<Rightarrow> 's \<Rightarrow> 'a \<Rightarrow> bool"
  assumes flush_empty: "flush c cl [] w = (None, w)"
    and flush_polled: "kafka_contract cl polled committed \<Longrightarrow> flush c cl rows w = (res, w') \<Longrightarrow>
      polled (kafka w') = polled (kafka w)"
    and flush_committed: "kafka_contract cl polled committed \<Longrightarrow> flush c cl rows w = (res, w') \<Longrightarrow>
      committed (kafka w') = committed (kafka w) \<or> committed (kafka w') = polled (kafka w)"
    and flush_ok_commits: "kafka_contract cl polled committed \<Longrightarrow>
      flush c cl rows w = (None, w') \<Longrightarrow> rows \<noteq> [] \<Longrightarrow> committed (kafka w') = polled (kafka w)"
    and flush_ok_stores: "good c \<Longrightarrow> flush c cl rows w = (None, w') \<Longrightarrow> r \<in> set rows \<Longrightarrow>
      stored c (sink w') r"
    and commit_after_store: "good c \<Longrightarrow> kafka_contract cl polled committed \<Longrightarrow>
      flush c cl rows w = (res, w') \<Longrightarrow> committed (kafka w') \<noteq> committed (kafka w) \<Longrightarrow>
      r \<in> set rows \<Longrightarrow> stored c (sink w') r"
begin

text \<open>At a loop head the polled records are the committed ones followed by the pending ones.\<close>

lemma reach_offsets:
  assumes "kafka_contract cl polled committed"
    and "polled (kafka w0) = []" "committed (kafka w0) = []"
    and "batch_reach cl ho fr fsec decode (flush c cl) w0 st"
  shows "\<exists>cur. polled (kafka (b_world st)) = committed (kafka (b_world st)) @ cur \<and>
           decoded decode cur (pending st)"
  using assms(4)
proof (induction rule: batch_reach.induct)
  case reach_start
  with assms(2,3) show ?case by simp
next
  case (reach_iter st st')
  then obtain cur where cur: "polled (kafka (b_world st)) = committed (kafka (b_world st)) @ cur"
    "decoded decode cur (pending st)" by blast
  from reach_iter.hyps(2) show ?case
  proof (cases rule: batch_iter_InrE)
    case (accumulate fs k rows w)
    with cur kafka_contract_poll [OF assms(1)] show ?thesis
      by (intro exI [of _ "cur @ f_records fs"]) (simp add: decoded_append)
  next
    case (flushed fs k rows w w4)
    have dec: "decoded decode (cur @ f_records fs) (pending st @ rows)"
      using cur flushed(2) by (simp add: decoded_append)
    have pk: "polled k = committed k @ cur @ f_records fs"
      using kafka_contract_poll(1,2) [OF assms(1) flushed(1)] cur(1) by simp
    show ?thesis
    proof (cases "pending st @ rows = []")
      case True
      with dec pk flushed flush_empty show ?thesis by (auto simp: decoded_def)
    next
      case False
      have "committed (kafka w4) = polled (kafka w4)"
        using flush_ok_commits [OF assms(1) flushed(5) False] flush_polled [OF assms(1) flushed(5)]
        by simp
      with flushed show ?thesis by simp
    qed
  qed
qed

text \<open>A return keeps the committed records a prefix of the polled ones; a nil return has committed all.\<close>

lemma return_offsets:
  assumes "kafka_contract cl polled committed"
    and "polled (kafka w0) = []" "committed (kafka w0) = []"
    and "batch_reach cl ho fr fsec decode (flush c cl) w0 st"
    and "batch_iter cl ho fr fsec decode (flush c cl) st = Inl (res, w')"
  shows "\<exists>cur. polled (kafka w') = committed (kafka w') @ cur \<and> (res = None \<longrightarrow> cur = [])"
proof -
  obtain cur where cur: "polled (kafka (b_world st)) = committed (kafka (b_world st)) @ cur"
    "decoded decode cur (pending st)" using reach_offsets [OF assms(1-4)] by blast
  have fl: "\<exists>cur'. polled (kafka w') = committed (kafka w') @ cur' \<and> (r = None \<longrightarrow> cur' = [])"
    if "k_poll cl (last_flush st + fsec * second) (fr - int (length (pending st)))
          (kafka (b_world st)) = (fs, k)"
      and "decoded decode (f_records fs) rows" "kafka w = k"
      and f: "flush c cl (pending st @ rows) w = (r, w')" for fs k rows w r
  proof -
    have pk: "polled k = committed k @ cur @ f_records fs"
      using kafka_contract_poll(1,2) [OF assms(1) that(1)] cur(1) by simp
    have dec: "decoded decode (cur @ f_records fs) (pending st @ rows)"
      using cur that(2) by (simp add: decoded_append)
    show ?thesis
    proof (cases "pending st @ rows = []")
      case True
      with dec pk that flush_empty show ?thesis by (auto simp: decoded_def)
    next
      case False
      with flush_ok_commits [OF assms(1), of c rows w] flush_polled [OF assms(1) f]
        flush_committed [OF assms(1) f] flush_ok_commits [OF assms(1), of c "pending st @ rows" w w']
        that(3) f pk
      show ?thesis by auto
    qed
  qed
  from assms(5) show ?thesis
  proof (cases rule: batch_iter_InlE)
    case (decode_failed fs k e)
    with kafka_contract_poll(1,2) [OF assms(1) decode_failed(1)] cur(1) show ?thesis by simp
  next
    case (cancelled fs k rows w)
    with fl show ?thesis by blast
  next
    case (poll_failed fs k e)
    with kafka_contract_poll(1,2) [OF assms(1) poll_failed(1)] cur(1) show ?thesis by simp
  next
    case (flush_failed fs k rows w e)
    with fl [OF flush_failed(1-3) flush_failed(5)] show ?thesis by auto
  qed
qed

text \<open>
  One iteration commits a possibly empty run of records, and every record it commits is decoded and
  stored in the state it leaves. The storage it leaves is the one before it or a flush of it.
\<close>

lemma iter_commits:
  assumes "good c" "kafka_contract cl polled committed"
    and "polled (kafka w0) = []" "committed (kafka w0) = []"
    and "batch_reach cl ho fr fsec decode (flush c cl) w0 st"
    and "batch_iter cl ho fr fsec decode (flush c cl) st = out"
  shows "\<exists>new. committed (kafka (iter_world out)) = committed (kafka (b_world st)) @ new \<and>
      (\<forall>rec \<in> set new. \<exists>r. decode rec = Inr r \<and> stored c (sink (iter_world out)) r) \<and>
      (sink (iter_world out) = sink (b_world st) \<or>
       (\<exists>rows w res w'. flush c cl rows w = (res, w') \<and> sink w = sink (b_world st) \<and>
          sink (iter_world out) = sink w'))"
proof -
  obtain cur where cur: "polled (kafka (b_world st)) = committed (kafka (b_world st)) @ cur"
    "decoded decode cur (pending st)" using reach_offsets [OF assms(2-5)] by blast
  let ?C = "committed (kafka (b_world st))"
  have fl: "\<exists>new. committed (kafka w') = ?C @ new \<and>
      (\<forall>rec \<in> set new. \<exists>r. decode rec = Inr r \<and> stored c (sink w') r)"
    if "k_poll cl (last_flush st + fsec * second) (fr - int (length (pending st)))
          (kafka (b_world st)) = (fs, k)"
      and "decoded decode (f_records fs) rows" "kafka w = k"
      and f: "flush c cl (pending st @ rows) w = (r, w')" for fs k rows w r w'
  proof (cases "committed (kafka w') = committed (kafka w)")
    case True
    with that(3) kafka_contract_poll(2) [OF assms(2) that(1)] show ?thesis by simp
  next
    case False
    have dec: "decoded decode (cur @ f_records fs) (pending st @ rows)"
      using cur that(2) by (simp add: decoded_append)
    have "committed (kafka w') = ?C @ cur @ f_records fs"
      using flush_committed [OF assms(2) f] False that(3) cur(1)
        kafka_contract_poll(1,2) [OF assms(2) that(1)] by auto
    moreover have "\<exists>x. decode rec = Inr x \<and> stored c (sink w') x" if "rec \<in> set (cur @ f_records fs)" for rec
      using decoded_mem [OF dec that] commit_after_store [OF assms(1,2) f False] by blast
    ultimately show ?thesis by blast
  qed
  show ?thesis
  proof (cases out)
    case (Inr st')
    with assms(6) have "batch_iter cl ho fr fsec decode (flush c cl) st = Inr st'" by simp
    then show ?thesis
    proof (cases rule: batch_iter_InrE)
      case (accumulate fs k rows w)
      with Inr kafka_contract_poll(2) [OF assms(2) accumulate(1)] show ?thesis
        by (auto simp: iter_world_def)
    next
      case (flushed fs k rows w w4)
      from fl [OF flushed(1-3,5)] flushed Inr show ?thesis
        unfolding iter_world_def by auto metis
    qed
  next
    case (Inl a)
    then obtain res w' where out: "out = Inl (res, w')" by (cases a) auto
    with assms(6) have "batch_iter cl ho fr fsec decode (flush c cl) st = Inl (res, w')" by simp
    then show ?thesis
    proof (cases rule: batch_iter_InlE)
      case (decode_failed fs k e)
      with out kafka_contract_poll(2) [OF assms(2) decode_failed(1)] show ?thesis
        by (auto simp: iter_world_def)
    next
      case (cancelled fs k rows w)
      from fl [OF cancelled(1-3,5)] cancelled out show ?thesis
        unfolding iter_world_def by auto metis
    next
      case (poll_failed fs k e)
      with out kafka_contract_poll(2) [OF assms(2) poll_failed(1)] show ?thesis
        by (auto simp: iter_world_def)
    next
      case (flush_failed fs k rows w e)
      from fl [OF flush_failed(1-3,5)] flush_failed out show ?thesis
        unfolding iter_world_def by auto metis
    qed
  qed
qed

end

text \<open>
  Storage that only grows: what a flush stored stays stored. Then every committed record is stored,
  at every loop head and in every state the loop returns.
\<close>

locale durable_sink = batch_sink good flush stored
  for good :: "'c \<Rightarrow> bool"
    and flush :: "'c \<Rightarrow> 'k kclient \<Rightarrow> ('a, 'k, 'e, 's) flush_fn"
    and stored :: "'c \<Rightarrow> 's \<Rightarrow> 'a \<Rightarrow> bool" +
  assumes stored_mono: "good c \<Longrightarrow> flush c cl rows w = (res, w') \<Longrightarrow> stored c (sink w) r \<Longrightarrow>
      stored c (sink w') r"
begin

lemma iter_durable:
  assumes "good c" "kafka_contract cl polled committed"
    and "polled (kafka w0) = []" "committed (kafka w0) = []"
    and "batch_reach cl ho fr fsec decode (flush c cl) w0 st"
    and "batch_iter cl ho fr fsec decode (flush c cl) st = out"
    and "\<And>rec. rec \<in> set (committed (kafka (b_world st))) \<Longrightarrow>
      \<exists>r. decode rec = Inr r \<and> stored c (sink (b_world st)) r"
    and "rec \<in> set (committed (kafka (iter_world out)))"
  shows "\<exists>r. decode rec = Inr r \<and> stored c (sink (iter_world out)) r"
proof -
  obtain new where new: "committed (kafka (iter_world out)) = committed (kafka (b_world st)) @ new"
      "\<forall>rec \<in> set new. \<exists>r. decode rec = Inr r \<and> stored c (sink (iter_world out)) r"
      "sink (iter_world out) = sink (b_world st) \<or>
       (\<exists>rows w res w'. flush c cl rows w = (res, w') \<and> sink w = sink (b_world st) \<and>
          sink (iter_world out) = sink w')"
    using iter_commits [OF assms(1-6)] by blast
  from new(3) have "stored c (sink (b_world st)) r \<Longrightarrow> stored c (sink (iter_world out)) r" for r
    using stored_mono [OF assms(1)] by metis
  with new(1,2) assms(7,8) show ?thesis by fastforce
qed

lemma reach_durable:
  assumes "good c" "kafka_contract cl polled committed"
    and "polled (kafka w0) = []" "committed (kafka w0) = []"
    and "batch_reach cl ho fr fsec decode (flush c cl) w0 st"
    and "rec \<in> set (committed (kafka (b_world st)))"
  shows "\<exists>r. decode rec = Inr r \<and> stored c (sink (b_world st)) r"
  using assms(5,6)
proof (induction arbitrary: rec rule: batch_reach.induct)
  case reach_start
  with assms(4) show ?case by simp
next
  case (reach_iter st st')
  from iter_durable [OF assms(1-4) reach_iter.hyps] reach_iter.IH reach_iter.prems
  show ?case by (simp add: iter_world_def)
qed

lemma return_durable:
  assumes "good c" "kafka_contract cl polled committed"
    and "polled (kafka w0) = []" "committed (kafka w0) = []"
    and "batch cl ho fr fsec decode (flush c cl) w0 = Some (res, w')"
    and "rec \<in> set (committed (kafka w'))"
  shows "\<exists>r. decode rec = Inr r \<and> stored c (sink w') r"
proof -
  obtain st where st: "batch_reach cl ho fr fsec decode (flush c cl) w0 st"
    "batch_iter cl ho fr fsec decode (flush c cl) st = Inl (res, w')"
    using batch_returns_from [OF assms(5)] by blast
  from iter_durable [OF assms(1-4) st reach_durable [OF assms(1-4) st(1)]] assms(6)
  show ?thesis by (simp add: iter_world_def)
qed

end

end
