(* ===== verification/Wire.thy ===== *)
theory Wire
  imports Go_Decode Consume
begin

section \<open>The shared record format (\<open>internal/wire/wire.go\<close>)\<close>

text \<open>
  Topic names, \<open>Brokers\<close>, \<open>OpenKafka\<close> over a connection library given as a parameter, the
  \<open>Event\<close> record with its JSON form in both directions, and \<open>Record\<close>.
\<close>

subsection \<open>Topics and configuration\<close>

definition raw_topic :: string where
  "raw_topic = ''events.raw''"

definition replay_suffix :: string where
  "replay_suffix = ''.replay''"

definition brokers :: "(string \<Rightarrow> string) \<Rightarrow> string list result" where
  "brokers getenv =
     (let v = getenv ''KAFKA_BROKERS''
      in if v = [] then Inl (ErrNew ''KAFKA_BROKERS is not set'') else Inr (split_on (CHR '','') v))"

subsection \<open>Connections\<close>

text \<open>
  A connecting library (franz-go, pgx) over the outside world \<open>'w\<close>: make a client from its
  arguments, ping it, close it.
\<close>

record ('c, 'a, 'w) connlib =
  cl_new :: "'a \<Rightarrow> 'w \<Rightarrow> 'c result \<times> 'w"
  cl_ping :: "'c \<Rightarrow> 'w \<Rightarrow> gerror option \<times> 'w"
  cl_close :: "'c \<Rightarrow> 'w \<Rightarrow> 'w"

datatype kgo_opt =
    SeedBrokers "string list"
  | ConsumerGroup string
  | ConsumeTopics "string list"
  | DisableAutoCommit
  | ResetOffsetStart

definition open_kafka ::
  "('c, kgo_opt list, 'w) connlib \<Rightarrow> string list \<Rightarrow> kgo_opt list \<Rightarrow> 'w \<Rightarrow> 'c result \<times> 'w" where
  "open_kafka lib bs opts w =
     (case cl_new lib ([SeedBrokers bs] @ opts) w of
        (Inl err, w1) \<Rightarrow> (Inl (ErrWrap ''configure kafka client'' err), w1)
      | (Inr client, w1) \<Rightarrow>
          (case cl_ping lib client w1 of
             (Some err, w2) \<Rightarrow> (Inl (ErrWrap ''connect to kafka'' err), cl_close lib client w2)
           | (None, w2) \<Rightarrow> (Inr client, w2)))"

text \<open>
  What a library promises of the connections that are open: \<open>New\<close> opens the client it returns and
  nothing on an error, \<open>Ping\<close> opens and closes nothing, \<open>Close\<close> closes the one client.
\<close>

definition conn_contract :: "('c, 'a, 'w) connlib \<Rightarrow> ('w \<Rightarrow> 'c set) \<Rightarrow> bool" where
  "conn_contract lib opened \<longleftrightarrow>
     (\<forall>a w. case cl_new lib a w of
        (Inl _, w') \<Rightarrow> opened w' = opened w
      | (Inr c, w') \<Rightarrow> c \<notin> opened w \<and> opened w' = insert c (opened w)) \<and>
     (\<forall>c w. opened (snd (cl_ping lib c w)) = opened w) \<and>
     (\<forall>c w. opened (cl_close lib c w) = opened w - {c})"

lemma conn_contract_new:
  assumes "conn_contract lib opened" "cl_new lib a w = (r, w')"
  shows "r = Inl err \<Longrightarrow> opened w' = opened w"
    "r = Inr c \<Longrightarrow> c \<notin> opened w \<and> opened w' = insert c (opened w)"
proof -
  from assms(1) have "\<forall>a w. case cl_new lib a w of (Inl _, w') \<Rightarrow> opened w' = opened w
      | (Inr c, w') \<Rightarrow> c \<notin> opened w \<and> opened w' = insert c (opened w)"
    unfolding conn_contract_def by (rule conjunct1)
  from spec [OF spec [OF this, of a], of w]
  have "case (r, w') of (Inl _, w') \<Rightarrow> opened w' = opened w
      | (Inr c, w') \<Rightarrow> c \<notin> opened w \<and> opened w' = insert c (opened w)" unfolding assms(2) .
  then show "r = Inl err \<Longrightarrow> opened w' = opened w"
    "r = Inr c \<Longrightarrow> c \<notin> opened w \<and> opened w' = insert c (opened w)" by simp_all
qed

lemma conn_contract_ping:
  "conn_contract lib opened \<Longrightarrow> cl_ping lib c w = (r, w') \<Longrightarrow> opened w' = opened w"
  unfolding conn_contract_def by (metis snd_conv)

lemma conn_contract_close:
  "conn_contract lib opened \<Longrightarrow> opened (cl_close lib c w) = opened w - {c}"
  unfolding conn_contract_def by blast

lemma open_kafka_opened:
  assumes "conn_contract lib opened" "open_kafka lib bs opts w = (r, w')"
  shows "r = Inl err \<Longrightarrow> opened w' = opened w"
    "r = Inr c \<Longrightarrow> c \<notin> opened w \<and> opened w' = insert c (opened w)"
proof -
  obtain r1 w1 where n: "cl_new lib ([SeedBrokers bs] @ opts) w = (r1, w1)"
    by (cases "cl_new lib ([SeedBrokers bs] @ opts) w")
  have g: "(\<forall>err. r = Inl err \<longrightarrow> opened w' = opened w) \<and>
      (\<forall>c. r = Inr c \<longrightarrow> c \<notin> opened w \<and> opened w' = insert c (opened w))"
  proof (cases r1)
    case (Inl e)
    with assms(2) n conn_contract_new(1) [OF assms(1) n] show ?thesis by (auto simp: open_kafka_def)
  next
    case (Inr c)
    obtain e w2 where p: "cl_ping lib c w1 = (e, w2)" by (cases "cl_ping lib c w1")
    from conn_contract_new(2) [OF assms(1) n Inr] conn_contract_ping [OF assms(1) p]
      conn_contract_close [OF assms(1), of c w2] assms(2) n Inr p
    show ?thesis by (auto simp: open_kafka_def split: option.splits)
  qed
  then show "r = Inl err \<Longrightarrow> opened w' = opened w"
    "r = Inr c \<Longrightarrow> c \<notin> opened w \<and> opened w' = insert c (opened w)" by auto
qed

text \<open>A library that leaves \<open>f\<close> alone.\<close>

definition silent :: "('c, 'a, 'w) connlib \<Rightarrow> ('w \<Rightarrow> 'x) \<Rightarrow> bool" where
  "silent lib f \<longleftrightarrow>
     (\<forall>a w. f (snd (cl_new lib a w)) = f w) \<and> (\<forall>c w. f (snd (cl_ping lib c w)) = f w) \<and>
     (\<forall>c w. f (cl_close lib c w) = f w)"

lemma silent_open:
  "silent lib f \<Longrightarrow> open_kafka lib bs opts w = (r, w') \<Longrightarrow> f w' = f w"
  by (auto simp: open_kafka_def silent_def split: prod.splits sum.splits option.splits) (metis snd_conv)+

lemma silent_rules:
  assumes "silent lib f"
  shows "cl_new lib a w = (r, w') \<Longrightarrow> f w' = f w" "cl_ping lib c w = (e, w') \<Longrightarrow> f w' = f w"
    "f (cl_close lib c w) = f w"
  using assms unfolding silent_def by (metis snd_conv)+

subsection \<open>Events\<close>

record event =
  e_station :: bytes
  e_id :: int
  e_ts :: gtime
  e_raw :: bytes
  e_received :: gtime

definition zero_event :: event where
  "zero_event = \<lparr>e_station = [], e_id = 0, e_ts = zero_time, e_raw = [], e_received = zero_time\<rparr>"

text \<open>\<open>json.Marshal(e)\<close>: the fields in order; a time that JSON cannot carry fails the whole value.\<close>

definition time_json :: "gtime \<Rightarrow> json result" where
  "time_json t =
     (case marshal_time t of
        Inl err \<Rightarrow> Inl (ErrWrap ''json: error calling MarshalJSON for type time.Time'' err)
      | Inr s \<Rightarrow> Inr (JStr s))"

definition event_json :: "event \<Rightarrow> json result" where
  "event_json e =
     bind_result (time_json (e_ts e)) (\<lambda>ts.
     bind_result (time_json (e_received e)) (\<lambda>received.
       Inr (JObj [(''station_id'', JStr (quote_body (e_station e))),
                  (''id'', JNum (itoa (e_id e))),
                  (''ts'', ts),
                  (''raw'', JStr (quote_body (e_raw e))),
                  (''received_at'', received)])))"

text \<open>\<open>json.Unmarshal(data, &e)\<close> into a zero \<open>Event\<close>.\<close>

definition int64_lim :: int where
  "int64_lim = 2 ^ 63"

definition event_fields :: "event fields" where
  "event_fields =
     [(''station_id'', \<lambda>e j. map_option (\<lambda>v. e\<lparr>e_station := v\<rparr>) (dec_string (e_station e) j)),
      (''id'', \<lambda>e j. map_option (\<lambda>v. e\<lparr>e_id := v\<rparr>) (dec_int int64_lim (e_id e) j)),
      (''ts'', \<lambda>e j. map_option (\<lambda>v. e\<lparr>e_ts := v\<rparr>) (dec_time (e_ts e) j)),
      (''raw'', \<lambda>e j. map_option (\<lambda>v. e\<lparr>e_raw := v\<rparr>) (dec_string (e_raw e) j)),
      (''received_at'', \<lambda>e j. map_option (\<lambda>v. e\<lparr>e_received := v\<rparr>) (dec_time (e_received e) j))]"

definition unmarshal_event :: "bytes \<Rightarrow> event option" where
  "unmarshal_event data =
     (case unmarshal_json data of None \<Rightarrow> None | Some j \<Rightarrow> decode_struct event_fields zero_event j)"

text \<open>\<open>Record\<close>: keyed by station; partition and offset are the broker's to set.\<close>

definition wire_record :: "string \<Rightarrow> event \<Rightarrow> krecord result" where
  "wire_record topic e =
     (case event_json e of
        Inl err \<Rightarrow> Inl (ErrWrap (''encode event '' @ e_station e @ ''/'' @ itoa (e_id e)) err)
      | Inr j \<Rightarrow> Inr \<lparr>kr_topic = topic, kr_partition = 0, kr_offset = 0,
                      kr_key = e_station e, kr_value = print_json j\<rparr>)"

text \<open>Events that JSON carries without loss.\<close>

definition json_event :: "event \<Rightarrow> bool" where
  "json_event e \<longleftrightarrow> valid_utf8 (e_station e) \<and> valid_utf8 (e_raw e) \<and>
     - int64_lim \<le> e_id e \<and> e_id e < int64_lim \<and> json_time (e_ts e) \<and> json_time (e_received e)"

lemma lower_names [simp]:
  "lower_name ''station_id''" "lower_name ''id''" "lower_name ''ts''" "lower_name ''raw''"
  "lower_name ''received_at''"
  by (simp_all add: lower_name_def lower_char_def)

lemma time_json_ok: "json_time t \<Longrightarrow> \<exists>s. marshal_time t = Inr s \<and> time_json t = Inr (JStr s) \<and>
    parse_time s = Some t"
  using marshal_time_ok_iff [of t] parse_time_marshal [of t]
  by (fastforce simp: json_time_def time_json_def)

lemma event_field_for: "lower_name k \<Longrightarrow> field_for event_fields k = map_of event_fields k"
  by (rule field_for_lower) (simp_all add: event_fields_def)

lemma event_field_for_simps [simp]:
  "field_for event_fields ''station_id'' = Some (\<lambda>e j. map_option (\<lambda>v. e\<lparr>e_station := v\<rparr>) (dec_string (e_station e) j))"
  "field_for event_fields ''id'' = Some (\<lambda>e j. map_option (\<lambda>v. e\<lparr>e_id := v\<rparr>) (dec_int int64_lim (e_id e) j))"
  "field_for event_fields ''ts'' = Some (\<lambda>e j. map_option (\<lambda>v. e\<lparr>e_ts := v\<rparr>) (dec_time (e_ts e) j))"
  "field_for event_fields ''raw'' = Some (\<lambda>e j. map_option (\<lambda>v. e\<lparr>e_raw := v\<rparr>) (dec_string (e_raw e) j))"
  "field_for event_fields ''received_at'' = Some (\<lambda>e j. map_option (\<lambda>v. e\<lparr>e_received := v\<rparr>) (dec_time (e_received e) j))"
  by (subst event_field_for, simp, simp add: event_fields_def)+

lemma decode_event_json:
  assumes "json_event e" "event_json e = Inr j"
  shows "decode_struct event_fields zero_event j = Some e"
proof -
  obtain s r where t: "time_json (e_ts e) = Inr (JStr s)" "parse_time s = Some (e_ts e)"
      "time_json (e_received e) = Inr (JStr r)" "parse_time r = Some (e_received e)"
    using assms(1) time_json_ok unfolding json_event_def by meson
  have j: "j = JObj [(''station_id'', JStr (quote_body (e_station e))), (''id'', JNum (itoa (e_id e))),
      (''ts'', JStr s), (''raw'', JStr (quote_body (e_raw e))), (''received_at'', JStr r)]"
    using assms(2) t by (simp add: event_json_def)
  have u: "unquote (quote_body (e_station e)) = e_station e" "unquote (quote_body (e_raw e)) = e_raw e"
      "parse_int int64_lim (itoa (e_id e)) = Some (e_id e)"
    using assms(1) by (simp_all add: json_event_def unquote_quote parse_int_itoa)
  show ?thesis unfolding j
    by (simp add: unquote_lower u t zero_event_def)
qed

lemma marshal_time_plain:
  assumes "marshal_time t = Inr s" "c \<in> set s"
  shows "is_digit c \<or> c \<in> set ''-T:.Z+''"
proof -
  have frac: "c \<in> set (fmt_fraction n) \<Longrightarrow> is_digit c \<or> c = CHR ''.''" for n
    by (auto simp: fmt_fraction_def dest: strip_zeros_digits split: if_splits)
  have zone: "c \<in> set (fmt_zone off) \<Longrightarrow> is_digit c \<or> c \<in> set ''Z+-:''" for off
    by (auto simp: fmt_zone_def Let_def dest: pad_dec_digits split: if_splits)
  from assms show ?thesis
    by (auto simp: marshal_time_def Let_def dest!: pad_dec_digits frac zone split: prod.splits if_splits)
qed

lemma wf_raw_marshal_time: "marshal_time t = Inr s \<Longrightarrow> wf_raw s"
  by (rule wf_raw_plain) (auto dest!: marshal_time_plain simp: plain_byte_def is_digit_def)

lemma event_json_wf:
  assumes "event_json e = Inr j"
  shows "wf_json j" "json_depth j \<le> max_nesting"
proof -
  from assms obtain s r where t: "marshal_time (e_ts e) = Inr s" "marshal_time (e_received e) = Inr r"
    and j: "j = JObj [(''station_id'', JStr (quote_body (e_station e))), (''id'', JNum (itoa (e_id e))),
      (''ts'', JStr s), (''raw'', JStr (quote_body (e_raw e))), (''received_at'', JStr r)]"
    by (auto simp: event_json_def time_json_def bind_result_def split: sum.splits)
  then show "wf_json j" "json_depth j \<le> max_nesting"
    by (simp_all add: wf_raw_marshal_time wf_raw_lower max_nesting_def)
qed

lemma wire_record_ok:
  assumes "json_event e"
  shows "\<exists>rec. wire_record topic e = Inr rec \<and> kr_topic rec = topic \<and> kr_key rec = e_station e \<and>
    unmarshal_event (kr_value rec) = Some e"
proof -
  from assms obtain s r where "time_json (e_ts e) = Inr (JStr s)" "time_json (e_received e) = Inr (JStr r)"
    using time_json_ok unfolding json_event_def by meson
  then obtain j where j: "event_json e = Inr j" by (simp add: event_json_def)
  from event_json_wf [OF j] decode_event_json [OF assms j] show ?thesis
    by (simp add: wire_record_def j unmarshal_event_def unmarshal_print)
qed

text \<open>2026-09-14T15:00:17.521Z and an event at that time.\<close>

definition sample_time :: gtime where
  "sample_time = \<lparr>t_sec = 63924994817, t_nsec = 521000000, t_off = 0\<rparr>"

definition sample_event :: event where
  "sample_event = \<lparr>e_station = ''st'', e_id = 7, e_ts = sample_time, e_raw = ''MSG,1'', e_received = sample_time\<rparr>"

lemma sample_date [simp]: "civil_of_days 739872 = (2026, 9, 14)"
proof -
  have "days_of_civil 2026 9 14 = 739872"
    by (simp add: days_of_civil_def days_before_year_def month_lens_def is_leap_def)
  moreover have "valid_civil 2026 9 14" by (simp add: valid_civil_def days_in_def month_lens_def)
  ultimately show ?thesis using civil_of_days_of_civil [of 2026 9 14] by simp
qed

lemma sample_time_ok [simp]: "json_time sample_time" "\<not> is_zero sample_time"
  by (simp_all add: json_time_def four_digit_year_def local_date_def local_days_def is_zero_def sample_time_def)

lemma sample_event_ok [simp]: "json_event sample_event"
  by (simp add: json_event_def sample_event_def int64_lim_def valid_utf8_ascii)

text \<open>C34: what the gateway or the backfill frames, every consumer reads back: the record is keyed by its
  station, carries the topic, and its value decodes to the very event, for every event whose text is
  UTF-8 and whose times JSON can carry.\<close>

theorem record_roundtrip:
  assumes "json_event e"
  shows "\<exists>rec. wire_record topic e = Inr rec \<and> kr_topic rec = topic \<and> kr_key rec = e_station e \<and>
    unmarshal_event (kr_value rec) = Some e"
  by (rule wire_record_ok [OF assms])

theorem record_roundtrip_witness:
  "\<exists>rec. wire_record raw_topic sample_event = Inr rec \<and> unmarshal_event (kr_value rec) = Some sample_event"
  using record_roundtrip [OF sample_event_ok, of raw_topic] by blast

lemma wire_record_ok_iff:
  "(\<exists>rec. wire_record topic e = Inr rec) \<longleftrightarrow>
     (\<exists>s. marshal_time (e_ts e) = Inr s) \<and> (\<exists>r. marshal_time (e_received e) = Inr r)"
  by (auto simp: wire_record_def event_json_def time_json_def bind_result_def split: sum.splits)

lemma wire_record_fields:
  "wire_record topic e = Inr rec \<Longrightarrow> kr_topic rec = topic \<and> kr_key rec = e_station e"
  by (auto simp: wire_record_def split: sum.splits)

end
