(* ===== verification/Go_Files.thy ===== *)
theory Go_Files
  imports Go_Utf8
begin

section \<open>Paths and files\<close>

text \<open>
  \<open>path/filepath\<close> on slash-separated paths (\<open>Clean\<close>, \<open>Join\<close>, \<open>Dir\<close>, \<open>Base\<close>, \<open>Glob\<close> with a pattern in
  the last element) and the calls of \<open>os\<close> the archive makes, over a file system of directories and
  whole files. Every call takes its outcome from a script: it works, or it fails after part of its
  effect. As no caller touches the file system again after a failure, the states a script can leave
  are also the states a crash can leave.
\<close>

subsection \<open>Paths\<close>

text \<open>A cleaned path: rooted or not, and its elements.\<close>

type_synonym fpath = "bool \<times> string list"

definition clean_push :: "bool \<Rightarrow> string list \<Rightarrow> string \<Rightarrow> string list" where
  "clean_push rooted cs c =
     (if c = [] \<or> c = ''.'' then cs
      else if c = ''..'' then
        (if cs \<noteq> [] \<and> last cs \<noteq> ''..'' then butlast cs else if rooted then cs else cs @ [c])
      else cs @ [c])"

definition filepath_clean :: "string \<Rightarrow> fpath" where
  "filepath_clean s =
     (let rooted = (s \<noteq> [] \<and> hd s = CHR ''/'')
      in (rooted, foldl (clean_push rooted) [] (split_on (CHR ''/'') s)))"

text \<open>\<open>filepath.Join(p, s)\<close> for a cleaned \<open>p\<close>.\<close>

definition filepath_join :: "fpath \<Rightarrow> string \<Rightarrow> fpath" where
  "filepath_join p s = (fst p, foldl (clean_push (fst p)) (snd p) (split_on (CHR ''/'') s))"

definition filepath_dir :: "fpath \<Rightarrow> fpath" where
  "filepath_dir p = (fst p, butlast (snd p))"

definition path_str :: "fpath \<Rightarrow> string" where
  "path_str p =
     (if fst p then CHR ''/'' # join_with ''/'' (snd p)
      else if snd p = [] then ''.'' else join_with ''/'' (snd p))"

definition filepath_base :: "fpath \<Rightarrow> string" where
  "filepath_base p = (if snd p = [] then path_str p else last (snd p))"

text \<open>\<open>full + ".tmp"\<close> on a path that has elements.\<close>

definition path_append :: "fpath \<Rightarrow> string \<Rightarrow> fpath" where
  "path_append p s = (fst p, butlast (snd p) @ [last (snd p) @ s])"

definition plain_elem :: "string \<Rightarrow> bool" where
  "plain_elem c \<longleftrightarrow> c \<noteq> [] \<and> c \<noteq> ''.'' \<and> c \<noteq> ''..'' \<and> CHR ''/'' \<notin> set c"

lemma clean_push_plain [simp]: "plain_elem c \<Longrightarrow> clean_push rooted cs c = cs @ [c]"
  by (simp add: clean_push_def plain_elem_def)

lemma filepath_join_plain:
  "plain_elem k \<Longrightarrow> plain_elem n \<Longrightarrow> filepath_join p (k @ ''/'' @ n) = (fst p, snd p @ [k, n])"
  by (simp add: filepath_join_def plain_elem_def split_on_append split_on_no_sep clean_push_def)

lemma filepath_join_elem: "plain_elem n \<Longrightarrow> filepath_join p n = (fst p, snd p @ [n])"
  by (simp add: filepath_join_def plain_elem_def split_on_no_sep clean_push_def)

text \<open>\<open>Join\<close> on the uncleaned root is \<open>Join\<close> on the cleaned one.\<close>

lemma filepath_clean_join:
  assumes "root \<noteq> []"
  shows "filepath_clean (root @ ''/'' @ s) = filepath_join (filepath_clean root) s"
proof -
  have "split_on (CHR ''/'') (root @ CHR ''/'' # s) = split_on (CHR ''/'') root @ split_on (CHR ''/'') s"
    by (rule split_on_append_gen)
  with assms show ?thesis by (simp add: filepath_clean_def filepath_join_def Let_def)
qed

lemma join_with_snoc: "join_with sep (cs @ [c]) = (if cs = [] then c else join_with sep cs @ sep @ c)"
proof (induction cs)
  case (Cons a cs)
  then show ?case by (cases cs) auto
qed simp

lemma path_str_snoc:
  "path_str (rooted, cs @ [n]) = (if rooted then ''/'' else []) @ (if cs = [] then [] else join_with ''/'' cs @ ''/'') @ n"
  by (simp add: path_str_def join_with_snoc)

lemma path_str_less: "path_str (rooted, cs @ [m]) < path_str (rooted, cs @ [n]) \<longleftrightarrow> m < n"
  by (simp add: path_str_snoc list_less_append_eq_length)

subsection \<open>Glob\<close>

text \<open>\<open>filepath.Match\<close> of one element against literals, \<open>*\<close> and \<open>?\<close> (one rune).\<close>

function glob_match :: "string \<Rightarrow> string \<Rightarrow> bool" where
  "glob_match pat s =
     (case pat of
        [] \<Rightarrow> s = []
      | p # ps \<Rightarrow>
          if p = CHR ''*'' then
            glob_match ps s \<or> (if s = [] \<or> hd s = CHR ''/'' then False else glob_match pat (tl s))
          else if p = CHR ''?'' then
            s \<noteq> [] \<and> hd s \<noteq> CHR ''/'' \<and> glob_match ps (drop (max 1 (rune_len s)) s)
          else s \<noteq> [] \<and> hd s = p \<and> glob_match ps (tl s))"
  by pat_completeness auto
termination
  by (relation "measures [\<lambda>(p, s). length p, \<lambda>(p, s). length s]") auto

declare glob_match.simps [simp del]

lemma glob_match_simps [simp]:
  "glob_match [] s \<longleftrightarrow> s = []"
  "glob_match (CHR ''*'' # ps) s \<longleftrightarrow>
     glob_match ps s \<or> (s \<noteq> [] \<and> hd s \<noteq> CHR ''/'' \<and> glob_match (CHR ''*'' # ps) (tl s))"
  "glob_match (CHR ''?'' # ps) s \<longleftrightarrow>
     s \<noteq> [] \<and> hd s \<noteq> CHR ''/'' \<and> glob_match ps (drop (max 1 (rune_len s)) s)"
  "p \<noteq> CHR ''*'' \<Longrightarrow> p \<noteq> CHR ''?'' \<Longrightarrow>
     glob_match (p # ps) s \<longleftrightarrow> s \<noteq> [] \<and> hd s = p \<and> glob_match ps (tl s)"
  by (subst glob_match.simps, simp)+

declare glob_match_simps(2) [simp del]

lemma glob_literal:
  "CHR ''*'' \<notin> set a \<Longrightarrow> CHR ''?'' \<notin> set a \<Longrightarrow> glob_match (a @ ps) s \<longleftrightarrow> (\<exists>r. s = a @ r \<and> glob_match ps r)"
proof (induction a arbitrary: s)
  case (Cons p a)
  then show ?case by (cases s) auto
qed simp

lemma glob_star:
  "glob_match (CHR ''*'' # ps) s \<longleftrightarrow> (\<exists>a r. s = a @ r \<and> CHR ''/'' \<notin> set a \<and> glob_match ps r)"
proof (induction s)
  case Nil
  then show ?case by (subst glob_match_simps(2)) simp
next
  case (Cons c s)
  show ?case
  proof
    assume "glob_match (CHR ''*'' # ps) (c # s)"
    then consider "glob_match ps (c # s)" | "c \<noteq> CHR ''/''" "glob_match (CHR ''*'' # ps) s"
      by (subst (asm) glob_match_simps(2)) auto
    then show "\<exists>a r. c # s = a @ r \<and> CHR ''/'' \<notin> set a \<and> glob_match ps r"
    proof cases
      case 1
      then show ?thesis by (metis append_Nil empty_iff list.set(1))
    next
      case 2
      with Cons.IH obtain a r where "s = a @ r" "CHR ''/'' \<notin> set a" "glob_match ps r" by blast
      with 2(1) show ?thesis by (metis append_Cons set_ConsD)
    qed
  next
    assume "\<exists>a r. c # s = a @ r \<and> CHR ''/'' \<notin> set a \<and> glob_match ps r"
    then obtain a r where ar: "c # s = a @ r" "CHR ''/'' \<notin> set a" "glob_match ps r" by blast
    show "glob_match (CHR ''*'' # ps) (c # s)"
    proof (cases a)
      case Nil
      with ar show ?thesis by (subst glob_match_simps(2)) simp
    next
      case (Cons x a')
      with ar have "glob_match (CHR ''*'' # ps) s" using Cons.IH by auto
      with ar Cons show ?thesis by (subst glob_match_simps(2)) auto
    qed
  qed
qed

text \<open>\<open>*.parquet\<close> matches the names with that ending.\<close>

lemma glob_parquet: "glob_match ''*.parquet'' s \<longleftrightarrow> (\<exists>a. s = a @ ''.parquet'' \<and> CHR ''/'' \<notin> set a)"
proof -
  have "glob_match ''.parquet'' r \<longleftrightarrow> r = ''.parquet''" for r
    using glob_literal [of "''.parquet''" "[]" r] by simp
  then show ?thesis by (auto simp: glob_star)
qed

lemma glob_ascii:
  "c \<noteq> CHR ''/'' \<Longrightarrow> byte c < 0x80 \<Longrightarrow> glob_match (CHR ''?'' # ps) (c # s) \<longleftrightarrow> glob_match ps s"
  by (auto simp: rune_spec_def Let_def)

subsection \<open>The file system\<close>

text \<open>
  What a call does: all of it, or an error after the first \<open>n\<close> parts of its effect (directories
  made, 0 for a file not opened and \<open>Suc n\<close> for \<open>n\<close> bytes written, 0 or 1 for a rename).
\<close>

datatype os_outcome = Works | Fails gerror nat

record fsys =
  fs_dirs :: "fpath list"
  fs_files :: "(fpath \<times> bytes) list"
  fs_script :: "os_outcome list"

abbreviation file_at :: "fsys \<Rightarrow> fpath \<Rightarrow> bytes option" where
  "file_at fs p \<equiv> map_of (fs_files fs) p"

definition next_outcome :: "fsys \<Rightarrow> os_outcome \<times> fsys" where
  "next_outcome fs =
     (case fs_script fs of [] \<Rightarrow> (Works, fs) | o1 # os \<Rightarrow> (o1, fs\<lparr>fs_script := os\<rparr>))"

text \<open>The root, the working directory and its parents are directories always.\<close>

definition is_dir :: "fsys \<Rightarrow> fpath \<Rightarrow> bool" where
  "is_dir fs p \<longleftrightarrow> p \<in> set (fs_dirs fs) \<or> set (snd p) \<subseteq> {''..''}"

definition is_file :: "fsys \<Rightarrow> fpath \<Rightarrow> bool" where
  "is_file fs p \<longleftrightarrow> p \<in> set (map fst (fs_files fs))"

text \<open>\<open>os.MkdirAll\<close>: makes the missing directories from the top, stops at a file in the way.\<close>

fun mkdir_walk :: "nat option \<Rightarrow> fpath list \<Rightarrow> fsys \<Rightarrow> bool \<times> fsys" where
  "mkdir_walk n [] fs = (True, fs)"
| "mkdir_walk n (p # ps) fs =
     (if is_file fs p then (False, fs)
      else if is_dir fs p then mkdir_walk n ps fs
      else (case n of
              None \<Rightarrow> mkdir_walk None ps (fs\<lparr>fs_dirs := p # fs_dirs fs\<rparr>)
            | Some 0 \<Rightarrow> (False, fs)
            | Some (Suc m) \<Rightarrow> mkdir_walk (Some m) ps (fs\<lparr>fs_dirs := p # fs_dirs fs\<rparr>)))"

definition path_prefixes :: "fpath \<Rightarrow> fpath list" where
  "path_prefixes p = map (\<lambda>n. (fst p, take n (snd p))) [1..<Suc (length (snd p))]"

definition os_mkdir_all :: "fpath \<Rightarrow> fsys \<Rightarrow> gerror option \<times> fsys" where
  "os_mkdir_all p fs =
     (case next_outcome fs of
        (Works, fs1) \<Rightarrow>
          (case mkdir_walk None (path_prefixes p) fs1 of
             (True, fs2) \<Rightarrow> (None, fs2)
           | (False, fs2) \<Rightarrow> (Some (ErrNew ''not a directory''), fs2))
      | (Fails err n, fs1) \<Rightarrow> (Some err, snd (mkdir_walk (Some n) (path_prefixes p) fs1)))"

text \<open>\<open>os.WriteFile\<close>: created or truncated, then written.\<close>

definition os_write_file :: "fpath \<Rightarrow> bytes \<Rightarrow> fsys \<Rightarrow> gerror option \<times> fsys" where
  "os_write_file p data fs =
     (case next_outcome fs of
        (out, fs1) \<Rightarrow>
          if is_dir fs1 p then (Some (ErrNew ''is a directory''), fs1)
          else if \<not> is_dir fs1 (filepath_dir p) then (Some (ErrNew ''no such file or directory''), fs1)
          else (case out of
                  Works \<Rightarrow> (None, fs1\<lparr>fs_files := AList.update p data (fs_files fs1)\<rparr>)
                | Fails err 0 \<Rightarrow> (Some err, fs1)
                | Fails err (Suc n) \<Rightarrow>
                    (Some err, fs1\<lparr>fs_files := AList.update p (take n data) (fs_files fs1)\<rparr>)))"

text \<open>\<open>os.Rename\<close> of a file: replaces the target in one step.\<close>

definition os_rename :: "fpath \<Rightarrow> fpath \<Rightarrow> fsys \<Rightarrow> gerror option \<times> fsys" where
  "os_rename a b fs =
     (case next_outcome fs of
        (out, fs1) \<Rightarrow>
          (case file_at fs1 a of
             None \<Rightarrow> (Some (ErrNew ''no such file or directory''), fs1)
           | Some data \<Rightarrow>
               if is_dir fs1 b then (Some (ErrNew ''file exists''), fs1)
               else (let fs2 = fs1\<lparr>fs_files := AList.update b data (AList.delete a (fs_files fs1))\<rparr>
                     in case out of
                          Works \<Rightarrow> (None, fs2)
                        | Fails err n \<Rightarrow> (Some err, if n = 0 then fs1 else fs2))))"

text \<open>The names in a directory, sorted, and \<open>filepath.Glob(filepath.Join(dir, pat))\<close>.\<close>

definition dir_names :: "fsys \<Rightarrow> fpath \<Rightarrow> string list" where
  "dir_names fs d =
     sort (remdups (map (last \<circ> snd)
       (filter (\<lambda>p. snd p \<noteq> [] \<and> filepath_dir p = d) (fs_dirs fs @ map fst (fs_files fs)))))"

definition filepath_glob :: "fsys \<Rightarrow> fpath \<Rightarrow> string \<Rightarrow> fpath list" where
  "filepath_glob fs d pat =
     map (\<lambda>n. (fst d, snd d @ [n])) (filter (glob_match pat) (dir_names fs d))"

lemma next_outcome_files:
  "next_outcome fs = (out, fs1) \<Longrightarrow> fs_files fs1 = fs_files fs"
  "next_outcome fs = (out, fs1) \<Longrightarrow> fs_dirs fs1 = fs_dirs fs"
  by (auto simp: next_outcome_def split: list.splits)

lemma next_outcome_script:
  "set (fs_script fs) \<subseteq> {Works} \<Longrightarrow> next_outcome fs = (out, fs1) \<Longrightarrow>
     out = Works \<and> set (fs_script fs1) \<subseteq> {Works}"
  by (auto simp: next_outcome_def split: list.splits)

lemma mkdir_walk_files [simp]: "fs_files (snd (mkdir_walk n ps fs)) = fs_files fs"
  by (induction n ps fs rule: mkdir_walk.induct) (auto split: option.splits nat.splits)

lemma mkdir_walk_script [simp]: "fs_script (snd (mkdir_walk n ps fs)) = fs_script fs"
  by (induction n ps fs rule: mkdir_walk.induct) (auto split: option.splits nat.splits)

lemma mkdir_walk_mono: "set (fs_dirs fs) \<subseteq> set (fs_dirs (snd (mkdir_walk n ps fs)))"
  by (induction n ps fs rule: mkdir_walk.induct) (auto split: option.splits nat.splits)

lemma mkdir_walk_bound:
  "p \<in> set (fs_dirs (snd (mkdir_walk n ps fs))) \<Longrightarrow> p \<in> set (fs_dirs fs) \<or> (p \<in> set ps \<and> \<not> is_file fs p)"
proof (induction n ps fs rule: mkdir_walk.induct)
  case (2 n q ps fs)
  have f: "is_file (fs\<lparr>fs_dirs := q # fs_dirs fs\<rparr>) p = is_file fs p" by (simp add: is_file_def)
  from 2 show ?case by (auto split: if_splits option.splits nat.splits simp: f)
qed simp

lemma mkdir_walk_is_dir:
  "mkdir_walk n ps fs = (True, fs') \<Longrightarrow> p \<in> set ps \<Longrightarrow> is_dir fs' p"
proof (induction n ps fs rule: mkdir_walk.induct)
  case (2 n q ps fs)
  have mono: "is_dir f p \<Longrightarrow> is_dir (snd (mkdir_walk m ps f)) p" for f m p
    using mkdir_walk_mono [of f m ps] by (auto simp: is_dir_def)
  show ?case
  proof (cases "p = q")
    case True
    with "2.prems" mono [of fs p n] mono [of "fs\<lparr>fs_dirs := q # fs_dirs fs\<rparr>" p] show ?thesis
      by (auto simp: is_dir_def split: if_splits option.splits nat.splits) (metis list.set_intros(1) snd_conv)+
  next
    case False
    with 2 show ?thesis by (auto split: if_splits option.splits nat.splits)
  qed
qed simp

lemma os_mkdir_all_files:
  assumes "os_mkdir_all p fs = (r, fs')"
  shows "fs_files fs' = fs_files fs"
proof -
  obtain out fs1 where n: "next_outcome fs = (out, fs1)" by (cases "next_outcome fs")
  have "fs' = snd (mkdir_walk m (path_prefixes p) fs1)" if "m = (case out of Works \<Rightarrow> None | Fails _ k \<Rightarrow> Some k)" for m
    using assms n that by (cases out) (auto simp: os_mkdir_all_def split: prod.splits bool.splits)
  with next_outcome_files(1) [OF n] show ?thesis by simp
qed

lemma os_mkdir_all_ok:
  assumes "os_mkdir_all p fs = (None, fs')" "snd p \<noteq> []"
  shows "is_dir fs' p"
proof -
  obtain out fs1 where n: "next_outcome fs = (out, fs1)" by (cases "next_outcome fs")
  with assms(1) have w: "mkdir_walk None (path_prefixes p) fs1 = (True, fs')"
    by (cases out) (auto simp: os_mkdir_all_def split: prod.splits bool.splits)
  have "(fst p, take (length (snd p)) (snd p)) \<in> set (path_prefixes p)"
    using assms(2) unfolding path_prefixes_def set_map by (intro imageI) (cases "snd p", auto)
  then have "p \<in> set (path_prefixes p)" by simp
  with w show ?thesis by (rule mkdir_walk_is_dir)
qed

text \<open>A write changes its own path only; a rename its two paths only.\<close>

lemma os_write_file_other:
  assumes "os_write_file p data fs = (r, fs')"
  shows "q \<noteq> p \<Longrightarrow> file_at fs' q = file_at fs q" "fs_dirs fs' = fs_dirs fs"
    "r = None \<Longrightarrow> file_at fs' p = Some data"
proof -
  obtain out fs1 where n: "next_outcome fs = (out, fs1)" by (cases "next_outcome fs")
  note f = next_outcome_files [OF n]
  from assms n f show "q \<noteq> p \<Longrightarrow> file_at fs' q = file_at fs q" "fs_dirs fs' = fs_dirs fs"
    "r = None \<Longrightarrow> file_at fs' p = Some data"
    by (auto simp: os_write_file_def split: if_splits os_outcome.splits nat.splits)
qed

lemma os_rename_effect:
  assumes "os_rename a b fs = (r, fs')" "a \<noteq> b"
  shows "fs_dirs fs' = fs_dirs fs"
    "(\<forall>q. file_at fs' q = file_at fs q) \<and> r \<noteq> None \<or>
     file_at fs' b = file_at fs a \<and> file_at fs' a = None \<and> (\<forall>q. q \<noteq> a \<longrightarrow> q \<noteq> b \<longrightarrow> file_at fs' q = file_at fs q)"
proof -
  obtain out fs1 where n: "next_outcome fs = (out, fs1)" by (cases "next_outcome fs")
  note f = next_outcome_files [OF n]
  from assms n f show "fs_dirs fs' = fs_dirs fs"
    "(\<forall>q. file_at fs' q = file_at fs q) \<and> r \<noteq> None \<or>
     file_at fs' b = file_at fs a \<and> file_at fs' a = None \<and> (\<forall>q. q \<noteq> a \<longrightarrow> q \<noteq> b \<longrightarrow> file_at fs' q = file_at fs q)"
    by (auto simp: os_rename_def Let_def split: if_splits os_outcome.splits option.splits)
qed

lemma dir_names_iff:
  "n \<in> set (dir_names fs d) \<longleftrightarrow>
     (fst d, snd d @ [n]) \<in> set (fs_dirs fs) \<or> file_at fs (fst d, snd d @ [n]) \<noteq> None"
proof -
  let ?ps = "fs_dirs fs @ map fst (fs_files fs)"
  have q: "snd p \<noteq> [] \<and> filepath_dir p = d \<and> last (snd p) = n \<longleftrightarrow> p = (fst d, snd d @ [n])" for p
    by (cases p; cases d) (auto simp: filepath_dir_def)
  have "n \<in> set (dir_names fs d) \<longleftrightarrow> (\<exists>p \<in> set ?ps. snd p \<noteq> [] \<and> filepath_dir p = d \<and> last (snd p) = n)"
    unfolding dir_names_def by (simp add: image_iff Bex_def) blast
  also have "\<dots> \<longleftrightarrow> (fst d, snd d @ [n]) \<in> set ?ps" unfolding q by blast
  also have "\<dots> \<longleftrightarrow> (fst d, snd d @ [n]) \<in> set (fs_dirs fs) \<or> file_at fs (fst d, snd d @ [n]) \<noteq> None"
    by (simp only: set_append Un_iff map_of_eq_None_iff set_map not_not)
  finally show ?thesis .
qed

lemma filepath_glob_iff:
  "p \<in> set (filepath_glob fs d pat) \<longleftrightarrow>
     (\<exists>n. p = (fst d, snd d @ [n]) \<and> glob_match pat n \<and> (p \<in> set (fs_dirs fs) \<or> file_at fs p \<noteq> None))"
  by (auto simp: filepath_glob_def dir_names_iff)

end
