(* ===== verification/Archive_Rows.thy ===== *)
theory Archive_Rows
  imports Wire Go_Files
begin

section \<open>Archive rows (\<open>internal/archiver/parquet.go\<close>, \<open>flush.go\<close>)\<close>

text \<open>
  The row the archive keeps, its decoding from a record, the directory it belongs to, the canonical
  order \<open>Less\<close> and the time stamp in file names. Parquet itself is a library: \<open>parquet_lib\<close> is its
  interface and \<open>parquet_contract\<close> what the archive relies on.
\<close>

subsection \<open>Rows\<close>

record row =
  r_station :: bytes
  r_ts :: gtime
  r_raw :: bytes

text \<open>\<open>decodeRow\<close>: always a row, and an error that says why it is only the bytes.\<close>

definition decode_row :: "krecord \<Rightarrow> row \<times> gerror option" where
  "decode_row rec =
     (let bytes_only = \<lparr>r_station = [], r_ts = zero_time, r_raw = kr_value rec\<rparr>
      in case unmarshal_event (kr_value rec) of
           None \<Rightarrow> (bytes_only, Some (ErrNew ''json''))
         | Some e \<Rightarrow>
             if e_station e = [] \<or> is_zero (e_ts e) then
               (bytes_only, Some (ErrNew ''missing station_id or ts''))
             else (\<lparr>r_station = e_station e, r_ts = e_ts e, r_raw = e_raw e\<rparr>, None))"

text \<open>\<open>Row.partition\<close>: the directory of the row's UTC date.\<close>

definition unknown_dir :: string where
  "unknown_dir = ''dt=unknown''"

definition row_partition :: "row \<Rightarrow> string" where
  "row_partition r =
     (if r_station r = [] \<or> is_zero (r_ts r) then unknown_dir else ''dt='' @ format_date (utc (r_ts r)))"

text \<open>\<open>Less\<close>: event time, then station, then line.\<close>

definition row_less :: "row \<Rightarrow> row \<Rightarrow> int" where
  "row_less a b =
     cmp_or [time_compare (r_ts a) (r_ts b), cmp_compare (r_station a) (r_station b),
             cmp_compare (r_raw a) (r_raw b)]"

definition stamp :: "gtime \<Rightarrow> string" where
  "stamp t = format_stamp (utc t)"

subsection \<open>Parquet\<close>

text \<open>\<open>Write\<close> of all rows, \<open>Close\<close> with the buffer it leaves, and \<open>ReadFile\<close> of a file's bytes.\<close>

record parquet_lib =
  pq_write :: "row list \<Rightarrow> gerror option"
  pq_close :: "row list \<Rightarrow> bytes result"
  pq_read :: "bytes \<Rightarrow> row list result"

text \<open>\<open>writeParquet\<close>.\<close>

definition write_parquet :: "parquet_lib \<Rightarrow> row list \<Rightarrow> bytes result" where
  "write_parquet pq rows =
     (case pq_write pq rows of
        Some err \<Rightarrow> Inl (ErrWrap ''write rows'' err)
      | None \<Rightarrow>
          (case pq_close pq rows of
             Inl err \<Rightarrow> Inl (ErrWrap ''close parquet writer'' err)
           | Inr data \<Rightarrow> Inr data))"

text \<open>
  What comes back of a row: its strings, and its time as a UTC instant cut to microseconds, the unit of
  the schema. Nothing is asked of the zero time.
\<close>

definition archived_as :: "row \<Rightarrow> row \<Rightarrow> bool" where
  "archived_as r r' \<longleftrightarrow> r_station r' = r_station r \<and> r_raw r' = r_raw r \<and>
     (\<not> is_zero (r_ts r) \<longrightarrow> r_ts r' = trunc_micro (r_ts r))"

definition parquet_contract :: "parquet_lib \<Rightarrow> bool" where
  "parquet_contract pq \<longleftrightarrow>
     (\<forall>rows data. pq_close pq rows = Inr data \<longrightarrow>
        (\<exists>rows'. pq_read pq data = Inr rows' \<and> list_all2 archived_as rows rows'))"

lemma write_parquet_read:
  "parquet_contract pq \<Longrightarrow> write_parquet pq rows = Inr data \<Longrightarrow>
     \<exists>rows'. pq_read pq data = Inr rows' \<and> list_all2 archived_as rows rows'"
  by (auto simp: write_parquet_def parquet_contract_def split: option.splits sum.splits)

definition trunc_row :: "row \<Rightarrow> row" where
  "trunc_row r = r\<lparr>r_ts := trunc_micro (r_ts r)\<rparr>"

lemma archived_as_trunc: "archived_as r r' \<Longrightarrow> \<not> is_zero (r_ts r) \<Longrightarrow> r' = trunc_row r"
  by (cases r, cases r') (simp add: archived_as_def trunc_row_def)

subsection \<open>The canonical order\<close>

lemma time_compare_simps [simp]:
  "time_compare t u < 0 \<longleftrightarrow> t_sec t < t_sec u \<or> (t_sec t = t_sec u \<and> t_nsec t < t_nsec u)"
  "time_compare t u = 0 \<longleftrightarrow> t_sec t = t_sec u \<and> t_nsec t = t_nsec u"
  by (auto simp: time_compare_def)

text \<open>\<open>row_less\<close> is the lexicographic order of the rows' keys.\<close>

definition row_key_less :: "row \<Rightarrow> row \<Rightarrow> bool" where
  "row_key_less a b \<longleftrightarrow>
     t_sec (r_ts a) < t_sec (r_ts b) \<or> (t_sec (r_ts a) = t_sec (r_ts b) \<and>
     (t_nsec (r_ts a) < t_nsec (r_ts b) \<or> (t_nsec (r_ts a) = t_nsec (r_ts b) \<and>
     (r_station a < r_station b \<or> (r_station a = r_station b \<and> r_raw a < r_raw b)))))"

lemma row_less_neg: "row_less a b < 0 \<longleftrightarrow> row_key_less a b"
  by (auto simp: row_less_def row_key_less_def)

lemma row_less_zero:
  "row_less a b = 0 \<longleftrightarrow> time_equal (r_ts a) (r_ts b) \<and> r_station a = r_station b \<and> r_raw a = r_raw b"
  by (auto simp: row_less_def time_equal_def)

lemma row_less_total: "\<not> row_less a b \<le> 0 \<longleftrightarrow> row_key_less b a"
proof -
  have "row_less a b < 0 \<or> row_less a b = 0 \<or> row_key_less b a"
    by (simp add: row_less_neg row_less_zero row_key_less_def time_equal_def) fastforce
  moreover have "row_key_less b a \<Longrightarrow> \<not> row_key_less a b \<and> row_less a b \<noteq> 0"
    by (auto simp: row_less_zero row_key_less_def time_equal_def)
  ultimately show ?thesis by (metis linorder_not_le order_le_less row_less_neg)
qed

lemma row_key_less_trans: "row_key_less a b \<Longrightarrow> row_key_less b c \<Longrightarrow> row_key_less a c"
  unfolding row_key_less_def by auto

lemma row_key_less_cases: "row_key_less a c \<Longrightarrow> row_key_less a b \<or> row_key_less b c"
  unfolding row_key_less_def by (auto simp: not_less)

lemma weak_order_row_less: "weak_order row_less"
  unfolding weak_order_def
proof (intro conjI allI impI)
  fix a b
  show "row_less a b \<le> 0 \<or> row_less b a \<le> 0"
    using row_less_total [of a b] row_less_neg [of b a] by linarith
next
  fix a b c assume "row_less a b \<le> 0" "row_less b c \<le> 0"
  then show "row_less a c \<le> 0" using row_less_total row_key_less_cases by metis
qed

lemma row_less_sym: "row_less a b < 0 \<longleftrightarrow> \<not> row_less b a \<le> 0"
  using row_less_total [of b a] row_less_neg [of a b] by simp

subsection \<open>Names of directories and files\<close>

lemma fmt_year_chars: "c \<in> set (fmt_year y) \<Longrightarrow> is_digit c \<or> c = CHR ''-''"
  by (auto simp: fmt_year_def dest: pad_dec_digits dec_nat_digits split: if_splits)

lemma format_date_digits: "c \<in> set (format_date t) \<Longrightarrow> is_digit c \<or> c = CHR ''-''"
  by (auto simp: format_date_def dest: pad_dec_digits fmt_year_chars split: prod.splits)

lemma stamp_chars: "c \<in> set (stamp t) \<Longrightarrow> is_digit c \<or> c \<in> set ''-T.Z''"
  by (auto simp: stamp_def format_stamp_def Let_def dest: pad_dec_digits fmt_year_chars split: prod.splits)

lemma plain_partition [simp]: "plain_elem (row_partition r)"
proof -
  have "CHR ''/'' \<notin> set (format_date t)" for t
    using format_date_digits [of "CHR ''/''" t] is_digit_not by fastforce
  then show ?thesis by (auto simp: plain_elem_def row_partition_def unknown_dir_def)
qed

text \<open>\<open>fmt.Sprintf("%s-%s.parquet", stamp, stamp)\<close>.\<close>

definition file_name :: "gtime \<Rightarrow> gtime \<Rightarrow> string" where
  "file_name a b = stamp a @ ''-'' @ stamp b @ ''.parquet''"

lemma stamp_no_slash: "CHR ''/'' \<notin> set (stamp t)"
  using stamp_chars [of "CHR ''/''" t] is_digit_not by fastforce

lemma file_name_no_slash: "CHR ''/'' \<notin> set (file_name a b)"
  using stamp_chars [of "CHR ''/''"] is_digit_not by (fastforce simp: file_name_def)

lemma length_file_name: "7 < length (file_name a b)"
  by (simp add: file_name_def)

lemma plain_file_name [simp]: "plain_elem (file_name a b)"
  using file_name_no_slash length_file_name [of a b] unfolding plain_elem_def by fastforce

subsection \<open>Decoding\<close>

lemma date_not_unknown: "''dt='' @ format_date t \<noteq> unknown_dir"
  using format_date_digits [of "CHR ''u''" t] by (auto simp: unknown_dir_def is_digit_def)

lemma decode_row_unknown:
  "row_partition (fst (decode_row rec)) = unknown_dir \<longleftrightarrow> snd (decode_row rec) \<noteq> None"
  "snd (decode_row rec) \<noteq> None \<Longrightarrow> fst (decode_row rec) = \<lparr>r_station = [], r_ts = zero_time, r_raw = kr_value rec\<rparr>"
  using date_not_unknown
  by (auto simp: decode_row_def Let_def row_partition_def split: option.splits if_splits)

text \<open>C35: no record is dropped and none is misrouted: \<open>decodeRow\<close> gives a row for every record; it goes to
  \<open>dt=unknown\<close> exactly when the record does not decode, or decodes without a station or a time, and then the row is the record's bytes;
  otherwise it goes to the directory of its UTC date.\<close>

theorem decode_row_partition:
  "case decode_row rec of
     (r, Some err) \<Rightarrow>
       r = \<lparr>r_station = [], r_ts = zero_time, r_raw = kr_value rec\<rparr> \<and> row_partition r = unknown_dir \<and>
       (unmarshal_event (kr_value rec) = None \<or>
        (\<exists>e. unmarshal_event (kr_value rec) = Some e \<and> (e_station e = [] \<or> is_zero (e_ts e))))
   | (r, None) \<Rightarrow>
       (\<exists>e. unmarshal_event (kr_value rec) = Some e \<and> e_station e \<noteq> [] \<and> \<not> is_zero (e_ts e) \<and>
          r = \<lparr>r_station = e_station e, r_ts = e_ts e, r_raw = e_raw e\<rparr> \<and>
          row_partition r = ''dt='' @ format_date (utc (e_ts e)) \<and> row_partition r \<noteq> unknown_dir)"
  using date_not_unknown
  by (auto simp: decode_row_def Let_def row_partition_def split: option.splits if_splits)

text \<open>The archive keeps every event the gateway publishes with a station and a time: its record decodes
  to the row of the same station, time and line, without an error.\<close>

theorem decode_row_of_record:
  assumes "json_event e" "e_station e \<noteq> []" "\<not> is_zero (e_ts e)"
  shows "\<exists>rec. wire_record topic e = Inr rec \<and>
    decode_row rec = (\<lparr>r_station = e_station e, r_ts = e_ts e, r_raw = e_raw e\<rparr>, None)"
  using wire_record_ok [OF assms(1), of topic] assms(2,3) by (auto simp: decode_row_def)

theorem decode_row_of_record_witness:
  "\<exists>rec. wire_record raw_topic sample_event = Inr rec \<and>
    decode_row rec = (\<lparr>r_station = ''st'', r_ts = sample_time, r_raw = ''MSG,1''\<rparr>, None)"
  using decode_row_of_record [of sample_event raw_topic] sample_event_ok
  by (simp add: sample_event_def)

end
