(* ===== verification/Recovery.thy ===== *)
theory Recovery
  imports Consume
begin

section \<open>A consumer group across restarts\<close>

text \<open>
  What a service keeps when it stops is its storage and the offsets the broker holds for its group; what
  it had polled and not committed is handed out again. \<open>group_life\<close> are the offsets and the storage after
  any number of sessions of \<open>consume.Batch\<close>, each with its own client, host and limits and stopped after
  any iteration: returned, failed, or killed between two iterations. A process killed inside an iteration
  leaves what an iteration leaves whose next call fails without an effect, so those stops are among them.
  \<open>life_invariant\<close> reduces a claim about whole lives to one flush.
\<close>

subsection \<open>The log and the group's offsets\<close>

text \<open>A topic's partition, its log, and the group's committed offset in each.\<close>

type_synonym tpart = "string \<times> int"
type_synonym plog = "tpart \<Rightarrow> krecord list"
type_synonym offsets = "tpart \<Rightarrow> nat"

definition part_of :: "krecord \<Rightarrow> tpart" where
  "part_of rec = (kr_topic rec, kr_partition rec)"

definition of_part :: "tpart \<Rightarrow> krecord list \<Rightarrow> krecord list" where
  "of_part p recs = filter (\<lambda>rec. part_of rec = p) recs"

definition advance :: "offsets \<Rightarrow> krecord list \<Rightarrow> offsets" where
  "advance off recs = (\<lambda>p. off p + length (of_part p recs))"

text \<open>A session reads each partition in order from the group's offset; across partitions in any order.\<close>

definition hands_out :: "plog \<Rightarrow> offsets \<Rightarrow> krecord list \<Rightarrow> bool" where
  "hands_out L off recs \<longleftrightarrow> (\<forall>p. \<exists>n. of_part p recs = take n (drop (off p) (L p)))"

lemma of_part_simps [simp]:
  "of_part p [] = []" "of_part p (xs @ ys) = of_part p xs @ of_part p ys" "set (of_part p xs) = {rec \<in> set xs. part_of rec = p}"
  by (simp_all add: of_part_def)

lemma advance_simps [simp]: "advance off [] = off" "advance (advance off xs) ys = advance off (xs @ ys)"
  by (simp_all add: advance_def fun_eq_iff)

lemma hands_out_Nil [simp]: "hands_out L off []"
  unfolding hands_out_def by (metis of_part_simps(1) take_0)

lemma hands_outI: "(\<And>p. of_part p recs = take (length (of_part p recs)) (drop (off p) (L p))) \<Longrightarrow> hands_out L off recs"
  unfolding hands_out_def by blast

lemma hands_outD: "hands_out L off recs \<Longrightarrow> of_part p recs = take (length (of_part p recs)) (drop (off p) (L p))"
  unfolding hands_out_def by (metis append_take_drop_id append_eq_conv_conj)

lemma take_append_split:
  assumes "xs @ ys = take (length xs + length ys) zs"
  shows "xs = take (length xs) zs \<and> ys = take (length ys) (drop (length xs) zs)"
  using arg_cong [OF assms, of "take (length xs)"] arg_cong [OF assms, of "drop (length xs)"] by (simp add: drop_take)

lemma hands_out_append:
  assumes "hands_out L off (xs @ ys)"
  shows "hands_out L off xs" "hands_out L (advance off xs) ys"
proof -
  have "of_part p xs @ of_part p ys = take (length (of_part p xs) + length (of_part p ys)) (drop (off p) (L p))" for p
    using hands_outD [OF assms, of p] by simp
  from take_append_split [OF this]
  have "of_part p xs = take (length (of_part p xs)) (drop (off p) (L p)) \<and>
      of_part p ys = take (length (of_part p ys)) (drop (length (of_part p xs)) (drop (off p) (L p)))" for p by blast
  then show "hands_out L off xs" "hands_out L (advance off xs) ys"
    by (auto intro!: hands_outI simp: advance_def add.commute)
qed

lemma hands_out_nth:
  assumes "hands_out L off recs" "off p \<le> i" "i < advance off recs p"
  shows "i < length (L p)" "L p ! i \<in> set recs"
proof -
  note t = hands_outD [OF assms(1), of p]
  have i: "i - off p < length (of_part p recs)" using assms(2,3) by (auto simp: advance_def)
  from arg_cong [OF t, of length] i assms(2) show "i < length (L p)" by auto
  have "of_part p recs ! (i - off p) = L p ! i"
    using i assms(2) arg_cong [OF t, of "\<lambda>xs. xs ! (i - off p)"] arg_cong [OF t, of length] by simp
  with nth_mem [OF i] show "L p ! i \<in> set recs" by simp
qed

lemma hands_out_mem:
  assumes "hands_out L off recs" "rec \<in> set recs"
  obtains i where "off (part_of rec) \<le> i" "i < advance off recs (part_of rec)" "i < length (L (part_of rec))"
    "L (part_of rec) ! i = rec"
proof -
  let ?p = "part_of rec"
  note t = hands_outD [OF assms(1), of ?p]
  have "rec \<in> set (of_part ?p recs)" using assms(2) by simp
  then obtain j where j: "j < length (of_part ?p recs)" "of_part ?p recs ! j = rec" by (metis in_set_conv_nth)
  have l: "length (of_part ?p recs) \<le> length (L ?p) - off ?p" using arg_cong [OF t, of length] by simp
  have "rec = L ?p ! (off ?p + j)" using j l arg_cong [OF t, of "\<lambda>xs. xs ! j"] by simp
  with j l show thesis by (intro that [of "off ?p + j"]) (auto simp: advance_def)
qed

lemma advance_le: "off p \<le> advance off recs p"
  by (simp add: advance_def)

text \<open>A log of one record, for the concrete lives.\<close>

definition log_of :: "krecord \<Rightarrow> plog" where
  "log_of rec p = (if p = part_of rec then [rec] else [])"

lemma log_of_hands_out: "hands_out (log_of rec) (\<lambda>p. 0) [rec]"
proof (rule hands_outI)
  fix p
  show "of_part p [rec] = take (length (of_part p [rec])) (drop 0 (log_of rec p))"
    by (cases "p = part_of rec") (simp_all add: of_part_def log_of_def)
qed

lemma log_of_index: "i < length (log_of rec p) \<Longrightarrow> p = part_of rec \<and> i = 0"
  by (auto simp: log_of_def split: if_splits)

lemma log_of_simps [simp]: "log_of rec (part_of rec) = [rec]" "advance (\<lambda>p. 0) [rec] (part_of rec) = 1"
  by (simp_all add: log_of_def advance_def of_part_def)

subsection \<open>Lives\<close>

inductive group_life ::
  "(krecord \<Rightarrow> 'a result) \<Rightarrow> ('k kclient \<Rightarrow> ('a, 'k, 'e, 's) flush_fn) \<Rightarrow> ('s \<Rightarrow> 'd) \<Rightarrow> plog \<Rightarrow> 'd \<Rightarrow>
   offsets \<Rightarrow> 'd \<Rightarrow> bool"
  for decode flush disk L d0 where
  life_new: "group_life decode flush disk L d0 (\<lambda>p. 0) d0"
| life_session: "group_life decode flush disk L d0 off d \<Longrightarrow>
     kafka_contract cl polled committed \<Longrightarrow> polled (kafka w0) = [] \<Longrightarrow> committed (kafka w0) = [] \<Longrightarrow> disk (sink w0) = d \<Longrightarrow>
     batch_reach cl ho fr fsec decode (flush cl) w0 st \<Longrightarrow> batch_iter cl ho fr fsec decode (flush cl) st = out \<Longrightarrow>
     hands_out L off (polled (kafka (iter_world out))) \<Longrightarrow>
     group_life decode flush disk L d0 (advance off (committed (kafka (iter_world out)))) (disk (sink (iter_world out)))"

text \<open>An iteration polls; then it leaves the storage alone, or flushes all that is pending.\<close>

lemma iter_poll_flush:
  assumes "batch_iter cl ho fr fsec decode flush st = out"
  obtains (kept) fs k where
      "k_poll cl (last_flush st + fsec * second) (fr - int (length (pending st))) (kafka (b_world st)) = (fs, k)"
      "kafka (iter_world out) = k" "sink (iter_world out) = sink (b_world st)"
  | (flushed) fs k rows w res w' where
      "k_poll cl (last_flush st + fsec * second) (fr - int (length (pending st))) (kafka (b_world st)) = (fs, k)"
      "decoded decode (f_records fs) rows" "kafka w = k" "sink w = sink (b_world st)"
      "flush (pending st @ rows) w = (res, w')" "kafka (iter_world out) = kafka w'" "sink (iter_world out) = sink w'"
proof (cases out)
  case (Inr st')
  with assms have "batch_iter cl ho fr fsec decode flush st = Inr st'" by simp
  then show thesis
  proof (cases rule: batch_iter_InrE)
    case (accumulate fs k rows w)
    with kept [of fs k] Inr show thesis by (simp add: iter_world_def)
  next
    case (flushed fs k rows w w4)
    with that(2) [of fs k rows w None w4] Inr show thesis by (simp add: iter_world_def)
  qed
next
  case (Inl a)
  obtain res w' where a: "a = (res, w')" by (cases a)
  with Inl assms have "batch_iter cl ho fr fsec decode flush st = Inl (res, w')" by simp
  then show thesis
  proof (cases rule: batch_iter_InlE)
    case (decode_failed fs k e)
    with kept [of fs k] Inl a show thesis by (simp add: iter_world_def)
  next
    case (cancelled fs k rows w)
    with flushed [of fs k rows w res w'] Inl a show thesis by (simp add: iter_world_def)
  next
    case (poll_failed fs k e)
    with kept [of fs k] Inl a show thesis by (simp add: iter_world_def)
  next
    case (flush_failed fs k rows w e)
    with flushed [of fs k rows w "Some e" w'] Inl a show thesis by (simp add: iter_world_def)
  qed
qed

context batch_sink
begin

lemma iter_polled:
  assumes c: "kafka_contract cl polled committed" and i: "batch_iter cl ho fr fsec decode (flush c cl) st = out"
  shows "\<exists>more. polled (kafka (iter_world out)) = polled (kafka (b_world st)) @ more"
  using i
proof (cases rule: iter_poll_flush)
  case (kept fs k)
  with kafka_contract_poll(1) [OF c kept(1)] show ?thesis by auto
next
  case (flushed fs k rows w res w')
  with kafka_contract_poll(1) [OF c flushed(1)] flush_polled [OF c flushed(5)] show ?thesis by auto
qed

text \<open>One iteration of a session, when one flush keeps \<open>P\<close>.\<close>

lemma iter_invariant:
  assumes c: "kafka_contract cl polled committed"
    and step: "\<And>off recs rows w res w'. P off (disk (sink w)) \<Longrightarrow> hands_out L off recs \<Longrightarrow> decoded decode recs rows \<Longrightarrow>
      flush c cl rows w = (res, w') \<Longrightarrow> P off (disk (sink w')) \<and>
        (committed (kafka w') \<noteq> committed (kafka w) \<longrightarrow> P (advance off recs) (disk (sink w')))"
    and cur: "polled (kafka (b_world st)) = committed (kafka (b_world st)) @ cur" "decoded decode cur (pending st)"
    and P: "P (advance off (committed (kafka (b_world st)))) (disk (sink (b_world st)))"
    and i: "batch_iter cl ho fr fsec decode (flush c cl) st = out"
    and h: "hands_out L off (polled (kafka (iter_world out)))"
  shows "P (advance off (committed (kafka (iter_world out)))) (disk (sink (iter_world out)))"
proof -
  let ?C = "committed (kafka (b_world st))"
  from i show "P (advance off (committed (kafka (iter_world out)))) (disk (sink (iter_world out)))"
  proof (cases rule: iter_poll_flush)
    case (kept fs k)
    with P kafka_contract_poll(2) [OF c kept(1)] show ?thesis by simp
  next
    case (flushed fs k rows w res w')
    let ?recs = "cur @ f_records fs"
    have pk: "polled k = ?C @ ?recs" "committed k = ?C"
      using kafka_contract_poll(1,2) [OF c flushed(1)] cur(1) by simp_all
    have "polled (kafka (iter_world out)) = ?C @ ?recs" using flush_polled [OF c flushed(5)] flushed pk by simp
    then have "hands_out L (advance off ?C) ?recs" using h hands_out_append(2) by simp
    moreover have "decoded decode ?recs (pending st @ rows)" using cur(2) flushed(2) by (rule decoded_append)
    moreover have "P (advance off ?C) (disk (sink w))" using P flushed(4) by simp
    ultimately have s: "P (advance off ?C) (disk (sink w'))"
        "committed (kafka w') \<noteq> committed (kafka w) \<Longrightarrow> P (advance (advance off ?C) ?recs) (disk (sink w'))"
      using step [OF _ _ _ flushed(5)] by blast+
    show ?thesis
    proof (cases "committed (kafka w') = committed (kafka w)")
      case True
      with s(1) flushed(3,6,7) pk(2) show ?thesis by simp
    next
      case False
      then have "committed (kafka w') = ?C @ ?recs" using flush_committed [OF c flushed(5)] flushed(3) pk(1) by simp
      with s(2) [OF False] flushed(6,7) show ?thesis by simp
    qed
  qed
qed

lemma reach_invariant:
  assumes c: "kafka_contract cl polled committed"
    and step: "\<And>off recs rows w res w'. P off (disk (sink w)) \<Longrightarrow> hands_out L off recs \<Longrightarrow> decoded decode recs rows \<Longrightarrow>
      flush c cl rows w = (res, w') \<Longrightarrow> P off (disk (sink w')) \<and>
        (committed (kafka w') \<noteq> committed (kafka w) \<longrightarrow> P (advance off recs) (disk (sink w')))"
    and new: "polled (kafka w0) = []" "committed (kafka w0) = []" "P off (disk (sink w0))"
    and r: "batch_reach cl ho fr fsec decode (flush c cl) w0 st" and h: "hands_out L off (polled (kafka (b_world st)))"
  shows "P (advance off (committed (kafka (b_world st)))) (disk (sink (b_world st)))"
  using r h
proof (induction rule: batch_reach.induct)
  case reach_start
  with new show ?case by simp
next
  case (reach_iter st st')
  obtain cur where cur: "polled (kafka (b_world st)) = committed (kafka (b_world st)) @ cur" "decoded decode cur (pending st)"
    using reach_offsets [OF c new(1,2) reach_iter.hyps(1)] by blast
  have w: "iter_world (Inr st') = b_world st'" by (simp add: iter_world_def)
  obtain more where "polled (kafka (b_world st')) = polled (kafka (b_world st)) @ more"
    using iter_polled [OF c reach_iter.hyps(2)] w by auto
  then have "hands_out L off (polled (kafka (b_world st)))" using reach_iter.prems hands_out_append(1) by simp
  note IH = reach_iter.IH [OF this]
  have "hands_out L off (polled (kafka (iter_world (Inr st' :: (gerror option \<times> ('k, 'e, 's) world) + _))))"
    using reach_iter.prems w by simp
  from iter_invariant [where P = P and disk = disk, OF c _ cur IH reach_iter.hyps(2) this] step
  show ?case unfolding w by blast
qed

text \<open>What holds of a new group and is kept by every flush, committed or not, holds through every life.\<close>

lemma life_invariant:
  assumes life: "group_life decode (flush c) disk L d0 off d" and "P (\<lambda>p. 0) d0"
    and step: "\<And>off recs rows cl polled committed w res w'. kafka_contract cl polled committed \<Longrightarrow> P off (disk (sink w)) \<Longrightarrow>
      hands_out L off recs \<Longrightarrow> decoded decode recs rows \<Longrightarrow> flush c cl rows w = (res, w') \<Longrightarrow>
      P off (disk (sink w')) \<and>
        (committed (kafka w') \<noteq> committed (kafka w) \<longrightarrow> P (advance off recs) (disk (sink w')))"
  shows "P off d"
  using life
proof (induction rule: group_life.induct)
  case life_new
  show ?case by (rule assms(2))
next
  case (life_session off d cl polled committed w0 ho fr fsec st out)
  note c = life_session.hyps(2)
  obtain cur where cur: "polled (kafka (b_world st)) = committed (kafka (b_world st)) @ cur" "decoded decode cur (pending st)"
    using reach_offsets [OF c life_session.hyps(3,4,6)] by blast
  obtain more where "polled (kafka (iter_world out)) = polled (kafka (b_world st)) @ more"
    using iter_polled [OF c life_session.hyps(7)] by blast
  then have h: "hands_out L off (polled (kafka (b_world st)))" using life_session.hyps(8) hands_out_append(1) by simp
  have new: "P off (disk (sink w0))" using life_session.IH life_session.hyps(5) by simp
  have "P (advance off (committed (kafka (b_world st)))) (disk (sink (b_world st)))"
    by (rule reach_invariant [where P = P and disk = disk, OF c _ life_session.hyps(3,4) new life_session.hyps(6) h]) (rule step [OF c])
  then show ?case by (rule iter_invariant [where P = P and disk = disk, OF c _ cur _ life_session.hyps(7,8), rotated]) (rule step [OF c])
qed

end

end
