(* ===== verification/Archive_Store.thy ===== *)
theory Archive_Store
  imports Archive_Rows Recovery
begin

section \<open>Writing the archive (\<open>internal/archiver/store.go\<close>, \<open>flush.go\<close>, \<open>consume.go\<close>, \<open>config.go\<close>)\<close>

text \<open>
  \<open>putFile\<close>, \<open>groupAndWrite\<close>, the archiver with its \<open>decode\<close>, \<open>flush\<close> and \<open>run\<close>. The order in which
  Go walks a map is the parameter \<open>iter\<close>. \<open>stored\<close> says what it means that a row is in the archive,
  and the archiver's flush interprets \<open>batch_sink\<close> with it.
\<close>

subsection \<open>One file\<close>

text \<open>\<open>filepath.Join(root, s)\<close> of two strings: an empty root is left out.\<close>

definition path_join :: "string \<Rightarrow> string \<Rightarrow> fpath" where
  "path_join root s = (if root = [] then filepath_clean s else filepath_clean (root @ ''/'' @ s))"

definition put_file :: "string \<Rightarrow> string \<Rightarrow> bytes \<Rightarrow> fsys \<Rightarrow> gerror option \<times> fsys" where
  "put_file root path data fs =
     (let full = path_join root path; tmp = path_append full ''.tmp''
      in case os_mkdir_all (filepath_dir full) fs of
           (Some err, fs1) \<Rightarrow> (Some (ErrWrap ''mkdir'' err), fs1)
         | (None, fs1) \<Rightarrow>
             (case os_write_file tmp data fs1 of
                (Some err, fs2) \<Rightarrow> (Some (ErrWrap (''write '' @ path_str tmp) err), fs2)
              | (None, fs2) \<Rightarrow>
                  (case os_rename tmp full fs2 of
                     (Some err, fs3) \<Rightarrow> (Some (ErrWrap (''rename '' @ path_str tmp) err), fs3)
                   | (None, fs3) \<Rightarrow> (None, fs3))))"

text \<open>Paths a reader's \<open>*.parquet\<close> can match.\<close>

definition is_parquet :: "fpath \<Rightarrow> bool" where
  "is_parquet p \<longleftrightarrow> snd p \<noteq> [] \<and> glob_match ''*.parquet'' (last (snd p))"

lemma path_join_plain:
  "plain_elem k \<Longrightarrow> plain_elem n \<Longrightarrow>
     path_join root (k @ ''/'' @ n) = (fst (filepath_clean root), snd (filepath_clean root) @ [k, n])"
proof (cases "root = []")
  case True
  assume p: "plain_elem k" "plain_elem n"
  then have "k \<noteq> []" "hd k \<noteq> CHR ''/''" by (cases k; auto simp: plain_elem_def)+
  with True p show ?thesis
    by (simp add: path_join_def filepath_clean_def Let_def split_on_append split_on_no_sep plain_elem_def
        clean_push_def)
next
  case False
  assume "plain_elem k" "plain_elem n"
  with False show ?thesis
    using filepath_clean_join [OF False, of "k @ ''/'' @ n"] filepath_join_plain
    by (simp add: path_join_def)
qed

lemma path_join_elem:
  assumes "plain_elem k"
  shows "path_join root k = (fst (filepath_clean root), snd (filepath_clean root) @ [k])"
proof (cases "root = []")
  case True
  from assms have "k \<noteq> []" "hd k \<noteq> CHR ''/''" by (cases k; auto simp: plain_elem_def)+
  with True assms show ?thesis
    by (simp add: path_join_def filepath_clean_def Let_def split_on_no_sep plain_elem_def clean_push_def)
next
  case False
  with assms show ?thesis
    using filepath_clean_join [OF False, of k] filepath_join_elem by (simp add: path_join_def)
qed

lemma tmp_not_parquet:
  assumes "is_parquet q"
  shows "path_append p ''.tmp'' \<noteq> q"
proof
  assume "path_append p ''.tmp'' = q"
  then have "last (snd q) = last (snd p) @ ''.tmp''" by (auto simp: path_append_def)
  with assms have "glob_match ''*.parquet'' (last (snd p) @ ''.tmp'')" unfolding is_parquet_def by metis
  then obtain a where "last (snd p) @ ''.tmp'' = a @ ''.parquet''" by (auto simp only: glob_parquet)
  then have "last (last (snd p) @ ''.tmp'') = last (a @ ''.parquet'')" by simp
  then show False by simp
qed

text \<open>At every moment of a \<open>putFile\<close>, finished, failed or cut short.\<close>

lemma put_file_effect:
  assumes "put_file root path data fs = (r, fs')" "is_parquet q"
  shows "file_at fs' q = file_at fs q \<and> (r = None \<longrightarrow> q \<noteq> path_join root path) \<or>
    q = path_join root path \<and> file_at fs' q = Some data"
proof -
  let ?full = "path_join root path" and ?tmp = "path_append (path_join root path) ''.tmp''"
  have q: "q \<noteq> ?tmp" using tmp_not_parquet [OF assms(2)] by metis
  obtain r1 fs1 where m: "os_mkdir_all (filepath_dir ?full) fs = (r1, fs1)"
    by (cases "os_mkdir_all (filepath_dir ?full) fs")
  note m1 = os_mkdir_all_files [OF m]
  show ?thesis
  proof (cases r1)
    case (Some err)
    with assms(1) m m1 show ?thesis by (auto simp: put_file_def Let_def)
  next
    case None
    obtain r2 fs2 where w: "os_write_file ?tmp data fs1 = (r2, fs2)" by (cases "os_write_file ?tmp data fs1")
    note w1 = os_write_file_other [OF w]
    show ?thesis
    proof (cases r2)
      case (Some err)
      with assms(1) m m1 None w w1(1) [OF q] show ?thesis by (auto simp: put_file_def Let_def)
    next
      case n2: None
      obtain r3 fs3 where rn: "os_rename ?tmp ?full fs2 = (r3, fs3)" by (cases "os_rename ?tmp ?full fs2")
      have fin: "fs' = fs3" "r = None \<longleftrightarrow> r3 = None" using assms(1) m None w n2 rn
        by (auto simp: put_file_def Let_def split: option.splits)
      have ne: "?tmp \<noteq> ?full"
      proof
        assume "?tmp = ?full"
        then have "snd ?tmp = snd ?full" by simp
        then have "last (snd ?full) @ ''.tmp'' = last (snd ?full)" unfolding path_append_def
          by (metis last_snoc snd_conv)
        then show False by simp
      qed
      have b: "file_at fs2 q = file_at fs q" "file_at fs2 ?tmp = Some data"
        using w1(1) [OF q] w1(3) n2 m1 by simp_all
      from os_rename_effect(2) [OF rn ne] show ?thesis
      proof (elim disjE conjE)
        assume "\<forall>q. file_at fs3 q = file_at fs2 q" "r3 \<noteq> None"
        from spec [OF this(1), of q] this(2) fin b(1) show ?thesis by auto
      next
        assume e: "file_at fs3 ?full = file_at fs2 ?tmp"
          "\<forall>q. q \<noteq> ?tmp \<longrightarrow> q \<noteq> ?full \<longrightarrow> file_at fs3 q = file_at fs2 q"
        show ?thesis
        proof (cases "q = ?full")
          case True
          with e(1) b(2) fin show ?thesis by simp
        next
          case False
          with e(2) [rule_format, OF q] b(1) fin show ?thesis by simp
        qed
      qed
    qed
  qed
qed

lemma put_file_ok:
  assumes "put_file root path data fs = (None, fs')" "is_parquet (path_join root path)"
  shows "file_at fs' (path_join root path) = Some data"
  using put_file_effect [OF assms] by auto

subsection \<open>One batch\<close>

text \<open>\<open>groups[k] = append(groups[k], r)\<close> over the rows.\<close>

definition add_group :: "(string \<times> row list) list \<Rightarrow> row \<Rightarrow> (string \<times> row list) list" where
  "add_group gs r =
     (let k = row_partition r
      in AList.update k ((case map_of gs k of None \<Rightarrow> [] | Some g \<Rightarrow> g) @ [r]) gs)"

definition groups :: "row list \<Rightarrow> (string \<times> row list) list" where
  "groups rows = foldl add_group [] rows"

text \<open>The path of a sorted group.\<close>

definition group_path :: "string \<Rightarrow> row list \<Rightarrow> string" where
  "group_path k g = k @ ''/'' @ file_name (r_ts (hd g)) (r_ts (last g))"

fun write_groups ::
  "parquet_lib \<Rightarrow> string \<Rightarrow> (string \<times> row list) list \<Rightarrow> string list \<Rightarrow> fsys \<Rightarrow>
   string list \<times> gerror option \<times> fsys" where
  "write_groups pq dir [] files fs = (files, None, fs)"
| "write_groups pq dir ((k, g0) # gs) files fs =
     (let g = sort_func row_less g0; path = group_path k g
      in case write_parquet pq g of
           Inl err \<Rightarrow> (files, Some (ErrWrap path err), fs)
         | Inr data \<Rightarrow>
             (case put_file dir path data fs of
                (Some err, fs1) \<Rightarrow> (files, Some err, fs1)
              | (None, fs1) \<Rightarrow> write_groups pq dir gs (files @ [path]) fs1))"

type_synonym map_order = "(string \<times> row list) list \<Rightarrow> (string \<times> row list) list"

definition group_and_write ::
  "map_order \<Rightarrow> parquet_lib \<Rightarrow> string \<Rightarrow> row list \<Rightarrow> fsys \<Rightarrow> string list \<times> gerror option \<times> fsys" where
  "group_and_write iter pq dir rows fs = write_groups pq dir (iter (groups rows)) [] fs"

definition map_order_ok :: "map_order \<Rightarrow> bool" where
  "map_order_ok iter \<longleftrightarrow> (\<forall>gs. mset (iter gs) = mset gs)"

subsection \<open>The archiver\<close>

record arch_config =
  ac_brokers :: "string list"
  ac_raw_topic :: string
  ac_group :: string
  ac_dir :: string
  ac_flush_records :: int
  ac_flush_seconds :: int

definition load_arch_config :: "(string \<Rightarrow> string) \<Rightarrow> arch_config result" where
  "load_arch_config getenv =
     (case brokers getenv of
        Inl err \<Rightarrow> Inl err
      | Inr bs \<Rightarrow>
          (let cfg = \<lparr>ac_brokers = bs, ac_raw_topic = raw_topic, ac_group = ''archiver'',
                      ac_dir = getenv ''ARCHIVE_DIR'', ac_flush_records = 100000, ac_flush_seconds = 300\<rparr>
           in if ac_dir cfg = [] then Inl (ErrNew ''ARCHIVE_DIR is not set'') else Inr cfg))"

record archiver =
  ar_config :: arch_config
  ar_pq :: parquet_lib
  ar_iter :: map_order

text \<open>\<open>archiver.decode\<close>: the decoding error is only logged.\<close>

definition arch_decode :: "krecord \<Rightarrow> row result" where
  "arch_decode rec = Inr (fst (decode_row rec))"

definition arch_flush :: "archiver \<Rightarrow> 'k kclient \<Rightarrow> (row, 'k, 'e, fsys) flush_fn" where
  "arch_flush a cl rows w =
     (if rows = [] then (None, w)
      else
        (case group_and_write (ar_iter a) (ar_pq a) (ac_dir (ar_config a)) rows (sink w) of
           (files, Some err, fs) \<Rightarrow> (Some err, w\<lparr>sink := fs\<rparr>)
         | (files, None, fs) \<Rightarrow>
             (case k_commit cl (kafka w) of
                (Some err, k) \<Rightarrow> (Some (ErrWrap ''commit offsets'' err), w\<lparr>sink := fs, kafka := k\<rparr>)
              | (None, k) \<Rightarrow> (None, w\<lparr>sink := fs, kafka := k\<rparr>))))"

definition arch_run ::
  "archiver \<Rightarrow> 'k kclient \<Rightarrow> 'e hostops \<Rightarrow> ('k, 'e, fsys) world \<Rightarrow>
   (gerror option \<times> ('k, 'e, fsys) world) option" where
  "arch_run a cl ho w =
     batch cl ho (ac_flush_records (ar_config a)) (ac_flush_seconds (ar_config a)) arch_decode (arch_flush a cl) w"

subsection \<open>Groups\<close>

lemma groups_snoc: "groups (rows @ [r]) = add_group (groups rows) r"
  by (simp add: groups_def)

lemma map_of_groups:
  "map_of (groups rows) k = (let g = filter (\<lambda>r. row_partition r = k) rows in if g = [] then None else Some g)"
proof (induction rows rule: rev_induct)
  case (snoc r rows)
  then show ?case by (auto simp: groups_snoc add_group_def Let_def)
qed (simp add: groups_def)

lemma distinct_groups: "distinct (map fst (groups rows))"
  by (induction rows rule: rev_induct) (simp_all add: groups_snoc add_group_def Let_def groups_def [of "[]"])

lemma in_groups_iff:
  "(k, g) \<in> set (groups rows) \<longleftrightarrow> g = filter (\<lambda>r. row_partition r = k) rows \<and> g \<noteq> []"
  using map_of_eq_Some_iff [OF distinct_groups, of rows k g] by (auto simp: map_of_groups Let_def split: if_splits)

lemma iter_groups:
  assumes "map_order_ok iter"
  shows "set (iter (groups rows)) = set (groups rows)" "distinct (map fst (iter (groups rows)))"
proof -
  have m: "mset (iter (groups rows)) = mset (groups rows)" using assms by (simp add: map_order_ok_def)
  then show "set (iter (groups rows)) = set (groups rows)" by (metis set_mset_mset)
  from m have "mset (map fst (iter (groups rows))) = mset (map fst (groups rows))" by simp
  then show "distinct (map fst (iter (groups rows)))" using distinct_groups by (metis mset_eq_imp_distinct_iff)
qed

lemma iter_groups_plain:
  assumes "map_order_ok iter"
  shows "list_all plain_elem (map fst (iter (groups rows)))"
proof -
  have "plain_elem k" if "(k, g) \<in> set (iter (groups rows))" for k g
  proof -
    from that assms have "filter (\<lambda>r. row_partition r = k) rows \<noteq> []" by (auto simp: iter_groups in_groups_iff)
    then obtain r where "row_partition r = k" by (auto simp: filter_empty_conv)
    then show ?thesis by (metis plain_partition)
  qed
  then show ?thesis by (auto simp: list_all_iff)
qed

text \<open>Where a group's file is.\<close>

definition group_file :: "string \<Rightarrow> string \<Rightarrow> row list \<Rightarrow> fpath" where
  "group_file dir k g = path_join dir (group_path k (sort_func row_less g))"

lemma group_file_eq:
  "plain_elem k \<Longrightarrow> group_file dir k g =
     (fst (filepath_clean dir), snd (filepath_clean dir) @
        [k, file_name (r_ts (hd (sort_func row_less g))) (r_ts (last (sort_func row_less g)))])"
  using path_join_plain [of k "file_name (r_ts (hd (sort_func row_less g))) (r_ts (last (sort_func row_less g)))" dir]
  by (simp add: group_file_def group_path_def)

lemma group_file_parquet: "plain_elem k \<Longrightarrow> is_parquet (group_file dir k g)"
  using stamp_no_slash by (simp add: group_file_eq is_parquet_def glob_parquet file_name_def)

lemma group_file_inj: "plain_elem k \<Longrightarrow> plain_elem k' \<Longrightarrow> group_file dir k g = group_file dir k' g' \<Longrightarrow> k = k'"
  by (simp add: group_file_eq)

text \<open>What a walk over groups leaves, after every outcome.\<close>

lemma write_groups_effect:
  assumes "write_groups pq dir gs files fs = (files', r, fs')" "is_parquet q"
    and "list_all plain_elem (map fst gs)" "distinct (map fst gs)"
  shows "(file_at fs' q = file_at fs q \<and> (r = None \<longrightarrow> (\<forall>(k, g) \<in> set gs. q \<noteq> group_file dir k g))) \<or>
    (\<exists>(k, g) \<in> set gs. q = group_file dir k g \<and>
       (\<exists>data. write_parquet pq (sort_func row_less g) = Inr data \<and> file_at fs' q = Some data))"
  using assms(1,3,4)
proof (induction gs arbitrary: files fs)
  case (Cons kg gs)
  obtain k g where kg: "kg = (k, g)" by (cases kg)
  show ?case
  proof (cases "write_parquet pq (sort_func row_less g)")
    case (Inl e)
    with Cons.prems(1) kg show ?thesis by (auto simp: Let_def)
  next
    case (Inr data)
    obtain r1 fs1 where p: "put_file dir (group_path k (sort_func row_less g)) data fs = (r1, fs1)"
      by (cases "put_file dir (group_path k (sort_func row_less g)) data fs")
    note e1 = put_file_effect [OF p assms(2), folded group_file_def]
    show ?thesis
    proof (cases r1)
      case (Some e)
      with Cons.prems(1) kg Inr p have "fs' = fs1" "r \<noteq> None" by (auto simp: Let_def)
      with e1 Inr kg show ?thesis by auto
    next
      case None
      with Cons.prems(1) kg Inr p
      have w: "write_groups pq dir gs (files @ [group_path k (sort_func row_less g)]) fs1 = (files', r, fs')"
        by (simp add: Let_def)
      have "(file_at fs' q = file_at fs1 q \<and> (r = None \<longrightarrow> (\<forall>(k, g) \<in> set gs. q \<noteq> group_file dir k g))) \<or>
        (\<exists>(k, g) \<in> set gs. q = group_file dir k g \<and>
           (\<exists>data. write_parquet pq (sort_func row_less g) = Inr data \<and> file_at fs' q = Some data))"
        using Cons.IH [OF w] Cons.prems(2,3) by auto
      with e1 None Inr kg show ?thesis by auto
    qed
  qed
qed simp

text \<open>A group's own file after a walk that succeeded.\<close>

lemma write_groups_ok:
  assumes "write_groups pq dir gs files fs = (files', None, fs')"
    and "list_all plain_elem (map fst gs)" "distinct (map fst gs)" "(k, g) \<in> set gs"
  shows "\<exists>data. write_parquet pq (sort_func row_less g) = Inr data \<and>
    file_at fs' (group_file dir k g) = Some data"
proof -
  have k: "plain_elem k" using assms(2,4) by (auto simp: list_all_iff)
  from write_groups_effect [OF assms(1) group_file_parquet [OF k, of dir g] assms(2,3)] assms(4)
  obtain k' g' data where "(k', g') \<in> set gs" "group_file dir k g = group_file dir k' g'"
      "write_parquet pq (sort_func row_less g') = Inr data" "file_at fs' (group_file dir k g) = Some data"
    by auto
  moreover from calculation(1) assms(2) have "plain_elem k'" by (auto simp: list_all_iff)
  with calculation(2) have "k' = k" using group_file_inj [OF k] by blast
  moreover from this calculation(1) assms(3,4) have "g' = g" by (metis eq_key_imp_eq_value)
  ultimately show ?thesis by blast
qed

lemma write_groups_files:
  "write_groups pq dir gs files fs = (files', None, fs') \<Longrightarrow>
     files' = files @ map (\<lambda>(k, g). group_path k (sort_func row_less g)) gs"
proof (induction gs arbitrary: files fs)
  case (Cons kg gs)
  obtain k g where kg: "kg = (k, g)" by (cases kg)
  with Cons.prems obtain fs1 where
    "write_groups pq dir gs (files @ [group_path k (sort_func row_less g)]) fs1 = (files', None, fs')"
    by (auto simp: Let_def split: sum.splits prod.splits option.splits)
  from Cons.IH [OF this] kg show ?case by simp
qed simp

subsection \<open>What it means that a row is in the archive\<close>

definition stored :: "archiver \<Rightarrow> fsys \<Rightarrow> row \<Rightarrow> bool" where
  "stored a fs r \<longleftrightarrow>
     (\<exists>p data rows r'. p = (fst (filepath_clean (ac_dir (ar_config a))),
          snd (filepath_clean (ac_dir (ar_config a))) @ [row_partition r, last (snd p)]) \<and> is_parquet p \<and>
        file_at fs p = Some data \<and> pq_read (ar_pq a) data = Inr rows \<and> r' \<in> set rows \<and> archived_as r r')"

definition arch_good :: "archiver \<Rightarrow> bool" where
  "arch_good a \<longleftrightarrow> parquet_contract (ar_pq a) \<and> map_order_ok (ar_iter a)"

text \<open>The file of a batch's rows of one directory holds exactly them, in canonical order.\<close>

lemma group_and_write_file:
  assumes "map_order_ok iter" "parquet_contract pq"
    and "group_and_write iter pq dir rows fs = (files, None, fs')" "r \<in> set rows"
  shows "\<exists>data rows'. file_at fs' (group_file dir (row_partition r) (filter (\<lambda>x. row_partition x = row_partition r) rows)) = Some data \<and>
    pq_read pq data = Inr rows' \<and>
    list_all2 archived_as (sort_func row_less (filter (\<lambda>x. row_partition x = row_partition r) rows)) rows'"
proof -
  let ?g = "filter (\<lambda>x. row_partition x = row_partition r) rows"
  have "(row_partition r, ?g) \<in> set (iter (groups rows))"
    using assms(1,4) by (auto simp: iter_groups in_groups_iff filter_empty_conv)
  from write_groups_ok [OF assms(3) [unfolded group_and_write_def] iter_groups_plain [OF assms(1)]
      iter_groups(2) [OF assms(1)] this]
  show ?thesis using write_parquet_read [OF assms(2)] by blast
qed

lemma group_and_write_stores:
  assumes "arch_good a" "r \<in> set rows"
    and "group_and_write (ar_iter a) (ar_pq a) (ac_dir (ar_config a)) rows fs = (files, None, fs')"
  shows "stored a fs' r"
proof -
  let ?g = "filter (\<lambda>x. row_partition x = row_partition r) rows"
  let ?p = "group_file (ac_dir (ar_config a)) (row_partition r) ?g"
  obtain data rows' where f: "file_at fs' ?p = Some data" "pq_read (ar_pq a) data = Inr rows'"
      "list_all2 archived_as (sort_func row_less ?g) rows'"
    using group_and_write_file [OF _ _ assms(3,2)] assms(1) by (auto simp: arch_good_def)
  from assms(2) have "r \<in> set (sort_func row_less ?g)" by simp
  with f(3) obtain r' where "r' \<in> set rows'" "archived_as r r'" by (blast dest: list_all2_mem)
  moreover have "is_parquet ?p" by (rule group_file_parquet) simp
  ultimately show ?thesis unfolding stored_def using f
    by (intro exI [of _ ?p] exI [of _ data] exI [of _ rows'] exI [of _ r']) (simp add: group_file_eq)
qed

text \<open>The archiver's flush keeps the contract of the batch loop.\<close>

lemma arch_flush_cases:
  assumes "arch_flush a cl rows w = (res, w')"
  obtains (empty) "rows = []" "res = None" "w' = w"
  | (failed) files err fs where "rows \<noteq> []"
      "group_and_write (ar_iter a) (ar_pq a) (ac_dir (ar_config a)) rows (sink w) = (files, Some err, fs)"
      "res = Some err" "w' = w\<lparr>sink := fs\<rparr>"
  | (written) files fs ce k where "rows \<noteq> []"
      "group_and_write (ar_iter a) (ar_pq a) (ac_dir (ar_config a)) rows (sink w) = (files, None, fs)"
      "k_commit cl (kafka w) = (ce, k)" "res = map_option (ErrWrap ''commit offsets'') ce"
      "w' = w\<lparr>sink := fs, kafka := k\<rparr>"
proof (cases "rows = []")
  case True
  with assms empty show thesis by (simp add: arch_flush_def)
next
  case False
  obtain files e fs where g: "group_and_write (ar_iter a) (ar_pq a) (ac_dir (ar_config a)) rows (sink w) = (files, e, fs)"
    by (cases "group_and_write (ar_iter a) (ar_pq a) (ac_dir (ar_config a)) rows (sink w)")
  obtain ce k where k: "k_commit cl (kafka w) = (ce, k)" by (cases "k_commit cl (kafka w)")
  show thesis
  proof (cases e)
    case None
    with assms False g k written [OF False] show thesis
      by (cases ce) (auto simp: arch_flush_def)
  next
    case (Some err)
    with assms False g failed [OF False] show thesis by (auto simp: arch_flush_def)
  qed
qed

interpretation archive: batch_sink arch_good arch_flush stored
proof unfold_locales
  fix a :: archiver and cl :: "'k kclient" and w w' :: "('k, 'e, fsys) world" and rows r res
    and polled committed :: "'k \<Rightarrow> krecord list"
  show "arch_flush a cl [] w = (None, w)" by (simp add: arch_flush_def)
  show "arch_good a \<Longrightarrow> arch_flush a cl rows w = (None, w') \<Longrightarrow> r \<in> set rows \<Longrightarrow> stored a (sink w') r"
    by (erule arch_flush_cases) (auto intro: group_and_write_stores)
  assume c: "kafka_contract cl polled committed"
  show "arch_flush a cl rows w = (res, w') \<Longrightarrow> polled (kafka w') = polled (kafka w)"
    by (erule arch_flush_cases) (auto dest: kafka_contract_commit(1) [OF c])
  show "arch_flush a cl rows w = (res, w') \<Longrightarrow>
      committed (kafka w') = committed (kafka w) \<or> committed (kafka w') = polled (kafka w)"
    by (erule arch_flush_cases) (auto dest: kafka_contract_commit(3) [OF c])
  show "arch_flush a cl rows w = (None, w') \<Longrightarrow> rows \<noteq> [] \<Longrightarrow> committed (kafka w') = polled (kafka w)"
    by (erule arch_flush_cases) (auto dest: kafka_contract_commit(2) [OF c])
  show "arch_good a \<Longrightarrow> arch_flush a cl rows w = (res, w') \<Longrightarrow> committed (kafka w') \<noteq> committed (kafka w) \<Longrightarrow>
      r \<in> set rows \<Longrightarrow> stored a (sink w') r"
    by (erule arch_flush_cases) (auto intro: group_and_write_stores)
qed

end
