(* ===== verification/Archive_Sample.thy ===== *)
theory Archive_Sample
  imports Archive_Store
begin

section \<open>A codec that keeps the Parquet contract\<close>

text \<open>
  Rows as length-prefixed strings: a concrete \<open>parquet_lib\<close>, which shows that \<open>parquet_contract\<close> can
  hold for every batch and lets the archive be run on concrete inputs.
\<close>

definition net :: "string \<Rightarrow> string" where
  "net s = dec_nat (length s) @ '':'' @ s"

definition read_net :: "string \<Rightarrow> (string \<times> string) option" where
  "read_net s =
     (let n = dec_val (takeWhile is_digit s)
      in case dropWhile is_digit s of
           [] \<Rightarrow> None
         | c # r \<Rightarrow> if length r < n then None else Some (take n r, drop n r))"

definition row_bytes :: "row \<Rightarrow> string" where
  "row_bytes r =
     net (r_station r) @ net (r_raw r) @ net (dec_nat (nat (t_sec (r_ts r)))) @
     net (dec_nat (nat (- t_sec (r_ts r)))) @ net (dec_nat (t_nsec (r_ts r) div 1000))"

definition read_row :: "string \<Rightarrow> (row \<times> string) option" where
  "read_row s =
     (case read_net s of None \<Rightarrow> None | Some (st, s) \<Rightarrow>
      case read_net s of None \<Rightarrow> None | Some (raw, s) \<Rightarrow>
      case read_net s of None \<Rightarrow> None | Some (a, s) \<Rightarrow>
      case read_net s of None \<Rightarrow> None | Some (b, s) \<Rightarrow>
      case read_net s of None \<Rightarrow> None | Some (c, s) \<Rightarrow>
        Some (\<lparr>r_station = st, r_ts = \<lparr>t_sec = int (dec_val a) - int (dec_val b),
                t_nsec = dec_val c * 1000, t_off = 0\<rparr>, r_raw = raw\<rparr>, s))"

fun read_rows :: "nat \<Rightarrow> string \<Rightarrow> row list option" where
  "read_rows 0 s = (if s = [] then Some [] else None)"
| "read_rows (Suc n) s =
     (if s = [] then Some []
      else (case read_row s of None \<Rightarrow> None
            | Some (r, s') \<Rightarrow> map_option (Cons r) (read_rows n s')))"

definition sample_pq :: parquet_lib where
  "sample_pq =
     \<lparr>pq_write = (\<lambda>rows. None),
      pq_close = (\<lambda>rows. Inr (concat (map row_bytes rows))),
      pq_read = (\<lambda>data. case read_rows (length data) data of
                   None \<Rightarrow> Inl (ErrNew ''corrupt'') | Some rows \<Rightarrow> Inr rows)\<rparr>"

lemma takeWhile_digits: "takeWhile is_digit (dec_nat n @ '':'' @ s) = dec_nat n"
  "dropWhile is_digit (dec_nat n @ '':'' @ s) = CHR '':'' # s"
proof -
  have d: "\<And>c. c \<in> set (dec_nat n) \<Longrightarrow> is_digit c" by (rule dec_nat_digits)
  have "\<not> is_digit (CHR '':'')" by (simp add: is_digit_def)
  with d show "takeWhile is_digit (dec_nat n @ '':'' @ s) = dec_nat n"
    "dropWhile is_digit (dec_nat n @ '':'' @ s) = CHR '':'' # s"
    by (simp_all add: takeWhile_append2 dropWhile_append2)
qed

lemma read_net_net [simp]: "read_net (net s @ t) = Some (s, t)"
  using takeWhile_digits [of "length s" "s @ t"] by (simp add: read_net_def net_def)

lemma row_bytes_nonempty: "row_bytes r \<noteq> []"
  by (simp add: row_bytes_def net_def)

lemma read_row_bytes: "read_row (row_bytes r @ t) = Some (trunc_row r, t)"
  by (cases r) (simp add: read_row_def row_bytes_def trunc_row_def trunc_micro_def)

lemma read_rows_bytes:
  "length (concat (map row_bytes rows)) \<le> n \<Longrightarrow> read_rows n (concat (map row_bytes rows)) = Some (map trunc_row rows)"
proof (induction rows arbitrary: n)
  case Nil
  then show ?case by (cases n) auto
next
  case (Cons r rows)
  obtain c cs where p: "row_bytes r = c # cs" using row_bytes_nonempty by (cases "row_bytes r") auto
  with Cons.prems obtain m where m: "n = Suc m" by (cases n) auto
  with Cons.prems p have "length (concat (map row_bytes rows)) \<le> m" by simp
  from Cons.IH [OF this] show ?case by (simp add: m read_row_bytes row_bytes_nonempty)
qed

lemma sample_pq_read: "pq_close sample_pq rows = Inr data \<Longrightarrow> pq_read sample_pq data = Inr (map trunc_row rows)"
  using read_rows_bytes [of rows "length data"] by (auto simp: sample_pq_def)

lemma sample_pq_contract [simp]: "parquet_contract sample_pq"
  unfolding parquet_contract_def
  by (auto dest!: sample_pq_read simp: list_all2_conv_all_nth archived_as_def trunc_row_def)

definition sample_archiver :: archiver where
  "sample_archiver =
     \<lparr>ar_config = \<lparr>ac_brokers = [''b''], ac_raw_topic = raw_topic, ac_group = ''archiver'', ac_dir = ''archive'',
        ac_flush_records = 100000, ac_flush_seconds = 300\<rparr>,
      ar_pq = sample_pq, ar_iter = (\<lambda>gs. gs)\<rparr>"

lemma map_order_id [simp]: "map_order_ok (\<lambda>gs. gs)"
  by (simp add: map_order_ok_def)

lemma sample_archiver_good [simp]: "arch_good sample_archiver"
  by (simp add: arch_good_def sample_archiver_def)

definition sample_row :: row where
  "sample_row = \<lparr>r_station = ''st'', r_ts = sample_time, r_raw = ''MSG,1''\<rparr>"

definition junk_row :: "string \<Rightarrow> row" where
  "junk_row s = \<lparr>r_station = [], r_ts = zero_time, r_raw = s\<rparr>"

definition empty_fs :: fsys where
  "empty_fs = \<lparr>fs_dirs = [], fs_files = [], fs_script = []\<rparr>"

end
