(* ===== verification/Archive_Facts.thy ===== *)
theory Archive_Facts
  imports Archive_Sample
begin

section \<open>What the archive promises\<close>

text \<open>
  Atomic files, one file per date with exactly the batch's rows, rewriting a batch changes nothing,
  progress when nothing fails, offsets committed only for stored rows; and the case in which a batch
  replaces what an earlier one stored.
\<close>

subsection \<open>Progress\<close>

text \<open>An archive volume nothing else writes to, on a disk that does not fail.\<close>

definition archive_tree :: "string \<Rightarrow> fsys \<Rightarrow> bool" where
  "archive_tree dir fs \<longleftrightarrow>
     (let n = Suc (length (snd (filepath_clean dir)))
      in list_all (\<lambda>p. n < length (snd p)) (map fst (fs_files fs)) \<and>
         list_all (\<lambda>p. length (snd p) \<le> n) (fs_dirs fs) \<and> list_all (\<lambda>out. out = Works) (fs_script fs))"

lemma mkdir_walk_clear:
  "(\<And>p. p \<in> set ps \<Longrightarrow> \<not> is_file fs p) \<Longrightarrow> fst (mkdir_walk None ps fs)"
proof (induction "None :: nat option" ps fs rule: mkdir_walk.induct)
  case (2 q ps fs)
  have "is_file (fs\<lparr>fs_dirs := q # fs_dirs fs\<rparr>) p = is_file fs p" for p by (simp add: is_file_def)
  with 2 show ?case by auto
qed simp

lemma next_outcome_tree:
  assumes "archive_tree dir fs"
  obtains fs1 where "next_outcome fs = (Works, fs1)" "archive_tree dir fs1" "fs_files fs1 = fs_files fs"
    "fs_dirs fs1 = fs_dirs fs"
proof -
  obtain out fs1 where n: "next_outcome fs = (out, fs1)" by (cases "next_outcome fs")
  with assms have "out = Works" "archive_tree dir fs1"
    by (auto simp: next_outcome_def archive_tree_def Let_def split: list.splits)
  with that n next_outcome_files [OF n] show thesis by blast
qed

lemma os_mkdir_all_tree:
  assumes "archive_tree dir fs" "length (snd p) \<le> Suc (length (snd (filepath_clean dir)))" "snd p \<noteq> []"
  obtains fs1 where "os_mkdir_all p fs = (None, fs1)" "archive_tree dir fs1" "is_dir fs1 p"
proof -
  from assms(1) obtain fs0 where n: "next_outcome fs = (Works, fs0)" and t: "archive_tree dir fs0"
    by (rule next_outcome_tree)
  have len: "length (snd q) \<le> length (snd p)" if "q \<in> set (path_prefixes p)" for q
    using that by (auto simp: path_prefixes_def)
  have "\<not> is_file fs0 q" if "q \<in> set (path_prefixes p)" for q
    using t len [OF that] assms(2) by (fastforce simp: archive_tree_def is_file_def list_all_iff Let_def)
  then have "fst (mkdir_walk None (path_prefixes p) fs0)" by (rule mkdir_walk_clear)
  then obtain fs1 where w: "mkdir_walk None (path_prefixes p) fs0 = (True, fs1)"
    by (cases "mkdir_walk None (path_prefixes p) fs0") auto
  have "fs_files fs1 = fs_files fs0" "fs_script fs1 = fs_script fs0"
    using mkdir_walk_files [of None "path_prefixes p" fs0] mkdir_walk_script [of None "path_prefixes p" fs0] w
    by simp_all
  moreover have "length (snd q) \<le> Suc (length (snd (filepath_clean dir)))" if "q \<in> set (fs_dirs fs1)" for q
    using mkdir_walk_bound [of q None "path_prefixes p" fs0] that w t len assms(2)
    by (fastforce simp: archive_tree_def list_all_iff Let_def)
  ultimately have "archive_tree dir fs1" using t by (simp add: archive_tree_def list_all_iff Let_def)
  moreover have m: "os_mkdir_all p fs = (None, fs1)" using n w by (simp add: os_mkdir_all_def)
  ultimately show thesis using that os_mkdir_all_ok [OF m assms(3)] by blast
qed

lemma os_write_file_tree:
  assumes "archive_tree dir fs" "is_dir fs (filepath_dir p)" "\<not> is_dir fs p"
    and "Suc (length (snd (filepath_clean dir))) < length (snd p)"
  obtains fs1 where "os_write_file p data fs = (None, fs1)" "archive_tree dir fs1"
proof -
  from assms(1) obtain fs0 where n: "next_outcome fs = (Works, fs0)" "archive_tree dir fs0" "fs_dirs fs0 = fs_dirs fs"
    by (rule next_outcome_tree)
  let ?fs1 = "fs0\<lparr>fs_files := AList.update p data (fs_files fs0)\<rparr>"
  have "archive_tree dir ?fs1" using n(2) assms(4)
    by (simp add: archive_tree_def Let_def list_all_keys_update del: list.pred_map)
  with that n assms(2,3) show thesis by (auto simp: os_write_file_def is_dir_def)
qed

lemma os_rename_tree:
  assumes "archive_tree dir fs" "file_at fs a = Some data" "\<not> is_dir fs b"
    and "Suc (length (snd (filepath_clean dir))) < length (snd b)"
  obtains fs1 where "os_rename a b fs = (None, fs1)" "archive_tree dir fs1"
proof -
  from assms(1) obtain fs0 where n: "next_outcome fs = (Works, fs0)" "archive_tree dir fs0"
      "fs_files fs0 = fs_files fs" "fs_dirs fs0 = fs_dirs fs"
    by (rule next_outcome_tree)
  let ?fs1 = "fs0\<lparr>fs_files := AList.update b data (AList.delete a (fs_files fs0))\<rparr>"
  have "archive_tree dir ?fs1" using n(2) assms(4)
    by (simp add: archive_tree_def Let_def list_all_keys_update list_all_keys_delete del: list.pred_map)
  with that n assms(2,3) show thesis by (auto simp: os_rename_def is_dir_def Let_def)
qed

lemma put_file_tree:
  assumes "archive_tree dir fs" "plain_elem k" "plain_elem n"
  obtains fs' where "put_file dir (k @ ''/'' @ n) data fs = (None, fs')" "archive_tree dir fs'"
proof -
  let ?R = "filepath_clean dir"
  let ?full = "path_join dir (k @ ''/'' @ n)"
  let ?tmp = "path_append ?full ''.tmp''"
  have full: "?full = (fst ?R, snd ?R @ [k, n])" by (rule path_join_plain [OF assms(2,3)])
  have tmp: "?tmp = (fst ?R, snd ?R @ [k, n @ ''.tmp''])" unfolding full by (simp add: path_append_def butlast_append)
  have dirs: "filepath_dir ?full = (fst ?R, snd ?R @ [k])" "filepath_dir ?tmp = filepath_dir ?full"
    unfolding tmp unfolding full by (simp_all add: filepath_dir_def butlast_append)
  have nodir: "\<not> is_dir f (fst ?R, snd ?R @ [k, x])" if "archive_tree dir f" "x \<noteq> ''..''" for f x
    using that by (force simp: is_dir_def archive_tree_def list_all_iff Let_def)
  have n: "n \<noteq> ''..''" using assms(3) by (simp add: plain_elem_def)
  obtain fs1 where m: "os_mkdir_all (filepath_dir ?full) fs = (None, fs1)" "archive_tree dir fs1"
      "is_dir fs1 (filepath_dir ?full)"
    using os_mkdir_all_tree [OF assms(1), of "filepath_dir ?full"] by (auto simp: dirs [simplified])
  have x: "n @ ''.tmp'' \<noteq> ''..''" by (cases n rule: rev_cases) auto
  obtain fs2 where w: "os_write_file ?tmp data fs1 = (None, fs2)" "archive_tree dir fs2"
  proof (rule os_write_file_tree [OF m(2), of ?tmp data])
    show "is_dir fs1 (filepath_dir ?tmp)" unfolding dirs(2) by (rule m(3))
    show "\<not> is_dir fs1 ?tmp" unfolding tmp by (rule nodir [OF m(2) x])
  qed (simp_all add: tmp [simplified])
  obtain fs3 where r: "os_rename ?tmp ?full fs2 = (None, fs3)" "archive_tree dir fs3"
  proof (rule os_rename_tree [OF w(2) os_write_file_other(3) [OF w(1) refl], of ?full])
    show "\<not> is_dir fs2 ?full" unfolding full by (rule nodir [OF w(2) n])
  qed (simp_all add: full [simplified])
  from that [of fs3] m w r show thesis by (simp add: put_file_def Let_def)
qed

lemma write_groups_tree:
  assumes "archive_tree dir fs" "list_all plain_elem (map fst gs)"
    and "\<And>rows. \<exists>data. write_parquet pq rows = Inr data"
  shows "\<exists>files' fs'. write_groups pq dir gs files fs = (files', None, fs') \<and> archive_tree dir fs'"
  using assms(1,2)
proof (induction gs arbitrary: files fs)
  case (Cons kg gs)
  obtain k g where kg: "kg = (k, g)" by (cases kg)
  obtain data where d: "write_parquet pq (sort_func row_less g) = Inr data" using assms(3) by blast
  from Cons.prems(2) kg have k: "plain_elem k" by simp
  obtain fs1 where p: "put_file dir (group_path k (sort_func row_less g)) data fs = (None, fs1)" "archive_tree dir fs1"
    unfolding group_path_def by (rule put_file_tree [OF Cons.prems(1) k plain_file_name])
  from Cons.IH [OF p(2)] Cons.prems(2) kg d p(1) show ?case by (simp add: Let_def)
qed simp

lemma group_and_write_tree:
  assumes "archive_tree dir fs" "map_order_ok iter" "\<And>rows. \<exists>data. write_parquet pq rows = Inr data"
  obtains files fs' where "group_and_write iter pq dir rows fs = (files, None, fs')" "archive_tree dir fs'"
  using write_groups_tree [OF assms(1) iter_groups_plain [OF assms(2)] assms(3), of rows "[]"]
  unfolding group_and_write_def by blast

lemma sample_pq_writes: "\<exists>data. write_parquet sample_pq rows = Inr data"
  by (simp add: write_parquet_def sample_pq_def)

lemma empty_fs_tree [simp]: "archive_tree dir empty_fs"
  by (simp add: archive_tree_def empty_fs_def)

text \<open>Two batches written in turn into an empty archive, both with success.\<close>

lemma sample_writes:
  obtains files1 fs1 files2 fs2 where
    "group_and_write (\<lambda>gs. gs) sample_pq ''archive'' rows1 empty_fs = (files1, None, fs1)"
    "group_and_write (\<lambda>gs. gs) sample_pq ''archive'' rows2 fs1 = (files2, None, fs2)"
proof -
  obtain files1 fs1 where 1: "group_and_write (\<lambda>gs. gs) sample_pq ''archive'' rows1 empty_fs = (files1, None, fs1)"
      "archive_tree ''archive'' fs1"
    using group_and_write_tree [OF empty_fs_tree map_order_id sample_pq_writes] by metis
  obtain files2 fs2 where 2: "group_and_write (\<lambda>gs. gs) sample_pq ''archive'' rows2 fs1 = (files2, None, fs2)"
    using group_and_write_tree [OF 1(2) map_order_id sample_pq_writes] by metis
  from that 1 2 show thesis by blast
qed

subsection \<open>Files\<close>

text \<open>C14: readers never see a partial file. In whatever state a \<open>putFile\<close> leaves the file system (done,
  failed, or cut short inside any of its calls), every path that \<open>*.parquet\<close> can match holds what it
  held before, except that the target may hold the complete new data; after success it does.\<close>

theorem put_file_atomic:
  assumes "put_file root path data fs = (r, fs')" and "is_parquet q"
  shows "(file_at fs' q = file_at fs q \<or> q = path_join root path \<and> file_at fs' q = Some data) \<and>
    (r = None \<and> q = path_join root path \<longrightarrow> file_at fs' q = Some data)"
  using put_file_effect [OF assms] by auto

theorem put_file_atomic_witness:
  "file_at (snd (put_file ''a'' ''k/x.parquet'' ''DATA''
       \<lparr>fs_dirs = [], fs_files = [((False, [''a'', ''k'', ''x.parquet'']), ''OLD'')],
        fs_script = [Works, Fails (ErrNew ''disk full'') 3]\<rparr>)) (False, [''a'', ''k'', ''x.parquet'']) \<in> {Some ''OLD'', Some ''DATA''}"
proof -
  let ?fs = "\<lparr>fs_dirs = [], fs_files = [((False, [''a'', ''k'', ''x.parquet'']), ''OLD'')],
        fs_script = [Works, Fails (ErrNew ''disk full'') 3]\<rparr>"
  have "is_parquet (False, [''a'', ''k'', ''x.parquet''])" by (auto simp: is_parquet_def glob_parquet intro!: exI [of _ "''x''"])
  from put_file_atomic [OF surjective_pairing this, of "''a''" "''k/x.parquet''" "''DATA''" ?fs]
  show ?thesis by auto
qed

lemma groups_keys: "fst ` set (groups rows) = row_partition ` set rows"
proof -
  have "k \<in> fst ` set (groups rows) \<longleftrightarrow> (\<exists>g. (k, g) \<in> set (groups rows))" for k by force
  also have "\<dots> k \<longleftrightarrow> k \<in> row_partition ` set rows" for k by (auto simp: in_groups_iff filter_empty_conv)
  finally show ?thesis by blast
qed

text \<open>C30: a batch becomes one file per event date present in it, and each file holds exactly the batch's
  rows of that date, in canonical order, whatever the order in which the dates were written.\<close>

theorem group_and_write_files:
  assumes "map_order_ok iter" and "parquet_contract pq"
    and "group_and_write iter pq dir rows fs = (files, None, fs')"
  shows "length files = card (row_partition ` set rows) \<and>
    (\<forall>k \<in> row_partition ` set rows.
       let g = sort_func row_less (filter (\<lambda>r. row_partition r = k) rows)
       in group_path k g \<in> set files \<and>
          (\<exists>data rows'. file_at fs' (path_join dir (group_path k g)) = Some data \<and>
             pq_read pq data = Inr rows' \<and> list_all2 archived_as g rows'))"
proof -
  have files: "files = map (\<lambda>(k, g). group_path k (sort_func row_less g)) (iter (groups rows))"
    using write_groups_files [OF assms(3) [unfolded group_and_write_def]] by simp
  have keys: "fst ` set (iter (groups rows)) = row_partition ` set rows"
    by (simp add: iter_groups(1) [OF assms(1)] groups_keys)
  have "length files = card (set (map fst (iter (groups rows))))"
    using distinct_card [OF iter_groups(2) [OF assms(1), of rows]] by (simp add: files)
  then have "length files = card (row_partition ` set rows)" using keys by simp
  moreover have "group_path k (sort_func row_less (filter (\<lambda>r. row_partition r = k) rows)) \<in> set files"
    if "k \<in> row_partition ` set rows" for k
    using that by (force simp: files iter_groups [OF assms(1)] in_groups_iff filter_empty_conv)
  moreover have "\<exists>data rows'. file_at fs' (path_join dir (group_path k (sort_func row_less (filter (\<lambda>r. row_partition r = k) rows)))) =
        Some data \<and> pq_read pq data = Inr rows' \<and>
      list_all2 archived_as (sort_func row_less (filter (\<lambda>r. row_partition r = k) rows)) rows'"
    if "k \<in> row_partition ` set rows" for k
    using that group_and_write_file [OF assms] by (auto simp: group_file_def)
  ultimately show ?thesis by (simp add: Let_def)
qed

lemma sample_partitions: "row_partition sample_row \<noteq> unknown_dir" "row_partition (junk_row s) = unknown_dir"
proof -
  have "''dt='' @ format_date t \<noteq> unknown_dir" for t
    using format_date_digits [of "CHR ''u''" t] by (auto simp: unknown_dir_def is_digit_def)
  then show "row_partition sample_row \<noteq> unknown_dir" by (simp add: row_partition_def sample_row_def)
qed (simp add: row_partition_def junk_row_def)

theorem group_and_write_files_witness:
  "\<exists>files fs. group_and_write (\<lambda>gs. gs) sample_pq ''archive'' [sample_row, junk_row ''x''] empty_fs = (files, None, fs)
     \<and> length files = 2"
proof -
  obtain files fs where w: "group_and_write (\<lambda>gs. gs) sample_pq ''archive'' [sample_row, junk_row ''x''] empty_fs =
      (files, None, fs)" by (rule sample_writes)
  from group_and_write_files [OF map_order_id sample_pq_contract w] w show ?thesis
    by (simp add: sample_partitions)
qed

text \<open>C31: writing the same batch again (a crash before the commit re-reads it) changes no Parquet file: the
  same rows regenerate the same paths with the same contents.\<close>

theorem rewrite_idempotent:
  assumes "map_order_ok iter" and "map_order_ok iter'"
    and "group_and_write iter pq dir rows fs = (files, None, fs')"
    and "group_and_write iter' pq dir rows fs' = (files', r, fs'')" and "is_parquet q"
  shows "file_at fs'' q = file_at fs' q \<and> (r = None \<longrightarrow> set files' = set files)"
proof
  show "file_at fs'' q = file_at fs' q"
  proof (rule ccontr)
    assume ne: "file_at fs'' q \<noteq> file_at fs' q"
    from write_groups_effect [OF assms(4) [unfolded group_and_write_def] assms(5)
        iter_groups_plain [OF assms(2)] iter_groups(2) [OF assms(2)]] ne
    obtain k g data where kg: "(k, g) \<in> set (iter' (groups rows))" "q = group_file dir k g"
        "write_parquet pq (sort_func row_less g) = Inr data" "file_at fs'' q = Some data" by auto
    then have "(k, g) \<in> set (iter (groups rows))" by (simp add: iter_groups assms(1,2))
    from write_groups_ok [OF assms(3) [unfolded group_and_write_def] iter_groups_plain [OF assms(1)]
        iter_groups(2) [OF assms(1)] this] kg ne show False by auto
  qed
  show "r = None \<longrightarrow> set files' = set files"
    using write_groups_files [OF assms(3) [unfolded group_and_write_def]]
      write_groups_files [of pq dir "iter' (groups rows)" "[]" fs' files' fs''] assms(4)
    by (auto simp: group_and_write_def iter_groups assms(1,2))
qed

theorem rewrite_idempotent_witness:
  "\<exists>files fs files' fs' p. group_and_write (\<lambda>gs. gs) sample_pq ''archive'' [sample_row] empty_fs = (files, None, fs) \<and>
     group_and_write (\<lambda>gs. gs) sample_pq ''archive'' [sample_row] fs = (files', None, fs') \<and> is_parquet p \<and>
     file_at fs' p = file_at fs p \<and> set files' = set files"
proof -
  obtain files fs files' fs' where w:
    "group_and_write (\<lambda>gs. gs) sample_pq ''archive'' [sample_row] empty_fs = (files, None, fs)"
    "group_and_write (\<lambda>gs. gs) sample_pq ''archive'' [sample_row] fs = (files', None, fs')"
    by (rule sample_writes)
  have p: "is_parquet (group_file ''archive'' (row_partition sample_row) [sample_row])"
    by (rule group_file_parquet) simp
  from rewrite_idempotent [OF map_order_id map_order_id w p] w p show ?thesis by blast
qed

subsection \<open>A batch can replace an earlier one\<close>

text \<open>The rows of a batch that go to one directory.\<close>

abbreviation part_rows :: "string \<Rightarrow> row list \<Rightarrow> row list" where
  "part_rows k rows \<equiv> filter (\<lambda>r. row_partition r = k) rows"

text \<open>A batch touches a directory's Parquet files at most at the one of its group.\<close>

lemma group_and_write_dir:
  assumes "map_order_ok iter" "plain_elem k" "is_parquet q"
    and "group_and_write iter pq dir rows fs = (files, res, fs')"
    and "q = (fst (filepath_clean dir), snd (filepath_clean dir) @ [k, n])" "q \<noteq> group_file dir k (part_rows k rows)"
  shows "file_at fs' q = file_at fs q"
proof (rule ccontr)
  assume "file_at fs' q \<noteq> file_at fs q"
  with write_groups_effect [OF assms(4) [unfolded group_and_write_def] assms(3)
      iter_groups_plain [OF assms(1)] iter_groups(2) [OF assms(1)]]
  obtain k' g where g: "(k', g) \<in> set (groups rows)" "q = group_file dir k' g"
    using iter_groups(1) [OF assms(1)] by blast
  then have g': "g = part_rows k' rows" "plain_elem k'"
    using plain_partition by (auto simp: in_groups_iff filter_empty_conv)
  from g(2) assms(5) have "k' = k" by (simp add: group_file_eq [OF g'(2)])
  with g(2) g'(1) assms(6) show False by simp
qed

text \<open>
  Two batches whose rows of one directory have the same first and last stamps have one file there between
  them, and the second's rows are all that it then holds.
\<close>

lemma batch_replaces:
  assumes "arch_good a" "plain_elem k" "part_rows k rows2 \<noteq> []"
    and same: "group_path k (sort_func row_less (part_rows k rows1)) = group_path k (sort_func row_less (part_rows k rows2))"
    and w1: "group_and_write (ar_iter a) (ar_pq a) (ac_dir (ar_config a)) rows1 fs = (files1, None, fs1)"
    and w2: "group_and_write (ar_iter a) (ar_pq a) (ac_dir (ar_config a)) rows2 fs1 = (files2, None, fs2)"
    and r: "row_partition r = k" "\<not> stored a fs r" "r_raw r \<notin> r_raw ` set (part_rows k rows2)"
  shows "\<not> stored a fs2 r"
proof
  let ?dir = "ac_dir (ar_config a)"
  have it: "map_order_ok (ar_iter a)" and pq: "parquet_contract (ar_pq a)"
    using assms(1) by (simp_all add: arch_good_def)
  let ?p = "group_file ?dir k (part_rows k rows1)"
  have p: "?p = group_file ?dir k (part_rows k rows2)" using same by (simp add: group_file_def)
  assume "stored a fs2 r"
  then obtain q data rows r' where q: "is_parquet q" "file_at fs2 q = Some data"
      "pq_read (ar_pq a) data = Inr rows" "r' \<in> set rows" "archived_as r r'"
      "q = (fst (filepath_clean ?dir), snd (filepath_clean ?dir) @ [k, last (snd q)])"
    unfolding stored_def r(1) by metis
  show False
  proof (cases "q = ?p")
    case False
    have "file_at fs2 q = file_at fs q"
      using group_and_write_dir [OF it assms(2) q(1) w1 q(6) False]
        group_and_write_dir [OF it assms(2) q(1) w2 q(6) False [unfolded p]] by simp
    then have "stored a fs r" unfolding stored_def r(1) using q by metis
    with r(2) show False by blast
  next
    case True
    obtain r2 where r2: "r2 \<in> set rows2" "row_partition r2 = k" using assms(3) by (auto simp: filter_empty_conv)
    from group_and_write_file [OF it pq w2 r2(1)] obtain data' rows' where
      "file_at fs2 ?p = Some data'" "pq_read (ar_pq a) data' = Inr rows'"
      "list_all2 archived_as (sort_func row_less (part_rows k rows2)) rows'" by (auto simp: p r2(2))
    with q True have "list_all2 archived_as (sort_func row_less (part_rows k rows2)) rows" by simp
    from list_all2_mem2 [OF this q(4)] obtain x where "x \<in> set (part_rows k rows2)" "archived_as x r'" by auto
    with q(5) r(3) show False by (auto simp: archived_as_def)
  qed
qed

text \<open>The undecodable records of a batch give its rows of \<open>dt=unknown\<close>, all of the zero time.\<close>

lemma unknown_rows:
  "x \<in> set (part_rows unknown_dir (map (\<lambda>rec. fst (decode_row rec)) recs)) \<longleftrightarrow>
     (\<exists>rec \<in> set recs. snd (decode_row rec) \<noteq> None \<and> x = \<lparr>r_station = [], r_ts = zero_time, r_raw = kr_value rec\<rparr>)"
  using decode_row_unknown by (auto simp: image_iff) metis+

lemma unknown_path:
  assumes "rec \<in> set recs" "snd (decode_row rec) \<noteq> None"
  shows "group_path unknown_dir (sort_func row_less (part_rows unknown_dir (map (\<lambda>rec. fst (decode_row rec)) recs))) =
    unknown_dir @ ''/'' @ file_name zero_time zero_time"
proof -
  let ?g = "part_rows unknown_dir (map (\<lambda>rec. fst (decode_row rec)) recs)"
  have "\<lparr>r_station = [], r_ts = zero_time, r_raw = kr_value rec\<rparr> \<in> set ?g" using assms unknown_rows by blast
  then have "?g \<noteq> []" by (metis empty_iff list.set(1))
  then have "hd (sort_func row_less ?g) \<in> set ?g" "last (sort_func row_less ?g) \<in> set ?g"
    by (metis hd_in_set last_in_set set_sort_func sort_func_Nil_iff)+
  then have "r_ts (hd (sort_func row_less ?g)) = zero_time" "r_ts (last (sort_func row_less ?g)) = zero_time"
    unfolding unknown_rows by auto
  then show ?thesis by (simp add: group_path_def)
qed

text \<open>C38: the undecodable records of every batch go to one and the same file, so the next batch that has any
  replaces it. Of two flushes that succeed one after the other, of batches that each have an undecodable
  record among whatever others, the first stores such a record and commits it; after the second it is gone
  from the archive, with its offset still committed, unless the second holds the same bytes or an older
  file did.\<close>

theorem unknown_rows_replaced:
  assumes "arch_good a" "kafka_contract cl polled committed"
    and "arch_flush a cl (map (\<lambda>rec. fst (decode_row rec)) recs1) w = (None, w1)" "set recs1 \<subseteq> set (polled (kafka w))"
    and "arch_flush a cl (map (\<lambda>rec. fst (decode_row rec)) recs2) w2 = (None, w3)"
    and "sink w2 = sink w1" "set (polled (kafka w1)) \<subseteq> set (polled (kafka w2))"
    and "rec \<in> set recs1" "snd (decode_row rec) \<noteq> None" "rec2 \<in> set recs2" "snd (decode_row rec2) \<noteq> None"
    and "\<not> stored a (sink w) (fst (decode_row rec))"
    and "\<forall>rec' \<in> set recs2. snd (decode_row rec') \<noteq> None \<longrightarrow> kr_value rec' \<noteq> kr_value rec"
  shows "stored a (sink w1) (fst (decode_row rec)) \<and> rec \<in> set (committed (kafka w1)) \<and>
    \<not> stored a (sink w3) (fst (decode_row rec)) \<and> rec \<in> set (committed (kafka w3))"
proof -
  let ?rows1 = "map (\<lambda>rec. fst (decode_row rec)) recs1" and ?rows2 = "map (\<lambda>rec. fst (decode_row rec)) recs2"
  have ne: "?rows1 \<noteq> []" "?rows2 \<noteq> []" using assms(8,10) by auto
  have r: "fst (decode_row rec) \<in> set ?rows1" using assms(8) by simp
  have c1: "committed (kafka w1) = polled (kafka w)" and c3: "committed (kafka w3) = polled (kafka w2)"
    using archive.flush_ok_commits [OF assms(2,3) ne(1)] archive.flush_ok_commits [OF assms(2,5) ne(2)] by simp_all
  have s1: "stored a (sink w1) (fst (decode_row rec))" by (rule archive.flush_ok_stores [OF assms(1,3) r])
  from assms(3) obtain files1 where w1: "group_and_write (ar_iter a) (ar_pq a) (ac_dir (ar_config a)) ?rows1 (sink w) = (files1, None, sink w1)"
    by (rule arch_flush_cases) (use ne in auto)
  from assms(5) obtain files2 where w3: "group_and_write (ar_iter a) (ar_pq a) (ac_dir (ar_config a)) ?rows2 (sink w1) = (files2, None, sink w3)"
    by (rule arch_flush_cases) (use ne assms(6) in auto)
  have "part_rows unknown_dir ?rows2 \<noteq> []"
    using unknown_rows [of "\<lparr>r_station = [], r_ts = zero_time, r_raw = kr_value rec2\<rparr>" recs2] assms(10,11)
    by (metis empty_iff list.set(1))
  moreover have "plain_elem unknown_dir" using decode_row_unknown(1) [of rec] assms(9) plain_partition by metis
  moreover have "r_raw (fst (decode_row rec)) \<notin> r_raw ` set (part_rows unknown_dir ?rows2)"
  proof
    assume "r_raw (fst (decode_row rec)) \<in> r_raw ` set (part_rows unknown_dir ?rows2)"
    then obtain x where x: "x \<in> set (part_rows unknown_dir ?rows2)" "r_raw (fst (decode_row rec)) = r_raw x" by blast
    have "r_raw (fst (decode_row rec)) = kr_value rec" by (simp only: decode_row_unknown(2) [OF assms(9)] row.select_convs)
    with x(1) [unfolded unknown_rows] x(2) assms(13) show False by auto
  qed
  moreover have "row_partition (fst (decode_row rec)) = unknown_dir" using decode_row_unknown(1) assms(9) by blast
  ultimately have "\<not> stored a (sink w3) (fst (decode_row rec))"
    using batch_replaces [OF assms(1) _ _ _ w1 w3 _ assms(12)]
      unknown_path [OF assms(8,9)] unknown_path [OF assms(10,11)] by simp
  moreover have "polled (kafka w1) = polled (kafka w)" by (rule archive.flush_polled [OF assms(2,3)])
  ultimately show ?thesis using s1 c1 c3 assms(4,7,8) by auto
qed

lemma sample_archiver_simps [simp]:
  "ar_iter sample_archiver = (\<lambda>gs. gs)" "ar_pq sample_archiver = sample_pq"
  "ac_dir (ar_config sample_archiver) = ''archive''"
  by (simp_all add: sample_archiver_def)

lemma sample_undecodable: "snd (decode_row (sample_record ''x'')) \<noteq> None" "snd (decode_row (sample_record ''y'')) \<noteq> None"
  by code_simp+

lemma sample_flush:
  assumes "rows \<noteq> []" "group_and_write (\<lambda>gs. gs) sample_pq ''archive'' rows fs = (files, None, fs')"
  shows "arch_flush sample_archiver sample_kafka rows \<lparr>kafka = (q, p, c), host = h, sink = fs\<rparr> =
    (None, \<lparr>kafka = (q, p, p), host = h, sink = fs'\<rparr>)"
  using assms by (simp add: arch_flush_def sample_kafka_simps)

theorem unknown_rows_replaced_witness:
  "\<exists>fs1 fs2. stored sample_archiver fs1 (fst (decode_row (sample_record ''x''))) \<and>
     \<not> stored sample_archiver fs2 (fst (decode_row (sample_record ''x'')))"
proof -
  let ?x = "sample_record ''x''" and ?y = "sample_record ''y''"
  obtain files1 fs1 files2 fs2 where
    w1: "group_and_write (\<lambda>gs. gs) sample_pq ''archive'' (map (\<lambda>rec. fst (decode_row rec)) [?x]) empty_fs = (files1, None, fs1)" and
    w2: "group_and_write (\<lambda>gs. gs) sample_pq ''archive'' (map (\<lambda>rec. fst (decode_row rec)) [?y]) fs1 = (files2, None, fs2)"
    by (rule sample_writes)
  have f1: "arch_flush sample_archiver sample_kafka (map (\<lambda>rec. fst (decode_row rec)) [?x])
      \<lparr>kafka = ([], [?x], []), host = 0 :: nat, sink = empty_fs\<rparr> = (None, \<lparr>kafka = ([], [?x], [?x]), host = 0, sink = fs1\<rparr>)"
    by (rule sample_flush [OF _ w1]) simp
  have f2: "arch_flush sample_archiver sample_kafka (map (\<lambda>rec. fst (decode_row rec)) [?y])
      \<lparr>kafka = ([], [?x, ?y], [?x]), host = 0 :: nat, sink = fs1\<rparr> = (None, \<lparr>kafka = ([], [?x, ?y], [?x, ?y]), host = 0, sink = fs2\<rparr>)"
    by (rule sample_flush [OF _ w2]) simp
  have n: "\<not> stored sample_archiver empty_fs (fst (decode_row ?x))" by (simp add: stored_def empty_fs_def)
  have v: "kr_value ?y \<noteq> kr_value ?x" by (simp add: sample_record_def)
  from unknown_rows_replaced [OF sample_archiver_good sample_kafka_contract f1 _ f2 _ _ _ sample_undecodable(1) _ sample_undecodable(2)] n v
  show ?thesis by auto
qed

subsection \<open>Offsets\<close>

text \<open>C1: no offset is committed for a row that is not on disk. In every iteration of a run, whether it
  goes on, returns or fails, the records whose offsets it commits have their rows in the archive it
  leaves.\<close>

theorem archived_before_commit:
  assumes "arch_good a" and "kafka_contract cl polled committed"
    and "polled (kafka w0) = []" and "committed (kafka w0) = []"
    and "batch_reach cl ho flushRecords flushSeconds arch_decode (arch_flush a cl) w0 st"
    and "batch_iter cl ho flushRecords flushSeconds arch_decode (arch_flush a cl) st = out"
  shows "\<exists>new. committed (kafka (iter_world out)) = committed (kafka (b_world st)) @ new \<and>
    (\<forall>rec \<in> set new. stored a (sink (iter_world out)) (fst (decode_row rec)))"
  using archive.iter_commits [OF assms] unfolding arch_decode_def by blast

text \<open>Any one record, handed out by the sample broker to the sample archiver.\<close>

lemma sample_arch_commits:
  "\<exists>w'. batch_iter sample_kafka sample_host 10 5 arch_decode (arch_flush sample_archiver sample_kafka)
      (batch_start sample_host \<lparr>kafka = ([rec], [], []), host = 0, sink = empty_fs\<rparr>) = Inl (None, w') \<and>
    sample_committed (kafka w') = [rec] \<and> sample_polled (kafka w') = [rec]"
proof -
  obtain files fs where w: "group_and_write (\<lambda>gs. gs) sample_pq ''archive'' [fst (decode_row rec)] empty_fs = (files, None, fs)"
    by (rule sample_writes)
  then show ?thesis
    by (simp add: sample_start batch_iter_def sample_kafka_simps Let_def arch_decode_def arch_flush_def)
qed

definition sample_arch_world :: "(krecord list \<times> krecord list \<times> krecord list, nat, fsys) world" where
  "sample_arch_world = \<lparr>kafka = ([sample_record ''x''], [], []), host = 0, sink = empty_fs\<rparr>"

lemma sample_arch_iter:
  "\<exists>w'. batch_iter sample_kafka sample_host 10 5 arch_decode (arch_flush sample_archiver sample_kafka)
      (batch_start sample_host sample_arch_world) = Inl (None, w') \<and>
    sample_committed (kafka w') = [sample_record ''x''] \<and> sample_polled (kafka w') = [sample_record ''x'']"
proof -
  obtain files fs where w: "group_and_write (\<lambda>gs. gs) sample_pq ''archive'' [fst (decode_row (sample_record ''x''))] empty_fs =
      (files, None, fs)" by (rule sample_writes)
  then show ?thesis
    by (simp add: sample_start sample_arch_world_def batch_iter_def sample_kafka_simps Let_def arch_decode_def arch_flush_def)
qed

theorem archived_before_commit_witness:
  "\<exists>w'. batch_iter sample_kafka sample_host 10 5 arch_decode (arch_flush sample_archiver sample_kafka)
      (batch_start sample_host sample_arch_world) = Inl (None, w') \<and>
    sample_committed (kafka w') = [sample_record ''x''] \<and>
    stored sample_archiver (sink w') (fst (decode_row (sample_record ''x'')))"
proof -
  obtain w' where w: "batch_iter sample_kafka sample_host 10 5 arch_decode (arch_flush sample_archiver sample_kafka)
      (batch_start sample_host sample_arch_world) = Inl (None, w')"
    "sample_committed (kafka w') = [sample_record ''x'']" using sample_arch_iter by blast
  have "sample_polled (kafka sample_arch_world) = []" "sample_committed (kafka sample_arch_world) = []"
    by (simp_all add: sample_arch_world_def)
  from archived_before_commit [OF sample_archiver_good sample_kafka_contract this reach_start w(1)] w this
  show ?thesis by (simp add: iter_world_def)
qed

lemma sample_arch_run:
  "\<exists>w'. arch_run sample_archiver sample_kafka sample_host sample_arch_world = Some (None, w')"
proof -
  obtain files fs where w: "group_and_write (\<lambda>gs. gs) sample_pq ''archive'' [fst (decode_row (sample_record ''x''))] empty_fs =
      (files, None, fs)" by (rule sample_writes)
  have "ac_flush_records (ar_config sample_archiver) = 100000" "ac_flush_seconds (ar_config sample_archiver) = 300"
    by (simp_all add: sample_archiver_def)
  with w show ?thesis
    unfolding arch_run_def batch_def
    by (subst batch_loop.simps) (simp add: sample_start sample_arch_world_def batch_iter_def sample_kafka_simps Let_def arch_decode_def arch_flush_def)
qed

text \<open>C13: when the archiver's run returns, the committed offsets are a prefix of what was polled, and a
  return without an error has committed everything polled: nothing is skipped.\<close>

theorem archiver_run_offsets:
  assumes "kafka_contract cl polled committed"
    and "polled (kafka w0) = []" and "committed (kafka w0) = []"
    and "arch_run a cl ho w0 = Some (res, w')"
  shows "\<exists>rest. polled (kafka w') = committed (kafka w') @ rest \<and> (res = None \<longrightarrow> rest = [])"
proof -
  obtain st where "batch_reach cl ho (ac_flush_records (ar_config a)) (ac_flush_seconds (ar_config a)) arch_decode
      (arch_flush a cl) w0 st"
    "batch_iter cl ho (ac_flush_records (ar_config a)) (ac_flush_seconds (ar_config a)) arch_decode
      (arch_flush a cl) st = Inl (res, w')"
    using assms(4) batch_returns_from unfolding arch_run_def by blast
  from archive.return_offsets [OF assms(1-3) this] show ?thesis .
qed

theorem archiver_run_offsets_witness:
  "\<exists>w'. arch_run sample_archiver sample_kafka sample_host sample_arch_world = Some (None, w') \<and>
     sample_polled (kafka w') = sample_committed (kafka w')"
proof -
  obtain w' where r: "arch_run sample_archiver sample_kafka sample_host sample_arch_world = Some (None, w')"
    using sample_arch_run by blast
  have "sample_polled (kafka sample_arch_world) = []" "sample_committed (kafka sample_arch_world) = []"
    by (simp_all add: sample_arch_world_def)
  from archiver_run_offsets [OF sample_kafka_contract this r] r show ?thesis by auto
qed

text \<open>On an archive volume of its own and a disk that does not fail, writing a batch succeeds, so a
  healthy archiver always gets to commit.\<close>

theorem group_and_write_succeeds:
  assumes "archive_tree dir fs" and "map_order_ok iter" and "\<forall>rows. \<exists>data. write_parquet pq rows = Inr data"
  shows "\<exists>files fs'. group_and_write iter pq dir rows fs = (files, None, fs') \<and> archive_tree dir fs'"
  using write_groups_tree [OF assms(1) iter_groups_plain [OF assms(2)], of pq rows "[]"] assms(3)
  unfolding group_and_write_def by blast

theorem group_and_write_succeeds_witness:
  "\<exists>files fs'. group_and_write (\<lambda>gs. gs) sample_pq ''archive'' [sample_row] empty_fs = (files, None, fs')"
  using group_and_write_succeeds [OF empty_fs_tree map_order_id, of sample_pq "''archive''" "[sample_row]"] sample_pq_writes
  by blast

end
