(* ===== verification/Archive_Recovery.thy ===== *)
theory Archive_Recovery
  imports Archive_Facts
begin

section \<open>The archiver across restarts\<close>

text \<open>
  A file is named by the first and the last stamp of its rows, so a later batch of the same date with the
  same two stamps replaces it. Here is what the archive keeps because of it and in spite of it: as long as no
  two dated records of the log have the same stamp, no sequence of sessions, however stopped, loses a
  dated row whose offset is committed, and re-reads after a crash only ever replace rows that are not.
\<close>

subsection \<open>File names\<close>

lemma stamp_ends: "\<exists>s. stamp t = s @ ''Z'' \<and> CHR ''Z'' \<notin> set s"
proof -
  obtain y m d where l: "local_date (utc t) = (y, m, d)" by (cases "local_date (utc t)")
  let ?s = "local_secs (utc t)"
  let ?b = "fmt_year y @ pad_dec 2 m @ pad_dec 2 d @ ''T'' @ pad_dec 2 (?s div 3600) @ pad_dec 2 (?s div 60 mod 60) @
    pad_dec 2 (?s mod 60) @ ''.'' @ pad_dec 6 (t_nsec (utc t) div 1000)"
  have "\<not> is_digit (CHR ''Z'')" by (simp add: is_digit_def)
  then have "CHR ''Z'' \<notin> set ?b" using pad_dec_digits [of "CHR ''Z''"] fmt_year_chars [of "CHR ''Z''"] by auto
  moreover have "stamp t = ?b @ ''Z''" by (simp add: stamp_def format_stamp_def Let_def l)
  ultimately show ?thesis by blast
qed

lemma stamp_prefix:
  assumes "stamp a @ xs = stamp b @ ys"
  shows "stamp a = stamp b"
proof -
  obtain s t where s: "stamp a = s @ ''Z''" "CHR ''Z'' \<notin> set s" and t: "stamp b = t @ ''Z''" "CHR ''Z'' \<notin> set t"
    using stamp_ends by metis
  have "takeWhile (\<lambda>c. c \<noteq> CHR ''Z'') (stamp a @ xs) = s" "takeWhile (\<lambda>c. c \<noteq> CHR ''Z'') (stamp b @ ys) = t"
    using s(2) t(2) unfolding s(1) t(1) by (auto simp: takeWhile_append2 takeWhile_tail)
  with assms s(1) t(1) show ?thesis by simp
qed

text \<open>Groups with one file are of one date and begin with one stamp.\<close>

lemma group_file_same:
  assumes "plain_elem k" "plain_elem k'" "group_file dir k g = group_file dir k' g'"
  shows "k = k' \<and> stamp (r_ts (hd (sort_func row_less g))) = stamp (r_ts (hd (sort_func row_less g')))"
  using assms by (auto simp: group_file_eq file_name_def dest: stamp_prefix)

subsection \<open>What the archive keeps\<close>

abbreviation row_of :: "krecord \<Rightarrow> row" where
  "row_of rec \<equiv> fst (decode_row rec)"

text \<open>Two records of one date never have the same stamp.\<close>

definition distinct_stamps :: "plog \<Rightarrow> bool" where
  "distinct_stamps L \<longleftrightarrow> (\<forall>p i q j. i < length (L p) \<longrightarrow> j < length (L q) \<longrightarrow>
     row_partition (row_of (L p ! i)) \<noteq> unknown_dir \<longrightarrow>
     row_partition (row_of (L p ! i)) = row_partition (row_of (L q ! j)) \<longrightarrow>
     stamp (r_ts (row_of (L p ! i))) = stamp (r_ts (row_of (L q ! j))) \<longrightarrow> p = q \<and> i = j)"

text \<open>The row is in a file of its date that begins with a row below the offsets.\<close>

definition kept :: "archiver \<Rightarrow> plog \<Rightarrow> offsets \<Rightarrow> (fpath \<times> bytes) list \<Rightarrow> row \<Rightarrow> bool" where
  "kept a L off files r \<longleftrightarrow>
     (\<exists>g data rows r' q j. map_of files (group_file (ac_dir (ar_config a)) (row_partition r) g) = Some data \<and>
        pq_read (ar_pq a) data = Inr rows \<and> r' \<in> set rows \<and> archived_as r r' \<and>
        j < off q \<and> j < length (L q) \<and> hd (sort_func row_less g) = row_of (L q ! j) \<and>
        row_partition (row_of (L q ! j)) = row_partition r)"

lemma kept_stored: "kept a L off (fs_files fs) r \<Longrightarrow> stored a fs r"
proof -
  let ?f = "group_file (ac_dir (ar_config a)) (row_partition r)"
  assume "kept a L off (fs_files fs) r"
  then obtain g data rows r' where "file_at fs (?f g) = Some data" "pq_read (ar_pq a) data = Inr rows" "r' \<in> set rows" "archived_as r r'"
    unfolding kept_def by blast
  moreover have "is_parquet (?f g)" by (rule group_file_parquet) simp
  ultimately show ?thesis unfolding stored_def
    by (intro exI [of _ "?f g"] exI [of _ data] exI [of _ rows] exI [of _ r']) (simp add: group_file_eq)
qed

definition archive_since :: "archiver \<Rightarrow> plog \<Rightarrow> offsets \<Rightarrow> (fpath \<times> bytes) list \<Rightarrow> bool" where
  "archive_since a L off files \<longleftrightarrow>
     (\<forall>p i. i < off p \<longrightarrow> i < length (L p) \<and>
        (row_partition (row_of (L p ! i)) \<noteq> unknown_dir \<longrightarrow> kept a L off files (row_of (L p ! i))))"

lemma decoded_rows: "decoded arch_decode recs rows \<longleftrightarrow> rows = map row_of recs"
  by (auto simp: decoded_def arch_decode_def list_all2_conv_all_nth intro: nth_equalityI)

text \<open>A batch of records beyond the offsets leaves the files of what is below them alone.\<close>

lemma batch_keeps:
  assumes "arch_good a" "distinct_stamps L" "hands_out L off recs" "row_partition r \<noteq> unknown_dir"
    and "group_and_write (ar_iter a) (ar_pq a) (ac_dir (ar_config a)) (map row_of recs) fs = (files, res, fs')"
    and "kept a L off (fs_files fs) r"
  shows "kept a L off (fs_files fs') r"
proof -
  let ?k = "row_partition r" and ?dir = "ac_dir (ar_config a)"
  have it: "map_order_ok (ar_iter a)" using assms(1) by (simp add: arch_good_def)
  obtain g data rows r' q j where g: "file_at fs (group_file ?dir ?k g) = Some data"
      "pq_read (ar_pq a) data = Inr rows" "r' \<in> set rows" "archived_as r r'"
      "j < off q" "j < length (L q)" "hd (sort_func row_less g) = row_of (L q ! j)" "row_partition (row_of (L q ! j)) = ?k"
    using assms(6) unfolding kept_def by blast
  have "file_at fs' (group_file ?dir ?k g) = file_at fs (group_file ?dir ?k g)"
  proof (rule ccontr)
    assume "file_at fs' (group_file ?dir ?k g) \<noteq> file_at fs (group_file ?dir ?k g)"
    with write_groups_effect [OF assms(5) [unfolded group_and_write_def] group_file_parquet [OF plain_partition]
        iter_groups_plain [OF it] iter_groups(2) [OF it]]
    obtain k' g' where kg: "(k', g') \<in> set (groups (map row_of recs))" "group_file ?dir ?k g = group_file ?dir k' g'"
      using iter_groups(1) [OF it] by blast
    have "g' \<noteq> []" "set g' \<subseteq> set (map row_of recs)" and k': "\<And>x. x \<in> set g' \<Longrightarrow> row_partition x = k'"
      using kg(1) by (auto simp: in_groups_iff)
    moreover have "hd (sort_func row_less g') \<in> set g'"
      using \<open>g' \<noteq> []\<close> by (metis hd_in_set set_sort_func sort_func_Nil_iff)
    ultimately obtain rec where rec: "rec \<in> set recs" "hd (sort_func row_less g') = row_of rec" "row_partition (row_of rec) = k'"
      by (metis (no_types, lifting) imageE list.set_map subsetD)
    have "plain_elem k'" using rec(3) plain_partition by metis
    from group_file_same [OF plain_partition this kg(2)] g(7) rec(2)
    have same: "?k = k'" "stamp (r_ts (row_of (L q ! j))) = stamp (r_ts (row_of rec))" by auto
    from assms(3) rec(1) obtain i where i: "off (part_of rec) \<le> i" "i < length (L (part_of rec))" "L (part_of rec) ! i = rec"
      by (rule hands_out_mem)
    have "q = part_of rec \<and> j = i"
      using assms(2) [unfolded distinct_stamps_def, rule_format, OF g(6) i(2)] g(8) i(3) same rec(3) assms(4) by simp
    with g(5) i(1) show False by auto
  qed
  with g show ?thesis unfolding kept_def by metis
qed

lemma kept_advance: "kept a L off files r \<Longrightarrow> kept a L (advance off recs) files r"
  unfolding kept_def using advance_le [of off _ recs] by (meson less_le_trans)

lemma batch_kept:
  assumes "arch_good a" "hands_out L off recs" "rec \<in> set recs"
    and "group_and_write (ar_iter a) (ar_pq a) (ac_dir (ar_config a)) (map row_of recs) fs = (files, None, fs')"
  shows "kept a L (advance off recs) (fs_files fs') (row_of rec)"
proof -
  let ?r = "row_of rec" and ?rows = "map row_of recs"
  let ?g = "filter (\<lambda>x. row_partition x = row_partition ?r) ?rows"
  have r: "?r \<in> set ?rows" using assms(3) by simp
  obtain data rows where f: "file_at fs' (group_file (ac_dir (ar_config a)) (row_partition ?r) ?g) = Some data"
      "pq_read (ar_pq a) data = Inr rows" "list_all2 archived_as (sort_func row_less ?g) rows"
    using group_and_write_file [OF _ _ assms(4) r] assms(1) by (auto simp: arch_good_def)
  have "?r \<in> set (sort_func row_less ?g)" using r by simp
  with f(3) obtain r' where r': "r' \<in> set rows" "archived_as ?r r'" by (blast dest: list_all2_mem)
  have "?g \<noteq> []" using r by (auto simp: filter_empty_conv)
  then have "hd (sort_func row_less ?g) \<in> set ?g" by (metis hd_in_set set_sort_func sort_func_Nil_iff)
  then obtain x where x: "x \<in> set recs" "hd (sort_func row_less ?g) = row_of x" "row_partition (row_of x) = row_partition ?r"
    by auto
  from assms(2) x(1) obtain j where "j < advance off recs (part_of x)" "j < length (L (part_of x))" "L (part_of x) ! j = x"
    by (rule hands_out_mem)
  with f r' x(2,3) show ?thesis unfolding kept_def by metis
qed

lemma arch_flush_since:
  assumes "arch_good a" "distinct_stamps L" "archive_since a L off (fs_files (sink w))" "hands_out L off recs"
    "decoded arch_decode recs rows" "arch_flush a cl rows w = (res, w')"
  shows "archive_since a L off (fs_files (sink w')) \<and>
    (committed (kafka w') \<noteq> committed (kafka w) \<longrightarrow> archive_since a L (advance off recs) (fs_files (sink w')))"
proof -
  have rows: "rows = map row_of recs" using assms(5) by (simp add: decoded_rows)
  have keeps: "archive_since a L off (fs_files fs)"
    if "group_and_write (ar_iter a) (ar_pq a) (ac_dir (ar_config a)) rows (sink w) = (files, r, fs)" for files r fs
    using assms(3) batch_keeps [OF assms(1,2,4) _ that [unfolded rows]] unfolding archive_since_def by blast
  from assms(6) show ?thesis
  proof (cases rule: arch_flush_cases)
    case empty
    with assms(3) show ?thesis by simp
  next
    case (failed files err fs)
    with keeps [OF failed(2)] show ?thesis by simp
  next
    case (written files fs ce k)
    have "archive_since a L (advance off recs) (fs_files fs)"
      unfolding archive_since_def
    proof (intro allI impI)
      fix p i assume i: "i < advance off recs p"
      show "i < length (L p) \<and> (row_partition (row_of (L p ! i)) \<noteq> unknown_dir \<longrightarrow>
          kept a L (advance off recs) (fs_files fs) (row_of (L p ! i)))"
      proof (cases "i < off p")
        case True
        with keeps [OF written(2)] kept_advance show ?thesis unfolding archive_since_def by blast
      next
        case False
        then have "off p \<le> i" by simp
        note n = hands_out_nth [OF assms(4) this i]
        from batch_kept [OF assms(1,4) n(2) written(2) [unfolded rows]] n(1) show ?thesis by blast
      qed
    qed
    with keeps [OF written(2)] written(5) show ?thesis by simp
  qed
qed

lemma life_archive_since:
  assumes "group_life arch_decode (arch_flush a) fs_files L files off d" "arch_good a" "distinct_stamps L"
  shows "archive_since a L off d"
proof -
  have "archive_since a L (\<lambda>p. 0) files" by (simp add: archive_since_def)
  then show ?thesis
    by (rule archive.life_invariant [where P = "archive_since a L" and disk = fs_files, OF assms(1)])
      (rule arch_flush_since [OF assms(2,3)])
qed

lemma life_stored:
  assumes "group_life arch_decode (arch_flush a) fs_files L files off (fs_files fs)" "arch_good a" "distinct_stamps L"
    and "i < off p" "row_partition (row_of (L p ! i)) \<noteq> unknown_dir"
  shows "i < length (L p) \<and> stored a fs (row_of (L p ! i))"
  using life_archive_since [OF assms(1-3)] assms(4,5) kept_stored unfolding archive_since_def by blast

lemma dated_partition: "r_station r \<noteq> [] \<Longrightarrow> \<not> is_zero (r_ts r) \<Longrightarrow> row_partition r \<noteq> unknown_dir"
  using format_date_digits [of "CHR ''u''" "utc (r_ts r)"] by (auto simp: row_partition_def unknown_dir_def is_digit_def)

text \<open>C8: no restart loses an archived event. After any number of sessions of the archiver, each stopped after
  any iteration whatever had failed in it, every record below the group's offset in any partition that is
  filed under a date has its row in the archive, provided that no two records of one date have the same
  stamp, by which files are named.\<close>

theorem archive_survives_restarts:
  assumes "group_life arch_decode (arch_flush a) fs_files L files off (fs_files fs)"
    and "arch_good a" and "distinct_stamps L"
    and "i < off p" and "row_partition (fst (decode_row (L p ! i))) \<noteq> unknown_dir"
  shows "i < length (L p) \<and> stored a fs (fst (decode_row (L p ! i)))"
  using assms by (rule life_stored)

lemma sample_arch_life:
  obtains fs :: fsys where "group_life arch_decode (arch_flush sample_archiver ::
     _ \<Rightarrow> (row, krecord list \<times> krecord list \<times> krecord list, nat, fsys) flush_fn) fs_files (log_of rec) []
     (advance (\<lambda>p. 0) [rec]) (fs_files fs)"
proof -
  let ?w = "\<lparr>kafka = ([rec], [], []), host = 0, sink = empty_fs\<rparr> ::
      (krecord list \<times> krecord list \<times> krecord list, nat, fsys) world"
  obtain w' where w: "batch_iter sample_kafka sample_host 10 5 arch_decode (arch_flush sample_archiver sample_kafka)
      (batch_start sample_host ?w) = Inl (None, w')" "sample_committed (kafka w') = [rec]" "sample_polled (kafka w') = [rec]"
    using sample_arch_commits by blast
  have "fs_files empty_fs = []" by (simp add: empty_fs_def)
  from life_session [where disk = fs_files and flush = "arch_flush sample_archiver" and polled = sample_polled and committed = sample_committed and st = "batch_start sample_host ?w",
      OF life_new sample_kafka_contract _ _ _ reach_start w(1), of "[]" "log_of rec"] this
  show thesis by (intro that [of "sink w'"]) (simp add: iter_world_def w(2,3) log_of_hands_out)
qed

theorem archive_survives_restarts_witness:
  "\<exists>rec fs. wire_record raw_topic sample_event = Inr rec \<and> stored sample_archiver fs (fst (decode_row rec)) \<and>
     fst (decode_row rec) = \<lparr>r_station = ''st'', r_ts = sample_time, r_raw = ''MSG,1''\<rparr>"
proof -
  have e: "e_station sample_event = ''st''" "e_ts sample_event = sample_time" "e_raw sample_event = ''MSG,1''"
    by (simp_all add: sample_event_def)
  obtain rec where rec: "wire_record raw_topic sample_event = Inr rec"
      "decode_row rec = (\<lparr>r_station = ''st'', r_ts = sample_time, r_raw = ''MSG,1''\<rparr>, None)"
    using decode_row_of_record [of sample_event raw_topic] by (auto simp: e)
  have k: "row_partition (row_of (log_of rec (part_of rec) ! 0)) \<noteq> unknown_dir"
    using sample_partitions(1) by (simp add: rec(2) sample_row_def)
  have d: "distinct_stamps (log_of rec)" unfolding distinct_stamps_def by (metis log_of_index)
  obtain fs :: fsys where l: "group_life arch_decode (arch_flush sample_archiver ::
     _ \<Rightarrow> (row, krecord list \<times> krecord list \<times> krecord list, nat, fsys) flush_fn) fs_files (log_of rec) []
     (advance (\<lambda>p. 0) [rec]) (fs_files fs)" by (rule sample_arch_life)
  from archive_survives_restarts [OF l sample_archiver_good d _ k] have "stored sample_archiver fs (row_of rec)" by simp
  with rec show ?thesis by auto
qed

end
