(* ===== verification/History.thy ===== *)
theory History
  imports Wire Recovery
begin

section \<open>The history writer (\<open>internal/history\<close>)\<close>

text \<open>
  \<open>traceRow\<close> with its decoding, the table \<open>aircraft_traces\<close> with its unique key, \<open>insert\<close> over a batch
  of statements, \<open>flush\<close> and \<open>run\<close>. Postgres is a parameter: \<open>dbops\<close> says which statement of a batch
  fails and how much of a failed batch stays. The writer's flush interprets \<open>durable_sink\<close>: what a
  flush stored stays stored.
\<close>

subsection \<open>Rows\<close>

record trace_row =
  t_event_station :: bytes
  t_event_ts :: gtime
  t_icao :: bytes
  t_callsign :: "bytes option"
  t_altitude :: "int option"
  t_ground_speed :: "float64 option"
  t_track :: "float64 option"
  t_lat :: "float64 option"
  t_lon :: "float64 option"
  t_vertical_rate :: "int option"
  t_squawk :: "bytes option"
  t_alert :: "bool option"
  t_emergency :: "bool option"
  t_spi :: "bool option"
  t_on_ground :: "bool option"
  t_first_seen :: gtime
  t_last_seen :: gtime
  t_position_ts :: "gtime option"
  t_stations :: "bytes list option"
  t_messages :: int

definition zero_trace :: trace_row where
  "zero_trace =
     \<lparr>t_event_station = [], t_event_ts = zero_time, t_icao = [], t_callsign = None, t_altitude = None,
      t_ground_speed = None, t_track = None, t_lat = None, t_lon = None, t_vertical_rate = None,
      t_squawk = None, t_alert = None, t_emergency = None, t_spi = None, t_on_ground = None,
      t_first_seen = zero_time, t_last_seen = zero_time, t_position_ts = None, t_stations = None, t_messages = 0\<rparr>"

definition int32_lim :: int where
  "int32_lim = 2 ^ 31"

definition zero_float :: float64 where
  "zero_float = \<lparr>f_neg = False, f_mant = 0, f_exp = 0\<rparr>"

abbreviation "dec_opt_string \<equiv> dec_ptr dec_string []"
abbreviation "dec_opt_int32 \<equiv> dec_ptr (dec_int int32_lim) 0"
abbreviation "dec_opt_float \<equiv> dec_ptr dec_float zero_float"
abbreviation "dec_opt_bool \<equiv> dec_ptr dec_bool False"
abbreviation "dec_opt_time \<equiv> dec_ptr dec_time zero_time"

definition trace_fields :: "trace_row fields" where
  "trace_fields =
     [(''event_station_id'', \<lambda>r j. map_option (\<lambda>v. r\<lparr>t_event_station := v\<rparr>) (dec_string (t_event_station r) j)),
      (''event_ts'', \<lambda>r j. map_option (\<lambda>v. r\<lparr>t_event_ts := v\<rparr>) (dec_time (t_event_ts r) j)),
      (''icao'', \<lambda>r j. map_option (\<lambda>v. r\<lparr>t_icao := v\<rparr>) (dec_string (t_icao r) j)),
      (''callsign'', \<lambda>r j. map_option (\<lambda>v. r\<lparr>t_callsign := v\<rparr>) (dec_opt_string (t_callsign r) j)),
      (''altitude'', \<lambda>r j. map_option (\<lambda>v. r\<lparr>t_altitude := v\<rparr>) (dec_opt_int32 (t_altitude r) j)),
      (''ground_speed'', \<lambda>r j. map_option (\<lambda>v. r\<lparr>t_ground_speed := v\<rparr>) (dec_opt_float (t_ground_speed r) j)),
      (''track'', \<lambda>r j. map_option (\<lambda>v. r\<lparr>t_track := v\<rparr>) (dec_opt_float (t_track r) j)),
      (''lat'', \<lambda>r j. map_option (\<lambda>v. r\<lparr>t_lat := v\<rparr>) (dec_opt_float (t_lat r) j)),
      (''lon'', \<lambda>r j. map_option (\<lambda>v. r\<lparr>t_lon := v\<rparr>) (dec_opt_float (t_lon r) j)),
      (''vertical_rate'', \<lambda>r j. map_option (\<lambda>v. r\<lparr>t_vertical_rate := v\<rparr>) (dec_opt_int32 (t_vertical_rate r) j)),
      (''squawk'', \<lambda>r j. map_option (\<lambda>v. r\<lparr>t_squawk := v\<rparr>) (dec_opt_string (t_squawk r) j)),
      (''alert'', \<lambda>r j. map_option (\<lambda>v. r\<lparr>t_alert := v\<rparr>) (dec_opt_bool (t_alert r) j)),
      (''emergency'', \<lambda>r j. map_option (\<lambda>v. r\<lparr>t_emergency := v\<rparr>) (dec_opt_bool (t_emergency r) j)),
      (''spi'', \<lambda>r j. map_option (\<lambda>v. r\<lparr>t_spi := v\<rparr>) (dec_opt_bool (t_spi r) j)),
      (''on_ground'', \<lambda>r j. map_option (\<lambda>v. r\<lparr>t_on_ground := v\<rparr>) (dec_opt_bool (t_on_ground r) j)),
      (''first_seen'', \<lambda>r j. map_option (\<lambda>v. r\<lparr>t_first_seen := v\<rparr>) (dec_time (t_first_seen r) j)),
      (''last_seen'', \<lambda>r j. map_option (\<lambda>v. r\<lparr>t_last_seen := v\<rparr>) (dec_time (t_last_seen r) j)),
      (''position_ts'', \<lambda>r j. map_option (\<lambda>v. r\<lparr>t_position_ts := v\<rparr>) (dec_opt_time (t_position_ts r) j)),
      (''stations'', \<lambda>r j. map_option (\<lambda>v. r\<lparr>t_stations := v\<rparr>) (dec_slice dec_string [] (t_stations r) j)),
      (''messages'', \<lambda>r j. map_option (\<lambda>v. r\<lparr>t_messages := v\<rparr>) (dec_int int64_lim (t_messages r) j))]"

definition unmarshal_trace :: "bytes \<Rightarrow> trace_row option" where
  "unmarshal_trace data =
     (case unmarshal_json data of None \<Rightarrow> None | Some j \<Rightarrow> decode_struct trace_fields zero_trace j)"

definition trace_complete :: "trace_row \<Rightarrow> bool" where
  "trace_complete r \<longleftrightarrow> t_event_station r \<noteq> [] \<and> t_icao r \<noteq> [] \<and> \<not> is_zero (t_event_ts r) \<and>
     \<not> is_zero (t_first_seen r) \<and> \<not> is_zero (t_last_seen r)"

definition decode_trace :: "bytes \<Rightarrow> trace_row result" where
  "decode_trace value =
     (case unmarshal_trace value of
        None \<Rightarrow> Inl (ErrWrap ''decode trace'' (ErrNew ''json''))
      | Some r \<Rightarrow>
          if t_event_station r = [] \<or> t_icao r = [] \<or> is_zero (t_event_ts r) \<or> is_zero (t_first_seen r) \<or>
             is_zero (t_last_seen r)
          then Inl (ErrNew ''trace missing event_station_id, icao, event_ts, first_seen or last_seen'')
          else Inr r)"

subsection \<open>The table\<close>

text \<open>\<open>timestamptz\<close> keeps instants in microseconds; the unique key is over what the table keeps.\<close>

type_synonym trace_key = "bytes \<times> gtime \<times> bytes \<times> gtime"

definition trace_key :: "trace_row \<Rightarrow> trace_key" where
  "trace_key r = (t_event_station r, trunc_micro (t_event_ts r), t_icao r, trunc_micro (t_last_seen r))"

definition table_row :: "trace_row \<Rightarrow> trace_row" where
  "table_row r =
     r\<lparr>t_event_ts := trunc_micro (t_event_ts r), t_first_seen := trunc_micro (t_first_seen r),
       t_last_seen := trunc_micro (t_last_seen r), t_position_ts := map_option trunc_micro (t_position_ts r)\<rparr>"

text \<open>\<open>INSERT ... ON CONFLICT DO NOTHING\<close>: a row whose key is taken leaves the table as it is.\<close>

type_synonym traces = "(trace_key \<times> trace_row) list"

definition insert_trace :: "trace_row \<Rightarrow> traces \<Rightarrow> traces" where
  "insert_trace r tb =
     (if map_of tb (trace_key r) \<noteq> None then tb else tb @ [(trace_key r, table_row r)])"

definition insert_traces :: "trace_row list \<Rightarrow> traces \<Rightarrow> traces" where
  "insert_traces rows tb = foldl (\<lambda>tb r. insert_trace r tb) tb rows"

subsection \<open>The writer\<close>

text \<open>
  The database: the table, and what becomes of each batch sent. \<open>BatchRuns kept\<close>: the server runs the
  batch, and a row that breaks a \<open>NOT NULL\<close> (a nil \<open>stations\<close>, which pgx sends as \<open>NULL\<close>) fails its
  statement. \<open>BatchExec i err kept\<close>: reading the result of statement \<open>i\<close> fails. \<open>BatchClose err kept\<close>:
  all results are read, \<open>Close\<close> fails. After a failure the rows of the first \<open>kept\<close> statements are in
  the table (none, when the server ran the batch as one transaction; any number, when only the
  connection was lost), and never those from a broken row on.
\<close>

datatype batch_outcome = BatchRuns nat | BatchExec nat gerror nat | BatchClose gerror nat

record tracedb =
  td_table :: traces
  td_script :: "batch_outcome list"

definition storable :: "trace_row \<Rightarrow> bool" where
  "storable r \<longleftrightarrow> t_stations r \<noteq> None"

definition keep_rows :: "nat \<Rightarrow> trace_row list \<Rightarrow> tracedb \<Rightarrow> tracedb" where
  "keep_rows n rows db = db\<lparr>td_table := insert_traces (take n (takeWhile storable rows)) (td_table db)\<rparr>"

definition insert_error :: "nat \<Rightarrow> gerror \<Rightarrow> gerror" where
  "insert_error i err = ErrWrap (''insert trace '' @ itoa (int i)) err"

definition next_batch :: "tracedb \<Rightarrow> batch_outcome \<times> tracedb" where
  "next_batch db =
     (case td_script db of [] \<Rightarrow> (BatchRuns 0, db) | o1 # os \<Rightarrow> (o1, db\<lparr>td_script := os\<rparr>))"

text \<open>\<open>insert\<close>: the loop over \<open>br.Exec\<close> stops at the first statement that fails.\<close>

definition insert_batch :: "trace_row list \<Rightarrow> tracedb \<Rightarrow> gerror option \<times> tracedb" where
  "insert_batch rows db0 =
     (let (out, db) = next_batch db0;
          bad = length (takeWhile storable rows);
          kept = (case out of BatchRuns n \<Rightarrow> n | BatchExec _ _ n \<Rightarrow> n | BatchClose _ n \<Rightarrow> n)
      in case out of
           BatchExec i err _ \<Rightarrow>
             if i < length rows \<and> i \<le> bad then (Some (insert_error i err), keep_rows kept rows db)
             else if bad < length rows then
               (Some (insert_error bad (ErrNew ''null value in column stations'')), keep_rows kept rows db)
             else (None, keep_rows (length rows) rows db)
         | _ \<Rightarrow>
             if bad < length rows then
               (Some (insert_error bad (ErrNew ''null value in column stations'')), keep_rows kept rows db)
             else (case out of
                     BatchClose err _ \<Rightarrow> (Some err, keep_rows kept rows db)
                   | _ \<Rightarrow> (None, keep_rows (length rows) rows db)))"

record hist_config =
  hc_brokers :: "string list"
  hc_database_url :: string
  hc_topic :: string
  hc_group :: string
  hc_flush_records :: int
  hc_flush_seconds :: int

definition state_history_topic :: string where
  "state_history_topic = ''aircraft.state_history''"

definition load_hist_config :: "(string \<Rightarrow> string) \<Rightarrow> hist_config result" where
  "load_hist_config getenv =
     (case brokers getenv of
        Inl err \<Rightarrow> Inl err
      | Inr bs \<Rightarrow>
          (let cfg = \<lparr>hc_brokers = bs, hc_database_url = getenv ''DATABASE_URL'', hc_topic = state_history_topic,
                      hc_group = ''history'', hc_flush_records = 1000, hc_flush_seconds = 5\<rparr>
           in if hc_database_url cfg = [] then Inl (ErrNew ''DATABASE_URL is not set'') else Inr cfg))"

definition hist_decode :: "krecord \<Rightarrow> trace_row result" where
  "hist_decode rec = decode_trace (kr_value rec)"

definition hist_flush :: "hist_config \<Rightarrow> 'k kclient \<Rightarrow> (trace_row, 'k, 'e, tracedb) flush_fn" where
  "hist_flush cfg cl rows w =
     (if rows = [] then (None, w)
      else
        (case insert_batch rows (sink w) of
           (Some err, db) \<Rightarrow> (Some err, w\<lparr>sink := db\<rparr>)
         | (None, db) \<Rightarrow>
             (case k_commit cl (kafka w) of
                (Some err, k) \<Rightarrow> (Some (ErrWrap ''commit offsets'' err), w\<lparr>sink := db, kafka := k\<rparr>)
              | (None, k) \<Rightarrow> (None, w\<lparr>sink := db, kafka := k\<rparr>))))"

definition hist_run ::
  "hist_config \<Rightarrow> 'k kclient \<Rightarrow> 'e hostops \<Rightarrow> ('k, 'e, tracedb) world \<Rightarrow>
   (gerror option \<times> ('k, 'e, tracedb) world) option" where
  "hist_run cfg cl ho w =
     batch cl ho (hc_flush_records cfg) (hc_flush_seconds cfg) hist_decode (hist_flush cfg cl) w"

subsection \<open>Inserting\<close>

lemma insert_trace_map: "map_of (insert_trace r tb) k =
    (if k = trace_key r \<and> map_of tb k = None then Some (table_row r) else map_of tb k)"
  by (auto simp: insert_trace_def map_add_def split: option.splits)

lemma insert_traces_simps [simp]:
  "insert_traces [] tb = tb" "insert_traces (r # rows) tb = insert_traces rows (insert_trace r tb)"
  by (simp_all add: insert_traces_def)

lemma insert_traces_append: "insert_traces (xs @ ys) tb = insert_traces ys (insert_traces xs tb)"
  by (simp add: insert_traces_def)

lemma insert_traces_map: "map_of (insert_traces rows tb) k =
    (case map_of tb k of Some r \<Rightarrow> Some r
     | None \<Rightarrow> map_option table_row (List.find (\<lambda>r. trace_key r = k) rows))"
  by (induction rows arbitrary: tb) (auto simp: insert_trace_map split: option.splits)

lemma insert_traces_noop:
  "(\<And>r. r \<in> set rows \<Longrightarrow> map_of tb (trace_key r) \<noteq> None) \<Longrightarrow> insert_traces rows tb = tb"
  by (induction rows) (auto simp: insert_trace_def)

lemma insert_traces_key:
  assumes "r \<in> set rows"
  shows "map_of (insert_traces rows tb) (trace_key r) \<noteq> None"
proof -
  have "List.find (\<lambda>x. trace_key x = trace_key r) rows \<noteq> None" using assms by (simp only: find_None_iff) blast
  then show ?thesis by (simp add: insert_traces_map split: option.split)
qed

lemma insert_traces_mono: "map_of tb k = Some r \<Longrightarrow> map_of (insert_traces rows tb) k = Some r"
  by (simp add: insert_traces_map)

lemma insert_traces_again: "insert_traces rows (insert_traces rows tb) = insert_traces rows tb"
  by (rule insert_traces_noop) (rule insert_traces_key)

lemma insert_traces_resume: "insert_traces rows (insert_traces (take n rows) tb) = insert_traces rows tb"
proof -
  have "insert_traces rows (insert_traces (take n rows) tb) =
      insert_traces (drop n rows) (insert_traces (take n rows) (insert_traces (take n rows) tb))"
    by (metis append_take_drop_id insert_traces_append)
  also have "\<dots> = insert_traces (take n rows @ drop n rows) tb"
    unfolding insert_traces_again insert_traces_append ..
  finally show ?thesis by simp
qed

lemma insert_traces_distinct: "distinct (map fst tb) \<Longrightarrow> distinct (map fst (insert_traces rows tb))"
proof (induction rows arbitrary: tb)
  case (Cons r rows)
  have "distinct (map fst (insert_trace r tb))"
    using Cons.prems by (auto simp: insert_trace_def map_of_eq_None_iff)
  with Cons.IH show ?case by simp
qed simp

lemma keep_rows_table: "td_table (keep_rows n rows db) = insert_traces (take n (takeWhile storable rows)) (td_table db)"
  by (simp add: keep_rows_def)

lemma next_batch_table: "next_batch db = (out, db') \<Longrightarrow> td_table db' = td_table db"
  by (auto simp: next_batch_def split: list.splits)

lemma takeWhile_all: "length (takeWhile P xs) < length xs \<or> takeWhile P xs = xs"
  using length_takeWhile_le [of P xs] takeWhile_eq_take [of P xs] by (metis le_neq_implies_less take_all_iff order_refl)

text \<open>Whatever a batch comes to, some of its first rows are in; when it is no error, all of them.\<close>

lemma insert_batch_effect:
  assumes "insert_batch rows db = (res, db')"
  shows "\<exists>n. td_table db' = insert_traces (take n rows) (td_table db) \<and> (res = None \<longrightarrow> take n rows = rows)"
proof -
  obtain out db1 where o: "next_batch db = (out, db1)" by (cases "next_batch db")
  have tb: "td_table db1 = td_table db" by (rule next_batch_table [OF o])
  have k: "\<exists>n. td_table (keep_rows m rows db1) = insert_traces (take n rows) (td_table db)" for m
    by (rule exI [of _ "min m (length (takeWhile storable rows))"])
      (metis keep_rows_table takeWhile_eq_take take_take tb)
  have all: "td_table (keep_rows (length rows) rows db1) = insert_traces rows (td_table db)"
    if "\<not> length (takeWhile storable rows) < length rows"
  proof -
    have t: "takeWhile storable rows = rows" using takeWhile_all [of storable rows] that by blast
    show ?thesis unfolding keep_rows_table tb t by (simp only: take_all_iff order_refl take_all)
  qed
  consider (err) m e where "res = Some e" "db' = keep_rows m rows db1"
    | (ok) "res = None" "db' = keep_rows (length rows) rows db1" "\<not> length (takeWhile storable rows) < length rows"
    using assms o by (auto simp: insert_batch_def Let_def split: batch_outcome.splits if_splits)
  then show ?thesis
  proof cases
    case err
    with k [of m] show ?thesis by auto
  next
    case ok
    with all show ?thesis by (intro exI [of _ "length rows"]) simp
  qed
qed

subsection \<open>The contract with the batch loop\<close>

text \<open>A trace is stored when the table has a row with its key.\<close>

definition trace_stored :: "hist_config \<Rightarrow> tracedb \<Rightarrow> trace_row \<Rightarrow> bool" where
  "trace_stored cfg db r \<longleftrightarrow> map_of (td_table db) (trace_key r) \<noteq> None"

lemma hist_flush_cases:
  assumes "hist_flush cfg cl rows w = (res, w')"
  obtains (empty) "rows = []" "res = None" "w' = w"
  | (failed) err db where "rows \<noteq> []" "insert_batch rows (sink w) = (Some err, db)"
      "res = Some err" "w' = w\<lparr>sink := db\<rparr>"
  | (inserted) db ce k where "rows \<noteq> []" "insert_batch rows (sink w) = (None, db)"
      "k_commit cl (kafka w) = (ce, k)" "res = map_option (ErrWrap ''commit offsets'') ce"
      "w' = w\<lparr>sink := db, kafka := k\<rparr>"
proof (cases "rows = []")
  case True
  with assms empty show thesis by (simp add: hist_flush_def)
next
  case False
  obtain e db where g: "insert_batch rows (sink w) = (e, db)" by (cases "insert_batch rows (sink w)")
  obtain ce k where k: "k_commit cl (kafka w) = (ce, k)" by (cases "k_commit cl (kafka w)")
  show thesis
  proof (cases e)
    case None
    with assms False g k inserted [OF False] show thesis by (cases ce) (auto simp: hist_flush_def)
  next
    case (Some err)
    with assms False g failed [OF False] show thesis by (auto simp: hist_flush_def)
  qed
qed

lemma insert_batch_ok_stores:
  "insert_batch rows db = (None, db') \<Longrightarrow> r \<in> set rows \<Longrightarrow> trace_stored cfg db' r"
  using insert_batch_effect [of rows db None db'] insert_traces_key by (fastforce simp: trace_stored_def)

lemma insert_batch_mono:
  "insert_batch rows db = (res, db') \<Longrightarrow> trace_stored cfg db r \<Longrightarrow> trace_stored cfg db' r"
  using insert_batch_effect [of rows db res db'] insert_traces_mono by (fastforce simp: trace_stored_def)

interpretation history: durable_sink "\<lambda>_. True" hist_flush trace_stored
proof unfold_locales
  fix cfg :: hist_config and cl :: "'k kclient" and w w' :: "('k, 'e, tracedb) world" and rows r res
    and polled committed :: "'k \<Rightarrow> krecord list"
  show "hist_flush cfg cl [] w = (None, w)" by (simp add: hist_flush_def)
  show "hist_flush cfg cl rows w = (None, w') \<Longrightarrow> r \<in> set rows \<Longrightarrow> trace_stored cfg (sink w') r"
    by (erule hist_flush_cases) (auto intro: insert_batch_ok_stores)
  show "hist_flush cfg cl rows w = (res, w') \<Longrightarrow> trace_stored cfg (sink w) r \<Longrightarrow> trace_stored cfg (sink w') r"
    by (erule hist_flush_cases) (auto intro: insert_batch_mono)
  assume c: "kafka_contract cl polled committed"
  show "hist_flush cfg cl rows w = (res, w') \<Longrightarrow> polled (kafka w') = polled (kafka w)"
    by (erule hist_flush_cases) (auto dest: kafka_contract_commit(1) [OF c])
  show "hist_flush cfg cl rows w = (res, w') \<Longrightarrow>
      committed (kafka w') = committed (kafka w) \<or> committed (kafka w') = polled (kafka w)"
    by (erule hist_flush_cases) (auto dest: kafka_contract_commit(3) [OF c])
  show "hist_flush cfg cl rows w = (None, w') \<Longrightarrow> rows \<noteq> [] \<Longrightarrow> committed (kafka w') = polled (kafka w)"
    by (erule hist_flush_cases) (auto dest: kafka_contract_commit(2) [OF c])
  show "hist_flush cfg cl rows w = (res, w') \<Longrightarrow> committed (kafka w') \<noteq> committed (kafka w) \<Longrightarrow>
      r \<in> set rows \<Longrightarrow> trace_stored cfg (sink w') r"
    by (erule hist_flush_cases) (auto intro: insert_batch_ok_stores)
qed

end
