(* ===== verification/History_Facts.thy ===== *)
theory History_Facts
  imports History
begin

section \<open>What the history writer promises\<close>

text \<open>
  Committed records are in the table, at every moment and for good; a batch that failed part of the
  way and is read again ends as if it had run once; the table's key is unique and its rows complete;
  unknown fields of a Trace are ignored.
\<close>

subsection \<open>Samples\<close>

definition sample_trace :: trace_row where
  "sample_trace = zero_trace\<lparr>t_event_station := ''st'', t_event_ts := sample_time, t_icao := ''abc123'',
     t_first_seen := sample_time, t_last_seen := sample_time, t_stations := Some [''st'']\<rparr>"

definition trace_json :: "trace_row \<Rightarrow> json" where
  "trace_json r =
     JObj [(''event_station_id'', JStr (quote_body (t_event_station r))),
           (''icao'', JStr (quote_body (t_icao r))),
           (''event_ts'', JStr (projr (marshal_time (t_event_ts r)))),
           (''first_seen'', JStr (projr (marshal_time (t_first_seen r)))),
           (''last_seen'', JStr (projr (marshal_time (t_last_seen r)))),
           (''callsign'', JNull),
           (''stations'', JArr (map (\<lambda>s. JStr (quote_body s)) (case t_stations r of None \<Rightarrow> [] | Some ss \<Rightarrow> ss)))]"

lemma trace_lower_names [simp]:
  "lower_name ''event_station_id''" "lower_name ''event_ts''" "lower_name ''icao''" "lower_name ''callsign''"
  "lower_name ''altitude''" "lower_name ''ground_speed''" "lower_name ''track''" "lower_name ''lat''"
  "lower_name ''lon''" "lower_name ''vertical_rate''" "lower_name ''squawk''" "lower_name ''alert''"
  "lower_name ''emergency''" "lower_name ''spi''" "lower_name ''on_ground''" "lower_name ''first_seen''"
  "lower_name ''last_seen''" "lower_name ''position_ts''" "lower_name ''stations''" "lower_name ''messages''"
  by (simp_all add: lower_name_def lower_char_def)

lemma trace_fields_lower: "list_all (\<lambda>(n, f). lower_name n) trace_fields"
  by (simp add: trace_fields_def)

lemma trace_field_for: "lower_name k \<Longrightarrow> field_for trace_fields k = map_of trace_fields k"
  by (rule field_for_lower [OF trace_fields_lower])

lemma trace_field_for_simps [simp]:
  "field_for trace_fields ''event_station_id'' = Some (\<lambda>r j. map_option (\<lambda>v. r\<lparr>t_event_station := v\<rparr>) (dec_string (t_event_station r) j))"
  "field_for trace_fields ''icao'' = Some (\<lambda>r j. map_option (\<lambda>v. r\<lparr>t_icao := v\<rparr>) (dec_string (t_icao r) j))"
  "field_for trace_fields ''event_ts'' = Some (\<lambda>r j. map_option (\<lambda>v. r\<lparr>t_event_ts := v\<rparr>) (dec_time (t_event_ts r) j))"
  "field_for trace_fields ''first_seen'' = Some (\<lambda>r j. map_option (\<lambda>v. r\<lparr>t_first_seen := v\<rparr>) (dec_time (t_first_seen r) j))"
  "field_for trace_fields ''last_seen'' = Some (\<lambda>r j. map_option (\<lambda>v. r\<lparr>t_last_seen := v\<rparr>) (dec_time (t_last_seen r) j))"
  "field_for trace_fields ''callsign'' = Some (\<lambda>r j. map_option (\<lambda>v. r\<lparr>t_callsign := v\<rparr>) (dec_opt_string (t_callsign r) j))"
  "field_for trace_fields ''stations'' = Some (\<lambda>r j. map_option (\<lambda>v. r\<lparr>t_stations := v\<rparr>) (dec_slice dec_string [] (t_stations r) j))"
  by (subst trace_field_for, simp, simp add: trace_fields_def)+

text \<open>A record of the processor: the sample Trace as JSON text.\<close>

definition trace_record :: "trace_row \<Rightarrow> krecord" where
  "trace_record r = sample_record (print_json (trace_json r))"

lemma decode_sample_trace: "decode_trace (print_json (trace_json sample_trace)) = Inr sample_trace"
proof -
  obtain s where s: "marshal_time sample_time = Inr s" "parse_time s = Some sample_time" "wf_raw s"
    using time_json_ok [OF sample_time_ok(1)] wf_raw_marshal_time by blast
  have q: "quote_body ''st'' = ''st''" "unquote ''st'' = ''st''"
    by (simp_all add: quote_body_lower unquote_lower lower_name_def lower_char_def)
  have v: "valid_utf8 ''abc123''" by (simp add: valid_utf8_ascii)
  let ?j = "trace_json sample_trace"
  have "wf_json ?j" "json_depth ?j \<le> max_nesting"
    by (simp_all add: trace_json_def sample_trace_def zero_trace_def s wf_raw_lower max_nesting_def)
  then have "unmarshal_json (print_json ?j) = Some ?j" by (rule unmarshal_print)
  moreover have "decode_struct trace_fields zero_trace ?j = Some sample_trace"
    by (simp add: trace_json_def sample_trace_def unquote_lower s q unquote_quote [OF v] dec_ptr_def dec_slice_def)
       (simp add: zero_trace_def)
  moreover have "t_event_station sample_trace \<noteq> []" "t_icao sample_trace \<noteq> []"
    "t_event_ts sample_trace = sample_time" "t_first_seen sample_trace = sample_time" "t_last_seen sample_trace = sample_time"
    by (simp_all add: sample_trace_def)
  ultimately show ?thesis by (simp add: decode_trace_def unmarshal_trace_def)
qed

definition sample_hist_config :: hist_config where
  "sample_hist_config = \<lparr>hc_brokers = [''b''], hc_database_url = ''db'', hc_topic = state_history_topic,
     hc_group = ''history'', hc_flush_records = 1000, hc_flush_seconds = 5\<rparr>"

definition empty_db :: tracedb where
  "empty_db = \<lparr>td_table = [], td_script = []\<rparr>"

definition sample_hist_world :: "(krecord list \<times> krecord list \<times> krecord list, nat, tracedb) world" where
  "sample_hist_world = \<lparr>kafka = ([trace_record sample_trace], [], []), host = 0, sink = empty_db\<rparr>"

lemma insert_sample: "insert_batch [sample_trace] empty_db =
    (None, \<lparr>td_table = [(trace_key sample_trace, table_row sample_trace)], td_script = []\<rparr>)"
proof -
  have "storable sample_trace" by (simp add: storable_def sample_trace_def)
  then show ?thesis
    by (simp add: insert_batch_def next_batch_def empty_db_def keep_rows_def insert_trace_def)
qed

lemma sample_hist_run:
  "\<exists>w'. hist_run sample_hist_config sample_kafka sample_host sample_hist_world = Some (None, w') \<and>
     sample_committed (kafka w') = [trace_record sample_trace]"
proof -
  have d: "hist_decode (trace_record sample_trace) = Inr sample_trace"
    by (simp add: hist_decode_def trace_record_def sample_record_def decode_sample_trace)
  have "hc_flush_records sample_hist_config = 1000" "hc_flush_seconds sample_hist_config = 5"
    by (simp_all add: sample_hist_config_def)
  with d insert_sample show ?thesis
    unfolding hist_run_def batch_def
    by (subst batch_loop.simps)
      (simp add: sample_start sample_hist_world_def batch_iter_def sample_kafka_simps Let_def hist_flush_def)
qed

lemma sample_hist_start: "sample_polled (kafka sample_hist_world) = []" "sample_committed (kafka sample_hist_world) = []"
  by (simp_all add: sample_hist_world_def)

subsection \<open>Durability\<close>

text \<open>Within one run no history is lost: whatever way the writer's run ends, and whatever failed in it, every record whose
  offset the group has committed is a Trace that decodes, and its row is in the table.\<close>

theorem committed_traces_persist:
  assumes "kafka_contract cl polled committed" and "polled (kafka w0) = []" and "committed (kafka w0) = []"
    and "hist_run cfg cl ho w0 = Some (res, w')" and "rec \<in> set (committed (kafka w'))"
  shows "\<exists>r. decode_trace (kr_value rec) = Inr r \<and> map_of (td_table (sink w')) (trace_key r) \<noteq> None"
  using history.return_durable [OF TrueI assms(1-3) assms(4) [unfolded hist_run_def] assms(5)]
  unfolding hist_decode_def trace_stored_def .

theorem committed_traces_persist_witness:
  "\<exists>w'. hist_run sample_hist_config sample_kafka sample_host sample_hist_world = Some (None, w') \<and>
     map_of (td_table (sink w')) (trace_key sample_trace) \<noteq> None"
proof -
  obtain w' where w: "hist_run sample_hist_config sample_kafka sample_host sample_hist_world = Some (None, w')"
     "sample_committed (kafka w') = [trace_record sample_trace]" using sample_hist_run by blast
  then have "trace_record sample_trace \<in> set (sample_committed (kafka w'))" by simp
  from committed_traces_persist [OF sample_kafka_contract sample_hist_start w(1) this]
  have "map_of (td_table (sink w')) (trace_key sample_trace) \<noteq> None"
    by (simp add: trace_record_def sample_record_def decode_sample_trace)
  with w(1) show ?thesis by blast
qed

text \<open>An interrupted insert is made good by the re-read: whatever part of a batch a failure left in the
  table, inserting the batch again gives the table of one complete insert, and once it is complete any
  further re-read changes nothing.\<close>

theorem insert_resumes:
  assumes "insert_batch rows db = (res1, db1)" and "insert_batch rows db1 = (None, db2)"
    and "insert_batch rows db2 = (res3, db3)"
  shows "td_table db2 = insert_traces rows (td_table db) \<and> td_table db3 = td_table db2"
proof -
  obtain n where n: "td_table db1 = insert_traces (take n rows) (td_table db)"
    using insert_batch_effect [OF assms(1)] by blast
  have "td_table db2 = insert_traces rows (td_table db1)" using insert_batch_effect [OF assms(2)] by auto
  then have 2: "td_table db2 = insert_traces rows (td_table db)" unfolding n insert_traces_resume .
  obtain m where "td_table db3 = insert_traces (take m rows) (td_table db2)"
    using insert_batch_effect [OF assms(3)] by blast
  moreover have "map_of (td_table db2) (trace_key r) \<noteq> None" if "r \<in> set (take m rows)" for r
    unfolding 2 by (rule insert_traces_key) (rule in_set_takeD [OF that])
  ultimately have "td_table db3 = td_table db2" by (simp add: insert_traces_noop)
  with 2 show ?thesis ..
qed

definition failing_db :: tracedb where
  "failing_db = \<lparr>td_table = [], td_script = [BatchExec 0 (ErrNew ''connection lost'') 1]\<rparr>"

theorem insert_resumes_witness:
  "\<exists>e db1 db2 db3. insert_batch [sample_trace] failing_db = (Some e, db1) \<and> insert_batch [sample_trace] db1 = (None, db2) \<and>
     insert_batch [sample_trace] db2 = (None, db3) \<and> td_table db2 = insert_traces [sample_trace] [] \<and>
     td_table db3 = td_table db2"
proof -
  have st: "storable sample_trace" by (simp add: storable_def sample_trace_def)
  obtain e db1 where 1: "insert_batch [sample_trace] failing_db = (Some e, db1)" "td_script db1 = []"
    using st by (simp add: insert_batch_def next_batch_def failing_db_def keep_rows_def)
  obtain db2 where 2: "insert_batch [sample_trace] db1 = (None, db2)" "td_script db2 = []"
    using st 1(2) by (simp add: insert_batch_def next_batch_def keep_rows_def)
  obtain db3 where 3: "insert_batch [sample_trace] db2 = (None, db3)"
    using st 2(2) by (simp add: insert_batch_def next_batch_def keep_rows_def)
  from insert_resumes [OF 1(1) 2(1) 3] 1(1) 2(1) 3 show ?thesis by (auto simp: failing_db_def)
qed

subsection \<open>The table\<close>

definition table_ok :: "traces \<Rightarrow> bool" where
  "table_ok tb \<longleftrightarrow> distinct (map fst tb) \<and>
     list_all (\<lambda>(k, r). k = trace_key r \<and> t_event_station r \<noteq> [] \<and> t_icao r \<noteq> [] \<and> t_stations r \<noteq> None) tb"

lemma trace_key_table_row [simp]: "trace_key (table_row r) = trace_key r"
  by (simp add: trace_key_def table_row_def)

lemma insert_trace_ok:
  assumes "table_ok tb" "storable r" "t_event_station r \<noteq> []" "t_icao r \<noteq> []"
  shows "table_ok (insert_trace r tb)"
  using assms
  by (auto simp: table_ok_def insert_trace_def storable_def map_of_eq_None_iff table_row_def [of r]
      simp flip: trace_key_table_row [of r])

lemma insert_traces_ok:
  "table_ok tb \<Longrightarrow> (\<And>r. r \<in> set rows \<Longrightarrow> storable r \<and> t_event_station r \<noteq> [] \<and> t_icao r \<noteq> []) \<Longrightarrow>
     table_ok (insert_traces rows tb)"
  by (induction rows arbitrary: tb) (auto intro: insert_trace_ok)

lemma insert_batch_keeps:
  assumes "insert_batch rows db = (res, db')"
  shows "\<exists>n. td_table db' = insert_traces (take n (takeWhile storable rows)) (td_table db)"
proof -
  obtain out db1 where o: "next_batch db = (out, db1)" by (cases "next_batch db")
  with assms obtain n where "db' = keep_rows n rows db1"
    by (auto simp: insert_batch_def Let_def split: batch_outcome.splits if_splits)
  then show ?thesis using next_batch_table [OF o] by (auto simp: keep_rows_table)
qed

lemma decode_trace_complete: "decode_trace v = Inr r \<Longrightarrow> t_event_station r \<noteq> [] \<and> t_icao r \<noteq> []"
  by (auto simp: decode_trace_def split: option.splits if_splits)

lemma hist_flush_table_ok:
  assumes "all_decoded hist_decode rows" "hist_flush cfg cl rows w = (res, w')" "table_ok (td_table (sink w))"
  shows "table_ok (td_table (sink w'))"
proof -
  have ins: "table_ok (td_table db)" if i: "insert_batch rows (sink w) = (e, db)" for e db
  proof -
    obtain n where n: "td_table db = insert_traces (take n (takeWhile storable rows)) (td_table (sink w))"
      using insert_batch_keeps [OF i] by blast
    have "storable r \<and> t_event_station r \<noteq> [] \<and> t_icao r \<noteq> []" if r: "r \<in> set (take n (takeWhile storable rows))" for r
    proof -
      from r have "r \<in> set rows" "storable r" by (auto dest!: in_set_takeD dest: set_takeWhileD)
      with assms(1) show ?thesis by (auto simp: all_decoded_def hist_decode_def dest: decode_trace_complete)
    qed
    then show ?thesis unfolding n by (rule insert_traces_ok [OF assms(3)])
  qed
  from assms(2) show ?thesis by (cases rule: hist_flush_cases) (use assms(3) ins in simp_all)
qed

text \<open>C36: the table's invariant survives any run: keys are unique, each row is filed under its own key, and
  every row has a station, an aircraft and a stations array.\<close>

theorem hist_run_table_ok:
  assumes "table_ok (td_table (sink w0))" and "hist_run cfg cl ho w0 = Some (res, w')"
  shows "table_ok (td_table (sink w'))"
  by (rule batch_sink_invariant [where P = "\<lambda>db. table_ok (td_table db)",
        OF assms(2) [unfolded hist_run_def] _ assms(1)])
    (rule hist_flush_table_ok)

theorem hist_run_table_ok_witness:
  "\<exists>w'. hist_run sample_hist_config sample_kafka sample_host sample_hist_world = Some (None, w') \<and>
     table_ok (td_table (sink w'))"
proof -
  obtain w' where w: "hist_run sample_hist_config sample_kafka sample_host sample_hist_world = Some (None, w')"
    using sample_hist_run by blast
  have "table_ok (td_table (sink sample_hist_world))"
    by (simp add: sample_hist_world_def empty_db_def table_ok_def)
  from hist_run_table_ok [OF this w] w show ?thesis by blast
qed

text \<open>The insert of a batch is the table's specification: after a successful batch a key that was there
  keeps its row, and a new key has the first row of the batch with that key, as the table keeps it.\<close>

theorem insert_batch_spec:
  assumes "insert_batch rows db = (None, db')"
  shows "map_of (td_table db') k =
    (case map_of (td_table db) k of Some r \<Rightarrow> Some r
     | None \<Rightarrow> map_option table_row (List.find (\<lambda>r. trace_key r = k) rows))"
proof -
  have "td_table db' = insert_traces rows (td_table db)" using insert_batch_effect [OF assms] by auto
  then show ?thesis by (simp only: insert_traces_map)
qed

theorem insert_batch_spec_witness:
  "map_of [(trace_key sample_trace, table_row sample_trace)] (trace_key sample_trace) =
     map_option table_row (List.find (\<lambda>r. trace_key r = trace_key sample_trace) [sample_trace])"
  using insert_batch_spec [OF insert_sample, of "trace_key sample_trace"] by (simp add: empty_db_def)

text \<open>A Trace without a \<open>stations\<close> array decodes but cannot be stored (the column is \<open>NOT NULL\<close>): a
  batch with one fails, and commits nothing, whatever the database does.\<close>

theorem missing_stations_blocks:
  assumes "r \<in> set rows" and "t_stations r = None" and "hist_flush cfg cl rows w = (res, w')"
  shows "res \<noteq> None \<and> kafka w' = kafka w"
proof -
  have "\<exists>x \<in> set rows. \<not> storable x" using assms(1,2) by (auto simp: storable_def)
  then have bad: "length (takeWhile storable rows) < length rows"
    using takeWhile_all [of storable rows] by (metis takeWhile_eq_all_conv)
  have "fst (insert_batch rows (sink w)) \<noteq> None"
    using bad by (auto simp: insert_batch_def Let_def split: prod.splits batch_outcome.splits)
  from assms(3) this show ?thesis by (cases rule: hist_flush_cases) (use assms(1) in auto)
qed

theorem missing_stations_blocks_witness:
  "fst (hist_flush sample_hist_config sample_kafka [sample_trace\<lparr>t_stations := None\<rparr>] sample_hist_world) \<noteq> None"
proof -
  let ?r = "sample_trace\<lparr>t_stations := None\<rparr>"
  obtain res w' where f: "hist_flush sample_hist_config sample_kafka [?r] sample_hist_world = (res, w')"
    by (cases "hist_flush sample_hist_config sample_kafka [?r] sample_hist_world")
  from missing_stations_blocks [OF _ _ this, of ?r] f show ?thesis by simp
qed

subsection \<open>Decoding\<close>

lemma decode_members_append:
  "decode_members fs r (xs @ ys) = (case decode_members fs r xs of None \<Rightarrow> None | Some r' \<Rightarrow> decode_members fs r' ys)"
  by (induction fs r xs rule: decode_members.induct) (auto split: option.splits)

text \<open>The contract with the processor is open to extension: a member whose name is no column of the row,
  wherever it stands in the object and whatever its value, changes nothing in what is decoded.\<close>

theorem unknown_fields_ignored:
  assumes "field_for trace_fields (unquote k) = None"
  shows "decode_struct trace_fields zero_trace (JObj (xs @ (k, v) # ys)) =
    decode_struct trace_fields zero_trace (JObj (xs @ ys))"
  using assms by (simp add: decode_members_append split: option.split)

theorem unknown_fields_ignored_witness:
  "decode_struct trace_fields zero_trace (JObj ([] @ (''event_id'', JNum ''7'') # [(''icao'', JStr ''ab'')])) =
     decode_struct trace_fields zero_trace (JObj ([] @ [(''icao'', JStr ''ab'')]))"
proof (rule unknown_fields_ignored)
  have "lower_name ''event_id''" by (simp add: lower_name_def lower_char_def)
  then show "field_for trace_fields (unquote ''event_id'') = None"
    by (simp add: unquote_lower trace_field_for) (simp add: trace_fields_def)
qed

end
