(* ===== verification/History_Recovery.thy ===== *)
theory History_Recovery
  imports History_Facts
begin

section \<open>The history writer across restarts\<close>

text \<open>
  \<open>consume.Batch\<close> reads at least once, and the table's key makes it exactly once: whatever sessions a
  history writer has had and however each was stopped, its group's offsets are never ahead of the table,
  and the table is the one of a writer that was never stopped.
\<close>

lemma hist_flush_table:
  assumes "hist_flush cfg cl rows w = (res, w')"
  obtains n where "td_table (sink w') = insert_traces (take n rows) (td_table (sink w))"
    "kafka w' \<noteq> kafka w \<longrightarrow> take n rows = rows"
  using assms
proof (cases rule: hist_flush_cases)
  case empty
  with that [of 0] show thesis by simp
next
  case (failed err db)
  with insert_batch_effect [OF failed(2)] that show thesis by auto
next
  case (inserted db ce k)
  with insert_batch_effect [OF inserted(2)] that show thesis by auto
qed

subsection \<open>A life of two sessions\<close>

text \<open>The first session inserts the sample Trace, but the answer is lost and it fails before the commit; the
  second reads the record again and commits it.\<close>

abbreviation sample_rec :: krecord where
  "sample_rec \<equiv> trace_record sample_trace"

definition sample_table :: traces where
  "sample_table = [(trace_key sample_trace, table_row sample_trace)]"

abbreviation sample_session :: "tracedb \<Rightarrow> (krecord list \<times> krecord list \<times> krecord list, nat, tracedb) world" where
  "sample_session db \<equiv> \<lparr>kafka = ([sample_rec], [], []), host = 0, sink = db\<rparr>"

abbreviation sample_life :: "offsets \<Rightarrow> traces \<Rightarrow> bool" where
  "sample_life \<equiv> group_life hist_decode (hist_flush sample_hist_config ::
     _ \<Rightarrow> (trace_row, krecord list \<times> krecord list \<times> krecord list, nat, tracedb) flush_fn) td_table (log_of sample_rec) []"

lemma sample_session_life:
  assumes "sample_life (\<lambda>p. 0) (td_table db)" "insert_batch [sample_trace] db = (res, db')"
  shows "sample_life (advance (\<lambda>p. 0) (if res = None then [sample_rec] else [])) (td_table db')"
proof -
  let ?rec = "sample_rec"
  have d: "hist_decode ?rec = Inr sample_trace"
    by (simp add: hist_decode_def trace_record_def sample_record_def decode_sample_trace)
  obtain w' where w: "batch_iter sample_kafka sample_host 1000 5 hist_decode (hist_flush sample_hist_config sample_kafka)
      (batch_start sample_host (sample_session db)) = Inl (res, w')"
    "w' = \<lparr>kafka = ([], [?rec], if res = None then [?rec] else []), host = 0, sink = db'\<rparr>"
    by (cases res) (simp_all add: assms(2) d sample_start batch_iter_def sample_kafka_simps Let_def hist_flush_def)
  from life_session [where disk = td_table and polled = sample_polled and committed = sample_committed and st = "batch_start sample_host (sample_session db)",
      OF assms(1) sample_kafka_contract _ _ _ reach_start w(1)]
  show ?thesis by (simp add: iter_world_def w(2) log_of_hands_out)
qed

lemma sample_life_ends: "sample_life (advance (\<lambda>p. 0) [sample_rec]) sample_table"
proof -
  have st: "storable sample_trace" by (simp add: storable_def sample_trace_def)
  obtain e db1 where 1: "insert_batch [sample_trace] failing_db = (Some e, db1)" "td_table db1 = sample_table"
    using st by (simp add: insert_batch_def next_batch_def failing_db_def keep_rows_def insert_trace_def sample_table_def)
  have "sample_life (\<lambda>p. 0) (td_table failing_db)" by (simp add: failing_db_def life_new)
  from sample_session_life [OF this 1(1)] have one: "sample_life (\<lambda>p. 0) sample_table" by (simp add: 1(2))
  let ?db = "\<lparr>td_table = sample_table, td_script = []\<rparr>"
  have "insert_batch [sample_trace] ?db = (None, ?db)"
    using st by (simp add: insert_batch_def next_batch_def keep_rows_def insert_trace_def sample_table_def)
  from sample_session_life [OF _ this] one show ?thesis by simp
qed

subsection \<open>At least once\<close>

definition from_log :: "plog \<Rightarrow> trace_row \<Rightarrow> bool" where
  "from_log L r \<longleftrightarrow> (\<exists>p. \<exists>rec \<in> set (L p). hist_decode rec = Inr r)"

lemma decoded_from_log:
  assumes "hands_out L off recs" "decoded hist_decode recs rows" "r \<in> set rows"
  shows "from_log L r"
proof -
  obtain rec where rec: "rec \<in> set recs" "hist_decode rec = Inr r"
    using assms(2,3) unfolding decoded_def by (blast dest: list_all2_mem2)
  from assms(1) rec(1) obtain i where "i < length (L (part_of rec))" "L (part_of rec) ! i = rec" by (rule hands_out_mem)
  with rec(2) show ?thesis unfolding from_log_def by (metis nth_mem)
qed

lemma insert_traces_source:
  assumes "map_of (insert_traces rows tb) k = Some r"
  shows "map_of tb k = Some r \<or> (\<exists>x \<in> set rows. trace_key x = k \<and> r = table_row x)"
  using assms unfolding insert_traces_map by (auto split: option.splits simp: find_Some_iff)

text \<open>The table \<open>tb'\<close> after a life over the log: it has kept the rows of \<open>tb\<close>, has one row per key, nothing
  the log does not have, and everything below the group's offsets.\<close>

definition table_since :: "plog \<Rightarrow> traces \<Rightarrow> offsets \<Rightarrow> traces \<Rightarrow> bool" where
  "table_since L tb off tb' \<longleftrightarrow> distinct (map fst tb') \<and>
     (\<forall>k r. map_of tb k = Some r \<longrightarrow> map_of tb' k = Some r) \<and>
     (\<forall>k r. map_of tb' k = Some r \<longrightarrow> map_of tb k = Some r \<or> (\<exists>x. from_log L x \<and> trace_key x = k \<and> r = table_row x)) \<and>
     (\<forall>p i. i < off p \<longrightarrow> i < length (L p) \<and>
        (\<exists>r. hist_decode (L p ! i) = Inr r \<and> map_of tb' (trace_key r) \<noteq> None))"

lemma table_since_insert:
  assumes "table_since L tb off tb1" "\<And>r. r \<in> set rows \<Longrightarrow> from_log L r"
  shows "table_since L tb off (insert_traces rows tb1)"
  unfolding table_since_def
proof (intro conjI)
  from assms(1) show "distinct (map fst (insert_traces rows tb1))"
    by (simp add: table_since_def insert_traces_distinct)
  from assms(1) show "\<forall>k r. map_of tb k = Some r \<longrightarrow> map_of (insert_traces rows tb1) k = Some r"
    by (simp add: table_since_def insert_traces_mono)
  show "\<forall>k r. map_of (insert_traces rows tb1) k = Some r \<longrightarrow>
      map_of tb k = Some r \<or> (\<exists>x. from_log L x \<and> trace_key x = k \<and> r = table_row x)"
    using assms insert_traces_source unfolding table_since_def by blast
  show "\<forall>p i. i < off p \<longrightarrow> i < length (L p) \<and>
      (\<exists>r. hist_decode (L p ! i) = Inr r \<and> map_of (insert_traces rows tb1) (trace_key r) \<noteq> None)"
    using assms(1) insert_traces_mono unfolding table_since_def by blast
qed

lemma table_since_advance:
  assumes "table_since L tb off tb'" "hands_out L off recs" "decoded hist_decode recs rows"
    and "\<And>r. r \<in> set rows \<Longrightarrow> map_of tb' (trace_key r) \<noteq> None"
  shows "table_since L tb (advance off recs) tb'"
proof -
  have "i < length (L p) \<and> (\<exists>r. hist_decode (L p ! i) = Inr r \<and> map_of tb' (trace_key r) \<noteq> None)"
    if i: "i < advance off recs p" for p i
  proof (cases "i < off p")
    case True
    with assms(1) show ?thesis unfolding table_since_def by blast
  next
    case False
    then have "off p \<le> i" by simp
    note n = hands_out_nth [OF assms(2) this i]
    from decoded_mem [OF assms(3) n(2)] assms(4) n(1) show ?thesis by blast
  qed
  with assms(1) show ?thesis unfolding table_since_def by blast
qed

lemma hist_flush_since:
  assumes c: "kafka_contract cl polled committed" and "table_since L tb off (td_table (sink w))" "hands_out L off recs"
    "decoded hist_decode recs rows" "hist_flush cfg cl rows w = (res, w')"
  shows "table_since L tb off (td_table (sink w')) \<and>
    (committed (kafka w') \<noteq> committed (kafka w) \<longrightarrow> table_since L tb (advance off recs) (td_table (sink w')))"
proof -
  obtain n where n: "td_table (sink w') = insert_traces (take n rows) (td_table (sink w))"
    "kafka w' \<noteq> kafka w \<longrightarrow> take n rows = rows" by (rule hist_flush_table [OF assms(5)])
  have 1: "table_since L tb off (td_table (sink w'))" unfolding n(1)
    by (rule table_since_insert [OF assms(2)]) (meson assms(3,4) decoded_from_log in_set_takeD)
  moreover have "table_since L tb (advance off recs) (td_table (sink w'))" if "committed (kafka w') \<noteq> committed (kafka w)"
  proof (rule table_since_advance [OF 1 assms(3,4)])
    fix r assume r: "r \<in> set rows"
    have "take n rows = rows" using n(2) that by metis
    with n(1) insert_traces_key [OF r] show "map_of (td_table (sink w')) (trace_key r) \<noteq> None" by simp
  qed
  ultimately show ?thesis by blast
qed

text \<open>C2: no restart loses or invents history. After any number of sessions of a history writer, each over
  its own client and stopped after any iteration whatever had failed in it, the table has one row per key,
  has kept every row it had, has only rows of Traces of the log besides, and every record below the group's
  offset in any partition is a Trace that decodes and has its row.\<close>

theorem history_survives_restarts:
  assumes "group_life hist_decode (hist_flush cfg) td_table L tb off tb'" and "distinct (map fst tb)"
  shows "distinct (map fst tb') \<and>
    (\<forall>k r. map_of tb k = Some r \<longrightarrow> map_of tb' k = Some r) \<and>
    (\<forall>k r. map_of tb' k = Some r \<longrightarrow> map_of tb k = Some r \<or>
       (\<exists>p. \<exists>rec \<in> set (L p). \<exists>x. decode_trace (kr_value rec) = Inr x \<and> trace_key x = k \<and> r = table_row x)) \<and>
    (\<forall>p i. i < off p \<longrightarrow> i < length (L p) \<and>
       (\<exists>r. decode_trace (kr_value (L p ! i)) = Inr r \<and> map_of tb' (trace_key r) \<noteq> None))"
proof -
  have "table_since L tb (\<lambda>p. 0) tb" using assms(2) by (simp add: table_since_def)
  then have "table_since L tb off tb'"
    by (rule history.life_invariant [where P = "table_since L tb" and disk = td_table, OF assms(1)]) (rule hist_flush_since)
  then show ?thesis unfolding table_since_def from_log_def hist_decode_def by blast
qed

theorem history_survives_restarts_witness:
  "0 < advance (\<lambda>p. 0) [sample_rec] (part_of sample_rec) \<and>
     (\<exists>r. decode_trace (kr_value (log_of sample_rec (part_of sample_rec) ! 0)) = Inr r \<and> map_of sample_table (trace_key r) \<noteq> None)"
proof -
  have o: "0 < advance (\<lambda>p. 0) [sample_rec] (part_of sample_rec)"
    by simp
  moreover have "distinct (map fst ([] :: traces))" by simp
  from history_survives_restarts [OF sample_life_ends this] o
  have "\<exists>r. decode_trace (kr_value (log_of sample_rec (part_of sample_rec) ! 0)) = Inr r \<and> map_of sample_table (trace_key r) \<noteq> None" by blast
  ultimately show ?thesis by blast
qed

subsection \<open>Exactly once\<close>

definition log_traces :: "krecord list \<Rightarrow> trace_row list" where
  "log_traces recs = concat (map (\<lambda>rec. case hist_decode rec of Inl _ \<Rightarrow> [] | Inr r \<Rightarrow> [r]) recs)"

lemma log_traces_simps [simp]:
  "log_traces [] = []" "log_traces (rec # recs) = (case hist_decode rec of Inl _ \<Rightarrow> [] | Inr r \<Rightarrow> [r]) @ log_traces recs"
  "log_traces (xs @ ys) = log_traces xs @ log_traces ys"
  by (simp_all add: log_traces_def)

lemma decoded_log_traces: "decoded hist_decode recs rows \<Longrightarrow> log_traces recs = rows"
  unfolding decoded_def by (induction recs rows rule: list_all2_induct) simp_all

lemma find_append: "List.find P (xs @ ys) = (case List.find P xs of None \<Rightarrow> List.find P ys | Some x \<Rightarrow> Some x)"
  by (induction xs) simp_all

text \<open>Traces of one key are in one partition: Kafka places a record by its key, here the aircraft.\<close>

definition routed :: "(trace_key \<Rightarrow> tpart) \<Rightarrow> plog \<Rightarrow> bool" where
  "routed route L \<longleftrightarrow> (\<forall>p. \<forall>rec \<in> set (L p). \<forall>r. hist_decode rec = Inr r \<longrightarrow> route (trace_key r) = p)"

lemma find_routed:
  assumes "\<And>rec r. rec \<in> set recs \<Longrightarrow> hist_decode rec = Inr r \<Longrightarrow> trace_key r = k \<Longrightarrow> part_of rec = p"
  shows "List.find (\<lambda>r. trace_key r = k) (log_traces recs) = List.find (\<lambda>r. trace_key r = k) (log_traces (of_part p recs))"
  using assms
proof (induction recs)
  case (Cons rec recs)
  have IH: "List.find (\<lambda>r. trace_key r = k) (log_traces recs) = List.find (\<lambda>r. trace_key r = k) (log_traces (of_part p recs))"
    by (rule Cons.IH) (use Cons.prems in simp)
  have p: "of_part p (rec # recs) = (if part_of rec = p then rec # of_part p recs else of_part p recs)"
    by (simp add: of_part_def)
  show ?case
  proof (cases "hist_decode rec")
    case (Inl e)
    with IH p show ?thesis by simp
  next
    case (Inr r)
    have "trace_key r = k \<Longrightarrow> part_of rec = p" by (rule Cons.prems [OF _ Inr]) simp_all
    with IH p Inr show ?thesis by simp
  qed
qed simp

lemma hands_out_routed:
  assumes "routed route L" "hands_out L off recs" "rec \<in> set recs" "hist_decode rec = Inr r"
  shows "part_of rec = route (trace_key r)"
proof -
  from assms(2,3) obtain i where "i < length (L (part_of rec))" "L (part_of rec) ! i = rec" by (rule hands_out_mem)
  then have "rec \<in> set (L (part_of rec))" by (metis nth_mem)
  with assms(1,4) show ?thesis unfolding routed_def by metis
qed

text \<open>The table of a writer that has inserted the first \<open>m p\<close> Traces of each partition in one go.\<close>

definition as_uninterrupted ::
  "(trace_key \<Rightarrow> tpart) \<Rightarrow> plog \<Rightarrow> traces \<Rightarrow> (tpart \<Rightarrow> nat) \<Rightarrow> traces \<Rightarrow> bool" where
  "as_uninterrupted route L tb m tb' \<longleftrightarrow>
     (\<forall>k. map_of tb' k = map_of (insert_traces (log_traces (take (m (route k)) (L (route k)))) tb) k)"

text \<open>A re-read from the offset: what is in already stays as it is, the rest comes after it.\<close>

lemma find_reread:
  assumes "off \<le> m"
  shows "(case List.find P (log_traces (take m xs)) of Some x \<Rightarrow> Some x | None \<Rightarrow> List.find P (log_traces (take n (drop off xs)))) =
    List.find P (log_traces (take (max m (off + n)) xs))"
proof (cases "off + n \<le> m")
  case True
  have "take m xs = take off xs @ take n (drop off xs) @ drop (off + n) (take m xs)"
    using True by (metis append.assoc append_take_drop_id min.absorb1 take_add take_take)
  then have "log_traces (take m xs) = log_traces (take off xs) @ log_traces (take n (drop off xs)) @ log_traces (drop (off + n) (take m xs))"
    by (metis log_traces_simps(3))
  with True show ?thesis by (simp add: find_append max_def split: option.split)
next
  case False
  let ?d = "take (m - off) (drop off xs)"
  have t: "take m xs = take off xs @ ?d" using assms by (metis add_diff_inverse_nat not_less take_add)
  have n: "take n (drop off xs) = ?d @ take (off + n - m) (drop m xs)"
    using assms False take_add [of "m - off" "off + n - m" "drop off xs"] by simp
  have "take (max m (off + n)) xs = take m xs @ take (off + n - m) (drop m xs)"
    using False take_add [of m "off + n - m" xs] by (simp add: max_def)
  then show ?thesis unfolding n by (simp add: t find_append split: option.split)
qed

lemma uninterrupted_insert:
  assumes r: "routed route L" and u: "as_uninterrupted route L tb m tb1" and m: "\<And>p. off p \<le> m p"
    and h: "hands_out L off recs" and d: "decoded hist_decode recs rows"
  shows "as_uninterrupted route L tb (\<lambda>p. max (m p) (advance off recs p)) (insert_traces rows tb1)"
  unfolding as_uninterrupted_def
proof
  fix k
  let ?p = "route k" and ?f = "List.find (\<lambda>r. trace_key r = k)"
  have rows: "?f rows = ?f (log_traces (of_part ?p recs))"
    unfolding decoded_log_traces [OF d, symmetric]
    by (rule find_routed) (use hands_out_routed [OF r h] in blast)
  note rr = find_reread [OF m [of ?p], where P = "\<lambda>r. trace_key r = k" and xs = "L ?p" and n = "length (of_part ?p recs)",
      folded hands_outD [OF h, of ?p]]
  show "map_of (insert_traces rows tb1) k =
      map_of (insert_traces (log_traces (take (max (m ?p) (advance off recs ?p)) (L ?p))) tb) k"
    using u [unfolded as_uninterrupted_def, THEN spec, of k] unfolding insert_traces_map rows advance_def rr [symmetric]
    by (simp split: option.split)
qed

lemma hands_out_le:
  assumes "hands_out L off recs" "off p \<le> length (L p)"
  shows "advance off recs p \<le> length (L p)"
  using arg_cong [OF hands_outD [OF assms(1), of p], of length] assms(2) by (auto simp: advance_def)

definition exact_since :: "(trace_key \<Rightarrow> tpart) \<Rightarrow> plog \<Rightarrow> traces \<Rightarrow> offsets \<Rightarrow> traces \<Rightarrow> bool" where
  "exact_since route L tb off tb' \<longleftrightarrow>
     (\<exists>m. (\<forall>p. off p \<le> m p \<and> m p \<le> length (L p)) \<and> as_uninterrupted route L tb m tb')"

lemma exact_since_insert:
  assumes "routed route L" "exact_since route L tb off tb1" "hands_out L off recs" "decoded hist_decode recs rows"
  shows "exact_since route L tb (advance off recs) (insert_traces rows tb1)"
proof -
  obtain m where m: "\<And>p. off p \<le> m p" "\<And>p. m p \<le> length (L p)" "as_uninterrupted route L tb m tb1"
    using assms(2) unfolding exact_since_def by blast
  have "advance off recs p \<le> length (L p)" for p using hands_out_le [OF assms(3)] m le_trans by blast
  with m(2) uninterrupted_insert [OF assms(1) m(3,1) assms(3,4)] show ?thesis
    unfolding exact_since_def by (intro exI [of _ "\<lambda>p. max (m p) (advance off recs p)"]) simp
qed

lemma exact_since_less: "exact_since route L tb off tb' \<Longrightarrow> (\<And>p. off' p \<le> off p) \<Longrightarrow> exact_since route L tb off' tb'"
  unfolding exact_since_def by (meson le_trans)

lemma decoded_take: "decoded decode recs rows \<Longrightarrow> decoded decode (take n recs) (take n rows)"
  by (simp add: decoded_def list_all2_takeI)

lemma hist_flush_exact:
  assumes "routed route L" "exact_since route L tb off (td_table (sink w))" "hands_out L off recs"
    "decoded hist_decode recs rows" "hist_flush cfg cl rows w = (res, w')"
  shows "exact_since route L tb off (td_table (sink w')) \<and>
    (committed (kafka w') \<noteq> committed (kafka w) \<longrightarrow> exact_since route L tb (advance off recs) (td_table (sink w')))"
proof -
  obtain n where n: "td_table (sink w') = insert_traces (take n rows) (td_table (sink w))"
    "kafka w' \<noteq> kafka w \<longrightarrow> take n rows = rows" by (rule hist_flush_table [OF assms(5)])
  have "hands_out L off (take n recs)" using assms(3) hands_out_append(1) by (metis append_take_drop_id)
  from exact_since_insert [OF assms(1,2) this decoded_take [OF assms(4)]]
  have "exact_since route L tb off (td_table (sink w'))" unfolding n(1) by (rule exact_since_less) (rule advance_le)
  moreover have "exact_since route L tb (advance off recs) (td_table (sink w'))" if "kafka w' \<noteq> kafka w"
    using exact_since_insert [OF assms(1-4)] n that by simp
  ultimately show ?thesis by metis
qed

text \<open>C7: the history is written exactly once. Where Traces of one key are in one partition, the table after
  any number of interrupted, failed and repeated sessions is, key by key, the table of one writer that
  was never stopped: the one that inserts the first \<open>m p\<close> Traces of each partition's log in a single go,
  for some \<open>m\<close> no less than the group's offsets.\<close>

theorem history_exactly_once:
  assumes "group_life hist_decode (hist_flush cfg) td_table L tb off tb'" and "routed route L"
  shows "\<exists>m. (\<forall>p. off p \<le> m p \<and> m p \<le> length (L p)) \<and>
    (\<forall>k. map_of tb' k = map_of (insert_traces (log_traces (take (m (route k)) (L (route k)))) tb) k)"
proof -
  have "exact_since route L tb (\<lambda>p. 0) tb"
    unfolding exact_since_def as_uninterrupted_def by (intro exI [of _ "\<lambda>p. 0"]) simp
  then have "exact_since route L tb off tb'"
    by (rule history.life_invariant [where P = "exact_since route L tb" and disk = td_table, OF assms(1)])
      (rule hist_flush_exact [OF assms(2)])
  then show ?thesis unfolding exact_since_def as_uninterrupted_def .
qed

theorem history_exactly_once_witness:
  "\<exists>m. advance (\<lambda>p. 0) [sample_rec] (part_of sample_rec) \<le> m \<and> m \<le> length (log_of sample_rec (part_of sample_rec)) \<and>
     map_of sample_table (trace_key sample_trace) =
       map_of (insert_traces (log_traces (take m (log_of sample_rec (part_of sample_rec)))) []) (trace_key sample_trace)"
proof -
  have "routed (\<lambda>k. part_of sample_rec) (log_of sample_rec)" by (simp add: routed_def log_of_def)
  from history_exactly_once [OF sample_life_ends this] show ?thesis by blast
qed

end
