(* ===== verification/Archive_Read.thy ===== *)
theory Archive_Read
  imports Archive_Facts
begin

section \<open>Reading the archive (\<open>internal/archiver/read.go\<close>)\<close>

text \<open>
  \<open>Days\<close> and \<open>ReadDay\<close>, the order and completeness of what they return, and the invariant that a
  day's directory holds rows of that day only.
\<close>

subsection \<open>The operations\<close>

definition day_pattern :: string where
  "day_pattern = ''dt=????-??-??''"

definition days :: "string \<Rightarrow> fsys \<Rightarrow> fpath list result" where
  "days root fs =
     (let ds = filepath_glob fs (filepath_clean root) day_pattern
      in if ds = [] then Inl (ErrNew (''no dt=<date> directories under '' @ root))
         else Inr (sort_key path_str ds))"

text \<open>\<open>parquet.ReadFile\<close>.\<close>

definition read_file :: "parquet_lib \<Rightarrow> fsys \<Rightarrow> fpath \<Rightarrow> row list result" where
  "read_file pq fs p =
     (case file_at fs p of None \<Rightarrow> Inl (ErrNew ''open'') | Some data \<Rightarrow> pq_read pq data)"

fun read_files :: "parquet_lib \<Rightarrow> fsys \<Rightarrow> fpath list \<Rightarrow> row list \<Rightarrow> row list result" where
  "read_files pq fs [] rows = Inr rows"
| "read_files pq fs (p # ps) rows =
     (case read_file pq fs p of
        Inl err \<Rightarrow> Inl (ErrWrap (path_str p) err)
      | Inr got \<Rightarrow> read_files pq fs ps (rows @ got))"

definition read_day :: "parquet_lib \<Rightarrow> fsys \<Rightarrow> fpath \<Rightarrow> row list result" where
  "read_day pq fs dir =
     (case read_files pq fs (filepath_glob fs dir ''*.parquet'') [] of
        Inl err \<Rightarrow> Inl err
      | Inr rows \<Rightarrow> Inr (compact_func (\<lambda>a b. row_less a b = 0) (sort_func row_less rows)))"

subsection \<open>One day\<close>

lemma read_files_set:
  "read_files pq fs ps rows = Inr out \<Longrightarrow>
     set out = set rows \<union> (\<Union>p \<in> set ps. {r. \<exists>got. read_file pq fs p = Inr got \<and> r \<in> set got})"
  by (induction ps arbitrary: rows) (auto split: sum.splits)

lemma read_files_reads:
  "read_files pq fs ps rows = Inr out \<Longrightarrow> p \<in> set ps \<Longrightarrow> \<exists>got. read_file pq fs p = Inr got"
  by (induction ps arbitrary: rows) (auto split: sum.splits)

lemma row_less_zero_equiv:
  "row_less a a = 0" "row_less a b = 0 \<Longrightarrow> row_less b a = 0"
  "row_less a b = 0 \<Longrightarrow> row_less b c = 0 \<Longrightarrow> row_less a c = 0"
  by (auto simp: row_less_zero time_equal_def)

text \<open>The files of a day's directory.\<close>

lemma day_files_iff:
  "p \<in> set (filepath_glob fs dir ''*.parquet'') \<longleftrightarrow>
     (\<exists>n. p = (fst dir, snd dir @ [n]) \<and> glob_match ''*.parquet'' n \<and> (p \<in> set (fs_dirs fs) \<or> file_at fs p \<noteq> None))"
  by (rule filepath_glob_iff)

lemma read_day_lemma:
  assumes "read_day pq fs dir = Inr out"
  shows "sorted_wrt (\<lambda>a b. row_less a b < 0) out \<and>
    (\<forall>p \<in> set (filepath_glob fs dir ''*.parquet''). \<exists>got. read_file pq fs p = Inr got \<and>
       (\<forall>r \<in> set got. \<exists>r' \<in> set out. row_less r r' = 0)) \<and>
    (\<forall>r \<in> set out. \<exists>p \<in> set (filepath_glob fs dir ''*.parquet''). \<exists>got. read_file pq fs p = Inr got \<and> r \<in> set got)"
proof -
  obtain rows where rows: "read_files pq fs (filepath_glob fs dir ''*.parquet'') [] = Inr rows"
    and out: "out = compact_func (\<lambda>a b. row_less a b = 0) (sort_func row_less rows)"
    using assms by (auto simp: read_day_def split: sum.splits)
  have "sorted_wrt (\<lambda>a b. row_less a b < 0) out"
    unfolding out by (rule compact_func_strict [OF sorted_sort_func [OF weak_order_row_less] weak_order_row_less row_less_sym])
  moreover have rep: "\<exists>r' \<in> set out. row_less r r' = 0" if "r \<in> set rows" for r
    unfolding out
    by (rule compact_func_rep [where eq = "\<lambda>a b. row_less a b = 0", OF row_less_zero_equiv]) (simp_all add: that)
  moreover have "set out \<subseteq> set rows" unfolding out using set_compact_func_subset by fastforce
  moreover have "\<exists>got. read_file pq fs p = Inr got \<and> set got \<subseteq> set rows"
    if "p \<in> set (filepath_glob fs dir ''*.parquet'')" for p
    using read_files_reads [OF rows that] read_files_set [OF rows] that by auto
  moreover have "\<exists>p \<in> set (filepath_glob fs dir ''*.parquet''). \<exists>got. read_file pq fs p = Inr got \<and> r \<in> set got"
    if "r \<in> set rows" for r
    using read_files_set [OF rows] that by auto
  ultimately show ?thesis by (intro conjI ballI) (blast | assumption)+
qed

lemma read_day_complete:
  "read_day pq fs dir = Inr out \<Longrightarrow> p \<in> set (filepath_glob fs dir ''*.parquet'') \<Longrightarrow>
     read_file pq fs p = Inr got \<Longrightarrow> r \<in> set got \<Longrightarrow> \<exists>r' \<in> set out. row_less r r' = 0"
  using read_day_lemma by fastforce

text \<open>C32: a day is read back as a strictly increasing sequence in the canonical order (event time, station,
  line), so every duplicate of a re-read or a re-sent batch is gone; it is complete (every row of every
  file of the directory has its equal in it) and it invents nothing.\<close>

theorem read_day_exact:
  assumes "read_day pq fs dir = Inr out"
  shows "sorted_wrt (\<lambda>a b. row_less a b < 0) out \<and>
    (\<forall>p \<in> set (filepath_glob fs dir ''*.parquet''). \<exists>got. read_file pq fs p = Inr got \<and>
       (\<forall>r \<in> set got. \<exists>r' \<in> set out. row_less r r' = 0)) \<and>
    (\<forall>r \<in> set out. \<exists>p \<in> set (filepath_glob fs dir ''*.parquet''). \<exists>got. read_file pq fs p = Inr got \<and> r \<in> set got)"
  by (rule read_day_lemma [OF assms])

text \<open>A stored row is among those its day is read back as.\<close>

lemma read_day_stored:
  assumes "stored a fs r" "\<not> is_zero (r_ts r)"
    and "read_day (ar_pq a) fs (fst (filepath_clean (ac_dir (ar_config a))),
           snd (filepath_clean (ac_dir (ar_config a))) @ [row_partition r]) = Inr out"
  shows "\<exists>r' \<in> set out. row_less (trunc_row r) r' = 0"
proof -
  let ?R = "filepath_clean (ac_dir (ar_config a))"
  let ?d = "(fst ?R, snd ?R @ [row_partition r])"
  obtain p data rows r' where p: "p = (fst ?R, snd ?R @ [row_partition r, last (snd p)])" "is_parquet p"
      "file_at fs p = Some data" "pq_read (ar_pq a) data = Inr rows" "r' \<in> set rows" "archived_as r r'"
    using assms(1) unfolding stored_def by blast
  then have r': "r' = trunc_row r" using archived_as_trunc assms(2) by blast
  have "p = (fst ?d, snd ?d @ [last (snd p)])" using p(1) by simp
  with p(2,3) have "p \<in> set (filepath_glob fs ?d ''*.parquet'')"
    unfolding day_files_iff is_parquet_def by (metis option.distinct(1))
  moreover have "read_file (ar_pq a) fs p = Inr rows" using p by (simp add: read_file_def)
  ultimately show ?thesis using read_day_complete [OF assms(3)] p(5) r' by fastforce
qed

subsection \<open>Directories hold their own day\<close>

text \<open>Every row of a Parquet file in a \<open>dt=<date>\<close> directory is of that date.\<close>

definition well_filed :: "parquet_lib \<Rightarrow> string \<Rightarrow> fsys \<Rightarrow> bool" where
  "well_filed pq dir fs \<longleftrightarrow>
     (\<forall>k n data rows r.
        k \<noteq> unknown_dir \<longrightarrow>
        is_parquet (fst (filepath_clean dir), snd (filepath_clean dir) @ [k, n]) \<longrightarrow>
        file_at fs (fst (filepath_clean dir), snd (filepath_clean dir) @ [k, n]) = Some data \<longrightarrow>
        pq_read pq data = Inr rows \<longrightarrow> r \<in> set rows \<longrightarrow> k = ''dt='' @ format_date (utc (r_ts r)))"

lemma format_date_trunc: "format_date (utc (r_ts (trunc_row r))) = format_date (utc (r_ts r))"
  by (simp add: format_date_def local_date_def local_days_def trunc_row_def)

lemma group_and_write_well_filed:
  assumes "map_order_ok iter" "parquet_contract pq" "well_filed pq dir fs"
    and "group_and_write iter pq dir rows fs = (files, res, fs')"
  shows "well_filed pq dir fs'"
  unfolding well_filed_def
proof (intro allI impI)
  fix k n data rows' r
  let ?q = "(fst (filepath_clean dir), snd (filepath_clean dir) @ [k, n])"
  assume a: "k \<noteq> unknown_dir" "is_parquet ?q" "file_at fs' ?q = Some data" "pq_read pq data = Inr rows'" "r \<in> set rows'"
  from write_groups_effect [OF assms(4) [unfolded group_and_write_def] a(2)
      iter_groups_plain [OF assms(1)] iter_groups(2) [OF assms(1)]]
  consider (old) "file_at fs' ?q = file_at fs ?q"
    | (new) k' g data' where "(k', g) \<in> set (iter (groups rows))" "?q = group_file dir k' g"
        "write_parquet pq (sort_func row_less g) = Inr data'" "file_at fs' ?q = Some data'" by blast
  then show "k = ''dt='' @ format_date (utc (r_ts r))"
  proof cases
    case old
    with a assms(3) show ?thesis unfolding well_filed_def by metis
  next
    case new
    have g: "g = filter (\<lambda>r. row_partition r = k') rows" "g \<noteq> []"
      using new(1) by (auto simp: iter_groups [OF assms(1)] in_groups_iff)
    then have "plain_elem k'" by (metis (mono_tags, lifting) filter_empty_conv plain_partition)
    with new(2) have k: "k' = k" by (simp add: group_file_eq)
    from new(3,4) a(3) have "write_parquet pq (sort_func row_less g) = Inr data" by simp
    from write_parquet_read [OF assms(2) this] a(4) have "list_all2 archived_as (sort_func row_less g) rows'"
      by auto
    from list_all2_mem2 [OF this a(5)] obtain x where x: "x \<in> set g" "archived_as x r" by auto
    then have px: "row_partition x = k" using g k by auto
    with a(1) have nz: "\<not> is_zero (r_ts x)" "k = ''dt='' @ format_date (utc (r_ts x))"
      by (auto simp: row_partition_def split: if_splits)
    from archived_as_trunc [OF x(2) nz(1)] nz(2) show ?thesis by (simp add: format_date_trunc)
  qed
qed

lemma arch_flush_well_filed:
  assumes "arch_good a" "well_filed (ar_pq a) (ac_dir (ar_config a)) (sink w)" "arch_flush a cl rows w = (res, w')"
  shows "well_filed (ar_pq a) (ac_dir (ar_config a)) (sink w')"
  using assms(3)
proof (cases rule: arch_flush_cases)
  case (failed files err fs)
  from assms(1) group_and_write_well_filed [OF _ _ assms(2) failed(2)] failed(4) show ?thesis
    by (simp add: arch_good_def)
next
  case (written files fs ce k)
  from assms(1) group_and_write_well_filed [OF _ _ assms(2) written(2)] written(5) show ?thesis
    by (simp add: arch_good_def)
qed (use assms(2) in simp)

text \<open>C33: a run of the archiver, however it ends, leaves every dated directory holding rows of its own date
  only, whatever it consumed and whatever failed on the way.\<close>

theorem archive_run_well_filed:
  assumes "arch_good a" and "well_filed (ar_pq a) (ac_dir (ar_config a)) (sink w0)"
    and "arch_run a cl ho w0 = Some (res, w')"
  shows "well_filed (ar_pq a) (ac_dir (ar_config a)) (sink w')"
  by (rule batch_sink_invariant [where P = "well_filed (ar_pq a) (ac_dir (ar_config a))",
        OF assms(3) [unfolded arch_run_def] _ assms(2)])
    (rule arch_flush_well_filed [OF assms(1)])

theorem archive_run_well_filed_witness:
  "\<exists>w'. arch_run sample_archiver sample_kafka sample_host sample_arch_world = Some (None, w') \<and>
     well_filed sample_pq ''archive'' (sink w')"
proof -
  obtain w' where r: "arch_run sample_archiver sample_kafka sample_host sample_arch_world = Some (None, w')"
    using sample_arch_run by blast
  have "well_filed (ar_pq sample_archiver) (ac_dir (ar_config sample_archiver)) (sink sample_arch_world)"
    by (simp add: sample_arch_world_def well_filed_def empty_fs_def)
  from archive_run_well_filed [OF sample_archiver_good this r] r show ?thesis by auto
qed

subsection \<open>Days in order\<close>

lemma glob_ascii_match:
  assumes "CHR ''*'' \<notin> set pat" "\<And>c. c \<in> set s \<Longrightarrow> byte c < 0x80 \<and> c \<noteq> CHR ''/''"
  shows "glob_match pat s \<longleftrightarrow> list_all2 (\<lambda>p c. p = CHR ''?'' \<or> p = c) pat s"
  using assms
proof (induction pat arbitrary: s)
  case (Cons p pat)
  show ?case
  proof (cases s)
    case Nil
    with Cons.prems(1) show ?thesis by (cases "p = CHR ''?''") auto
  next
    case (Cons c r)
    with Cons.prems(2) have "byte c < 0x80" "c \<noteq> CHR ''/''" by auto
    with Cons Cons.IH [of r] Cons.prems glob_ascii [of c pat r] show ?thesis
      by (cases "p = CHR ''?''") auto
  qed
qed simp

lemma dir_ascii: "c \<in> set (''dt='' @ format_date t) \<Longrightarrow> byte c < 0x80 \<and> c \<noteq> CHR ''/''"
  using format_date_digits [of c t] by (auto simp: is_digit_def)

lemma day_pattern_no_star: "CHR ''*'' \<notin> set day_pattern"
  by (simp add: day_pattern_def)

lemma day_pattern_four_digits:
  assumes "glob_match day_pattern (''dt='' @ format_date t)"
  shows "four_digit_year t"
proof -
  have "list_all2 (\<lambda>p c. p = CHR ''?'' \<or> p = c) day_pattern (''dt='' @ format_date t)"
    using assms glob_ascii_match [OF day_pattern_no_star, of "''dt='' @ format_date t"] dir_ascii by blast
  then have len: "length (format_date t) = 10" by (auto simp: day_pattern_def dest: list_all2_lengthD)
  obtain y m d where ymd: "local_date t = (y, m, d)" by (cases "local_date t")
  with len have len4: "length (fmt_year y) = 4" by (simp add: format_date_def)
  have big: "4 < length (dec_nat n)" if "10000 \<le> n" for n
  proof -
    have "n < 10 ^ length (dec_nat n)"
    proof (induction n rule: dec_nat.induct)
      case (1 n)
      show ?case
      proof (cases "n < 10")
        case False
        with 1 have "n div 10 < 10 ^ length (dec_nat (n div 10))" by simp
        then have "n < 10 * 10 ^ length (dec_nat (n div 10))" by simp
        with False show ?thesis by (subst dec_nat.simps) simp
      qed (subst dec_nat.simps, simp)
    qed
    with that have "10 ^ 4 < (10 :: nat) ^ length (dec_nat n)" by simp
    then show ?thesis by (rule power_less_imp_less_exp [rotated]) simp
  qed
  have "\<not> y < 10000 \<Longrightarrow> 4 < length (dec_nat (nat y))" "\<not> - y < 10000 \<Longrightarrow> 4 < length (dec_nat (nat (- y)))"
    by (rule big, simp)+
  with len4 have "0 \<le> y \<and> y < 10000" by (auto simp add: fmt_year_def split: if_splits)
  with ymd show ?thesis by (simp add: four_digit_year_def)
qed

lemma day_pattern_matches:
  assumes "four_digit_year t"
  shows "glob_match day_pattern (''dt='' @ format_date t)"
proof -
  obtain y m d where ymd: "local_date t = (y, m, d)" by (cases "local_date t")
  with assms have "format_date t = pad_dec 4 (nat y) @ ''-'' @ pad_dec 2 m @ ''-'' @ pad_dec 2 d"
    by (simp add: format_date_def four_digit_year_def fmt_year_def)
  then have "list_all2 (\<lambda>p c. p = CHR ''?'' \<or> p = c) day_pattern (''dt='' @ format_date t)"
    by (simp add: day_pattern_def pad_dec_numeral)
  then show ?thesis using glob_ascii_match [OF day_pattern_no_star, of "''dt='' @ format_date t"] dir_ascii by blast
qed

lemma day_pattern_not_unknown: "\<not> glob_match day_pattern unknown_dir"
proof -
  have "byte c < 0x80 \<and> c \<noteq> CHR ''/''" if "c \<in> set unknown_dir" for c
    using that by (auto simp: unknown_dir_def)
  moreover have "\<not> list_all2 (\<lambda>p c. p = CHR ''?'' \<or> p = c) day_pattern unknown_dir"
    by (simp add: day_pattern_def unknown_dir_def)
  ultimately show ?thesis using glob_ascii_match [OF day_pattern_no_star] by blast
qed

lemma days_mem:
  assumes "days root fs = Inr ds" "d \<in> set ds"
  obtains n where "d = (fst (filepath_clean root), snd (filepath_clean root) @ [n])" "glob_match day_pattern n"
  using assms by (auto simp: days_def Let_def filepath_glob_iff split: if_splits)

lemma days_sorted:
  assumes "days root fs = Inr ds"
  shows "sorted_wrt (\<lambda>d e. path_str d < path_str e) ds"
proof -
  let ?R = "filepath_clean root"
  let ?ds = "filepath_glob fs ?R day_pattern"
  have "distinct ?ds"
    unfolding filepath_glob_def by (auto simp: distinct_map dir_names_def intro: inj_onI)
  moreover have "inj_on path_str (set ?ds)"
  proof (rule inj_onI)
    fix d e assume "d \<in> set ?ds" "e \<in> set ?ds" "path_str d = path_str e"
    then show "d = e" by (auto simp: filepath_glob_iff path_str_snoc)
  qed
  ultimately have "distinct (map path_str (sort_key path_str ?ds))"
    by (simp add: distinct_map)
  then have "sorted_wrt (<) (map path_str (sort_key path_str ?ds))"
    by (simp add: strict_sorted_iff)
  moreover have "ds = sort_key path_str ?ds" using assms by (auto simp: days_def Let_def split: if_splits)
  ultimately show ?thesis by (simp add: sorted_wrt_map)
qed

text \<open>Rows of an earlier day come before rows of a later one.\<close>

lemma row_less_days:
  "local_days (utc (r_ts a)) < local_days (utc (r_ts b)) \<Longrightarrow> row_less a b < 0"
proof -
  assume a: "local_days (utc (r_ts a)) < local_days (utc (r_ts b))"
  have "t_sec (r_ts a) < t_sec (r_ts b)"
  proof (rule ccontr)
    assume "\<not> ?thesis"
    then have "t_sec (r_ts b) div 86400 \<le> t_sec (r_ts a) div 86400" by (intro zdiv_mono1) auto
    with a show False by (simp add: local_days_def)
  qed
  then show ?thesis by (simp add: row_less_neg row_key_less_def)
qed

lemma read_day_dates:
  assumes "well_filed pq root fs" "read_day pq fs (fst (filepath_clean root), snd (filepath_clean root) @ [k]) = Inr out"
    and "r \<in> set out" "k \<noteq> unknown_dir"
  shows "k = ''dt='' @ format_date (utc (r_ts r))"
proof -
  let ?d = "(fst (filepath_clean root), snd (filepath_clean root) @ [k])"
  from read_day_lemma [OF assms(2)] assms(3) obtain p got where
    p: "p \<in> set (filepath_glob fs ?d ''*.parquet'')" "read_file pq fs p = Inr got" "r \<in> set got" by blast
  then obtain n where n: "p = (fst ?d, snd ?d @ [n])" "glob_match ''*.parquet'' n" by (auto simp: day_files_iff)
  from p(2) obtain data where "file_at fs p = Some data" "pq_read pq data = Inr got"
    by (auto simp: read_file_def split: option.splits)
  with assms(1,4) n p(3) show ?thesis unfolding well_filed_def by (simp add: is_parquet_def)
qed

lemma days_rows_sorted:
  assumes "well_filed pq root fs" "days root fs = Inr ds"
    and "list_all2 (\<lambda>d rows. read_day pq fs d = Inr rows) ds rowss"
  shows "sorted_wrt (\<lambda>a b. row_less a b < 0) (concat rowss)"
proof -
  have mem: "\<exists>n. d = (fst (filepath_clean root), snd (filepath_clean root) @ [n]) \<and> glob_match day_pattern n"
    if "d \<in> set ds" for d using days_mem [OF assms(2) that] by metis
  have lt: "row_less a b < 0"
    if d: "d \<in> set ds" "e \<in> set ds" "path_str d < path_str e"
      "read_day pq fs d = Inr xs" "read_day pq fs e = Inr ys" "a \<in> set xs" "b \<in> set ys" for d e xs ys a b
  proof -
    obtain m where m: "d = (fst (filepath_clean root), snd (filepath_clean root) @ [m])" "glob_match day_pattern m"
      using mem [OF d(1)] by blast
    obtain n where n: "e = (fst (filepath_clean root), snd (filepath_clean root) @ [n])" "glob_match day_pattern n"
      using mem [OF d(2)] by blast
    have "m \<noteq> unknown_dir" "n \<noteq> unknown_dir" using m n day_pattern_not_unknown by auto
    then have f: "m = ''dt='' @ format_date (utc (r_ts a))" "n = ''dt='' @ format_date (utc (r_ts b))"
      using read_day_dates [OF assms(1)] d(4-7) m n by auto
    then have "four_digit_year (utc (r_ts a))" "four_digit_year (utc (r_ts b))"
      using m(2) n(2) day_pattern_four_digits by auto
    moreover have "format_date (utc (r_ts a)) < format_date (utc (r_ts b))"
      using d(3) unfolding m n path_str_less unfolding f by simp
    ultimately show ?thesis by (simp add: format_date_less_iff row_less_days)
  qed
  from assms(3) days_sorted [OF assms(2)] lt show ?thesis
  proof (induction arbitrary: rule: list_all2_induct)
    case (Cons d ds xs rowss)
    have "sorted_wrt (\<lambda>a b. row_less a b < 0) xs" using read_day_lemma [OF Cons.hyps(1)] by blast
    moreover have "sorted_wrt (\<lambda>a b. row_less a b < 0) (concat rowss)"
      using Cons.IH Cons.prems by (simp, meson list.set_intros(2))
    moreover have "row_less a b < 0" if "a \<in> set xs" "b \<in> set (concat rowss)" for a b
    proof -
      from that(2) obtain ys where ys: "ys \<in> set rowss" "b \<in> set ys" by auto
      from list_all2_mem2 [OF Cons.hyps(2) ys(1)] obtain e where e: "e \<in> set ds" "read_day pq fs e = Inr ys" by auto
      with Cons.prems(1) have "path_str d < path_str e" by auto
      from Cons.prems(2) [OF _ _ this Cons.hyps(1) e(2) that(1) ys(2)] e(1) show ?thesis by simp
    qed
    ultimately show ?case by (simp add: sorted_wrt_append)
  qed simp
qed

subsection \<open>The archive can be read\<close>

text \<open>Every Parquet file is readable, and no directory is in the place of a file.\<close>

definition readable :: "parquet_lib \<Rightarrow> string \<Rightarrow> fsys \<Rightarrow> bool" where
  "readable pq dir fs \<longleftrightarrow>
     (\<forall>p data. is_parquet p \<longrightarrow> file_at fs p = Some data \<longrightarrow> (\<exists>rows. pq_read pq data = Inr rows)) \<and>
     list_all (\<lambda>p. length (snd p) \<le> Suc (length (snd (filepath_clean dir)))) (fs_dirs fs)"

lemma put_file_dirs:
  assumes "put_file dir (k @ ''/'' @ n) data fs = (r, fs')" "plain_elem k" "plain_elem n"
    and "list_all (\<lambda>p. length (snd p) \<le> Suc (length (snd (filepath_clean dir)))) (fs_dirs fs)"
  shows "list_all (\<lambda>p. length (snd p) \<le> Suc (length (snd (filepath_clean dir)))) (fs_dirs fs')"
proof -
  let ?full = "path_join dir (k @ ''/'' @ n)"
  let ?tmp = "path_append ?full ''.tmp''"
  let ?d = "filepath_dir ?full"
  have len: "length (snd ?d) = Suc (length (snd (filepath_clean dir)))"
    unfolding path_join_plain [OF assms(2,3)] by (simp add: filepath_dir_def)
  obtain r1 fs1 where m: "os_mkdir_all ?d fs = (r1, fs1)" by (cases "os_mkdir_all ?d fs")
  obtain out fs0 where o: "next_outcome fs = (out, fs0)" by (cases "next_outcome fs")
  have "fs1 = snd (mkdir_walk j (path_prefixes ?d) fs0)" if "j = (case out of Works \<Rightarrow> None | Fails _ k \<Rightarrow> Some k)" for j
    using m o that by (cases out) (auto simp: os_mkdir_all_def split: prod.splits bool.splits)
  then have "p \<in> set (fs_dirs fs1) \<Longrightarrow> p \<in> set (fs_dirs fs) \<or> p \<in> set (path_prefixes ?d)" for p
    using mkdir_walk_bound next_outcome_files(2) [OF o] by metis
  then have d1: "list_all (\<lambda>p. length (snd p) \<le> Suc (length (snd (filepath_clean dir)))) (fs_dirs fs1)"
    using assms(4) len by (fastforce simp: list_all_iff path_prefixes_def)
  obtain r2 fs2 where w: "os_write_file ?tmp data fs1 = (r2, fs2)" by (cases "os_write_file ?tmp data fs1")
  obtain r3 fs3 where n: "os_rename ?tmp ?full fs2 = (r3, fs3)" by (cases "os_rename ?tmp ?full fs2")
  have ne: "?tmp \<noteq> ?full" unfolding path_join_plain [OF assms(2,3)] by (simp add: path_append_def butlast_append)
  have "fs_dirs fs2 = fs_dirs fs1" "fs_dirs fs3 = fs_dirs fs2"
    by (rule os_write_file_other(2) [OF w]) (rule os_rename_effect(1) [OF n ne])
  with d1 assms(1) m w n show ?thesis
    by (auto simp: put_file_def Let_def split: option.splits)
qed

lemma write_groups_dirs:
  assumes "write_groups pq dir gs files fs = (files', r, fs')" "list_all plain_elem (map fst gs)"
    and "list_all (\<lambda>p. length (snd p) \<le> Suc (length (snd (filepath_clean dir)))) (fs_dirs fs)"
  shows "list_all (\<lambda>p. length (snd p) \<le> Suc (length (snd (filepath_clean dir)))) (fs_dirs fs')"
  using assms
proof (induction gs arbitrary: files fs)
  case (Cons kg gs)
  obtain k g where kg: "kg = (k, g)" by (cases kg)
  show ?case
  proof (cases "write_parquet pq (sort_func row_less g)")
    case (Inl e)
    with Cons.prems kg show ?thesis by (auto simp: Let_def)
  next
    case (Inr data)
    obtain r1 fs1 where p: "put_file dir (group_path k (sort_func row_less g)) data fs = (r1, fs1)"
      by (cases "put_file dir (group_path k (sort_func row_less g)) data fs")
    have d1: "list_all (\<lambda>p. length (snd p) \<le> Suc (length (snd (filepath_clean dir)))) (fs_dirs fs1)"
      by (rule put_file_dirs [OF p [unfolded group_path_def]]) (use Cons.prems kg in simp_all)
    show ?thesis
    proof (cases r1)
      case None
      with Cons.prems(1) kg Inr p
      have "write_groups pq dir gs (files @ [group_path k (sort_func row_less g)]) fs1 = (files', r, fs')"
        by (simp add: Let_def)
      from Cons.IH [OF this _ d1] Cons.prems(2) show ?thesis by simp
    next
      case (Some e)
      with Cons.prems(1) kg Inr p d1 show ?thesis by (auto simp: Let_def)
    qed
  qed
qed simp

lemma group_and_write_readable:
  assumes "map_order_ok iter" "parquet_contract pq" "readable pq dir fs"
    and "group_and_write iter pq dir rows fs = (files, res, fs')"
  shows "readable pq dir fs'"
  unfolding readable_def
proof (intro conjI allI impI)
  fix p data assume p: "is_parquet p" "file_at fs' p = Some data"
  from write_groups_effect [OF assms(4) [unfolded group_and_write_def] p(1)
      iter_groups_plain [OF assms(1)] iter_groups(2) [OF assms(1)]]
  consider "file_at fs' p = file_at fs p"
    | g data' where "write_parquet pq (sort_func row_less g) = Inr data'" "file_at fs' p = Some data'" by blast
  then show "\<exists>rows. pq_read pq data = Inr rows"
  proof cases
    case 1
    with p assms(3) show ?thesis unfolding readable_def by metis
  next
    case 2
    with p(2) write_parquet_read [OF assms(2) 2(1)] show ?thesis by auto
  qed
next
  show "list_all (\<lambda>p. length (snd p) \<le> Suc (length (snd (filepath_clean dir)))) (fs_dirs fs')"
    using write_groups_dirs [OF assms(4) [unfolded group_and_write_def] iter_groups_plain [OF assms(1)]] assms(3)
    by (simp add: readable_def)
qed

lemma read_files_ok:
  "(\<And>p. p \<in> set ps \<Longrightarrow> \<exists>got. read_file pq fs p = Inr got) \<Longrightarrow> \<exists>out. read_files pq fs ps rows = Inr out"
proof (induction ps arbitrary: rows)
  case (Cons p ps)
  obtain got where "read_file pq fs p = Inr got" using Cons.prems [of p] by auto
  with Cons.IH [of "rows @ got"] Cons.prems show ?case by auto
qed simp

lemma read_day_ok:
  assumes "readable pq root fs"
  shows "\<exists>out. read_day pq fs (fst (filepath_clean root), snd (filepath_clean root) @ [k]) = Inr out"
proof -
  let ?d = "(fst (filepath_clean root), snd (filepath_clean root) @ [k])"
  have "\<exists>got. read_file pq fs p = Inr got" if p: "p \<in> set (filepath_glob fs ?d ''*.parquet'')" for p
  proof -
    obtain n where n: "p = (fst ?d, snd ?d @ [n])" "glob_match ''*.parquet'' n"
        "p \<in> set (fs_dirs fs) \<or> file_at fs p \<noteq> None"
      using p by (auto simp: day_files_iff)
    have "p \<notin> set (fs_dirs fs)" using assms n(1) by (auto simp: readable_def list_all_iff)
    with n obtain data where d: "file_at fs p = Some data" by auto
    have "is_parquet p" using n(1,2) by (simp add: is_parquet_def)
    with assms d show ?thesis unfolding readable_def read_file_def by fastforce
  qed
  from read_files_ok [of "filepath_glob fs ?d ''*.parquet''" pq fs "[]"] this show ?thesis
    by (auto simp: read_day_def)
qed

text \<open>C12: what is written can be read back: after a batch has been written to a readable archive, reading
  the day of any of its dated rows succeeds and gives that row (its time cut to microseconds).\<close>

theorem archive_roundtrip:
  assumes "arch_good a" and "readable (ar_pq a) (ac_dir (ar_config a)) fs"
    and "group_and_write (ar_iter a) (ar_pq a) (ac_dir (ar_config a)) rows fs = (files, None, fs')"
    and "r \<in> set rows" and "\<not> is_zero (r_ts r)"
  shows "\<exists>out r'. read_day (ar_pq a) fs' (path_join (ac_dir (ar_config a)) (row_partition r)) = Inr out \<and>
    r' \<in> set out \<and> row_less (trunc_row r) r' = 0"
proof -
  let ?dir = "ac_dir (ar_config a)"
  have dir: "path_join ?dir (row_partition r) = (fst (filepath_clean ?dir), snd (filepath_clean ?dir) @ [row_partition r])"
    by (rule path_join_elem) simp
  have "readable (ar_pq a) ?dir fs'"
    using group_and_write_readable [OF _ _ assms(2,3)] assms(1) by (simp add: arch_good_def)
  from read_day_ok [OF this] obtain out where
    out: "read_day (ar_pq a) fs' (fst (filepath_clean ?dir), snd (filepath_clean ?dir) @ [row_partition r]) = Inr out" by blast
  from read_day_stored [OF group_and_write_stores [OF assms(1,4,3)] assms(5) out] out show ?thesis
    unfolding dir by blast
qed

lemma empty_fs_readable [simp]: "readable pq dir empty_fs" "well_filed pq dir empty_fs"
  by (simp_all add: readable_def well_filed_def empty_fs_def)

theorem archive_roundtrip_witness:
  "\<exists>files fs' out r'. group_and_write (\<lambda>gs. gs) sample_pq ''archive'' [junk_row ''x'', sample_row] empty_fs = (files, None, fs') \<and>
     read_day sample_pq fs' (path_join ''archive'' (row_partition sample_row)) = Inr out \<and> r' \<in> set out \<and>
     row_less (trunc_row sample_row) r' = 0"
proof -
  obtain files fs' where w: "group_and_write (\<lambda>gs. gs) sample_pq ''archive'' [junk_row ''x'', sample_row] empty_fs = (files, None, fs')"
    by (rule sample_writes)
  have z: "\<not> is_zero (r_ts sample_row)" by (simp add: sample_row_def)
  from archive_roundtrip [OF sample_archiver_good, of empty_fs "[junk_row ''x'', sample_row]" files fs' sample_row] w z
  show ?thesis by auto
qed

theorem read_day_exact_witness:
  "\<exists>out. read_day sample_pq empty_fs (path_join ''archive'' ''dt=2026-09-14'') = Inr out \<and>
     sorted_wrt (\<lambda>a b. row_less a b < 0) out"
proof -
  have "path_join ''archive'' ''dt=2026-09-14'' = (fst (filepath_clean ''archive''), snd (filepath_clean ''archive'') @ [''dt=2026-09-14''])"
    by (rule path_join_elem) (simp add: plain_elem_def)
  then obtain out where o: "read_day sample_pq empty_fs (path_join ''archive'' ''dt=2026-09-14'') = Inr out"
    using read_day_ok [OF empty_fs_readable(1), of sample_pq "''archive''" "''dt=2026-09-14''"] by auto
  from read_day_exact [OF o] o show ?thesis by blast
qed

end
