(* ===== verification/Backfill.thy ===== *)
theory Backfill
  imports Archive_Read
begin

section \<open>The backfill (\<open>cmd/backfill/main.go\<close>)\<close>

text \<open>
  The command that replays the archive onto the shadow topic. Its world \<open>'w\<close> holds the broker; the
  client library and \<open>ProduceSync(...).FirstErr()\<close> are parameters, the archive is a file system it only
  reads. \<open>os.Exit(1)\<close> is \<open>Exit1\<close> with the message it logs, and skips the deferred \<open>Close\<close>.
\<close>

subsection \<open>The program\<close>

definition replay_topic :: string where
  "replay_topic = raw_topic @ replay_suffix"

definition batch_size :: nat where
  "batch_size = 5000"

datatype exit = Exit0 | Exit1 string gerror

type_synonym ('c, 'w) producer = "'c \<Rightarrow> krecord list \<Rightarrow> 'w \<Rightarrow> gerror option \<times> 'w"

definition replay_record :: "row \<Rightarrow> krecord result" where
  "replay_record r =
     wire_record replay_topic
       \<lparr>e_station = r_station r, e_id = 0, e_ts = r_ts r, e_raw = r_raw r, e_received = zero_time\<rparr>"

text \<open>\<open>for start := 0; start < len(rows); start += batchSize\<close>.\<close>

function replay_from ::
  "('c, 'w) producer \<Rightarrow> 'c \<Rightarrow> row list \<Rightarrow> nat \<Rightarrow> 'w \<Rightarrow> exit \<times> 'w" where
  "replay_from produce client rows start w =
     (if start < length rows then
        (let stop = min (start + batch_size) (length rows)
         in case map_result replay_record (take (stop - start) (drop start rows)) of
              Inl err \<Rightarrow> (Exit1 ''encode event'' err, w)
            | Inr records \<Rightarrow>
                (case produce client records w of
                   (Some err, w1) \<Rightarrow> (Exit1 ''produce'' err, w1)
                 | (None, w1) \<Rightarrow> replay_from produce client rows (start + batch_size) w1))
      else (Exit0, w))"
  by pat_completeness auto
termination
  by (relation "measure (\<lambda>(_, _, rows, start, _). length rows - start)") (auto simp: batch_size_def)

declare replay_from.simps [simp del]

fun replay_days ::
  "parquet_lib \<Rightarrow> fsys \<Rightarrow> ('c, 'w) producer \<Rightarrow> 'c \<Rightarrow> fpath list \<Rightarrow> 'w \<Rightarrow> exit \<times> 'w" where
  "replay_days pq fs produce client [] w = (Exit0, w)"
| "replay_days pq fs produce client (day # ds) w =
     (case read_day pq fs day of
        Inl err \<Rightarrow> (Exit1 ''read day'' err, w)
      | Inr rows \<Rightarrow>
          (case replay_from produce client rows 0 w of
             (Exit1 m err, w1) \<Rightarrow> (Exit1 m err, w1)
           | (Exit0, w1) \<Rightarrow> replay_days pq fs produce client ds w1))"

definition archive_dir :: "(string \<Rightarrow> string) \<Rightarrow> string" where
  "archive_dir getenv = (let a = getenv ''ARCHIVE_DIR'' in if a = [] then ''archive'' else a)"

definition backfill_main ::
  "(string \<Rightarrow> string) \<Rightarrow> parquet_lib \<Rightarrow> fsys \<Rightarrow> ('c, kgo_opt list, 'w) connlib \<Rightarrow> ('c, 'w) producer \<Rightarrow> 'w \<Rightarrow>
   exit \<times> 'w" where
  "backfill_main getenv pq fs lib produce w =
     (case brokers getenv of
        Inl err \<Rightarrow> (Exit1 ''config'' err, w)
      | Inr bs \<Rightarrow>
          (case days (archive_dir getenv) fs of
             Inl err \<Rightarrow> (Exit1 ''list archive'' err, w)
           | Inr ds \<Rightarrow>
               (case open_kafka lib bs [] w of
                  (Inl err, w1) \<Rightarrow> (Exit1 ''connect to kafka'' err, w1)
                | (Inr client, w1) \<Rightarrow>
                    (case replay_days pq fs produce client ds w1 of
                       (Exit1 m err, w2) \<Rightarrow> (Exit1 m err, w2)
                     | (Exit0, w2) \<Rightarrow> (Exit0, cl_close lib client w2)))))"

subsection \<open>What the broker acknowledges\<close>

text \<open>
  \<open>log\<close> is the sequence of records a producer has got onto the broker. A \<open>ProduceSync\<close> without an
  error has all of its records there, in order; one with an error has some of them. Connecting,
  pinging and closing produce nothing.
\<close>

definition produce_contract :: "('c, 'w) producer \<Rightarrow> ('w \<Rightarrow> krecord list) \<Rightarrow> bool" where
  "produce_contract produce log \<longleftrightarrow>
     (\<forall>c recs w. case produce c recs w of
        (None, w') \<Rightarrow> log w' = log w @ recs
      | (Some _, w') \<Rightarrow> \<exists>sent. set sent \<subseteq> set recs \<and> log w' = log w @ sent)"

lemma produce_contract_ok:
  "produce_contract produce log \<Longrightarrow> produce c recs w = (None, w') \<Longrightarrow> log w' = log w @ recs"
  unfolding produce_contract_def by (metis (mono_tags, lifting) case_prod_conv option.case(1))

lemma map_result_append:
  "map_result f (xs @ ys) = Inr zs \<longleftrightarrow>
     (\<exists>us vs. map_result f xs = Inr us \<and> map_result f ys = Inr vs \<and> zs = us @ vs)"
  by (auto simp: map_result_Inr_iff list_all2_append1 dest: list_all2_appendI)

lemma replay_from_ok:
  "produce_contract produce log \<Longrightarrow> replay_from produce client rows start w = (Exit0, w') \<Longrightarrow>
    \<exists>recs. map_result replay_record (drop start rows) = Inr recs \<and> log w' = log w @ recs"
proof (induction produce client rows start w rule: replay_from.induct)
  case (1 produce client rows start w)
  show ?case
  proof (cases "start < length rows")
    case False
    with "1.prems"(2) show ?thesis by (simp add: replay_from.simps)
  next
    case True
    let ?stop = "min (start + batch_size) (length rows)"
    let ?chunk = "take (?stop - start) (drop start rows)"
    obtain records w1 where c: "map_result replay_record ?chunk = Inr records"
        "produce client records w = (None, w1)"
        "replay_from produce client rows (start + batch_size) w1 = (Exit0, w')"
      using "1.prems"(2) True
      by (subst (asm) replay_from.simps) (auto simp: Let_def split: sum.splits prod.splits option.splits)
    obtain recs where r: "map_result replay_record (drop (start + batch_size) rows) = Inr recs" "log w' = log w1 @ recs"
      using "1.IH" [OF True refl c(1) c(2) [symmetric] refl "1.prems"(1) c(3)] by blast
    have "drop start rows = ?chunk @ drop (start + batch_size) rows"
      by (cases "start + batch_size \<le> length rows")
        (simp_all add: min_def add.commute flip: drop_drop)
    moreover have "map_result replay_record (?chunk @ drop (start + batch_size) rows) = Inr (records @ recs)"
      unfolding map_result_append using c(1) r(1) by blast
    ultimately have "map_result replay_record (drop start rows) = Inr (records @ recs)" by simp
    with r(2) produce_contract_ok [OF "1.prems"(1) c(2)] show ?thesis by simp
  qed
qed

lemma replay_days_ok:
  assumes "produce_contract produce log"
  shows "replay_days pq fs produce client ds w = (Exit0, w') \<Longrightarrow>
    \<exists>rowss recs. list_all2 (\<lambda>d rows. read_day pq fs d = Inr rows) ds rowss \<and>
      map_result replay_record (concat rowss) = Inr recs \<and> log w' = log w @ recs"
proof (induction ds arbitrary: w)
  case (Cons d ds)
  obtain rows w1 where d: "read_day pq fs d = Inr rows" "replay_from produce client rows 0 w = (Exit0, w1)"
      "replay_days pq fs produce client ds w1 = (Exit0, w')"
    using Cons.prems by (auto split: sum.splits prod.splits exit.splits)
  obtain recs where r: "map_result replay_record rows = Inr recs" "log w1 = log w @ recs"
    using replay_from_ok [OF assms d(2)] by auto
  obtain rowss recs' where rest: "list_all2 (\<lambda>d rows. read_day pq fs d = Inr rows) ds rowss"
      "map_result replay_record (concat rowss) = Inr recs'" "log w' = log w1 @ recs'"
    using Cons.IH [OF d(3)] by blast
  have "map_result replay_record (concat (rows # rowss)) = Inr (recs @ recs')"
    unfolding concat.simps map_result_append using r(1) rest(2) by blast
  moreover have "list_all2 (\<lambda>d rows. read_day pq fs d = Inr rows) (d # ds) (rows # rowss)" using d(1) rest(1) by simp
  ultimately show ?case using r(2) rest(3) by (metis append_assoc)
qed simp

lemma backfill_main_ok:
  assumes "produce_contract produce log" "silent lib log"
    and "backfill_main getenv pq fs lib produce w = (Exit0, w')"
  shows "\<exists>ds rowss recs. days (archive_dir getenv) fs = Inr ds \<and>
    list_all2 (\<lambda>d rows. read_day pq fs d = Inr rows) ds rowss \<and>
    map_result replay_record (concat rowss) = Inr recs \<and> log w' = log w @ recs"
proof -
  obtain bs ds client w1 w2 where m: "brokers getenv = Inr bs" "days (archive_dir getenv) fs = Inr ds"
      "open_kafka lib bs [] w = (Inr client, w1)" "replay_days pq fs produce client ds w1 = (Exit0, w2)"
      "w' = cl_close lib client w2"
    using assms(3) by (auto simp: backfill_main_def split: sum.splits prod.splits exit.splits)
  have "log w1 = log w" by (rule silent_open [OF assms(2) m(3)])
  moreover have "log w' = log w2" using assms(2) m(5) by (simp add: silent_def)
  ultimately show ?thesis using replay_days_ok [OF assms(1) m(4)] m(2) by metis
qed

subsection \<open>What a replayed record holds\<close>

text \<open>
  The Parquet reader gives times in UTC, as the schema's timestamps are. A row can be carried when its text
  is UTF-8 and its nanoseconds are less than a second, as those of every \<open>time.Time\<close> are.
\<close>

definition reads_utc :: "parquet_lib \<Rightarrow> bool" where
  "reads_utc pq \<longleftrightarrow> (\<forall>data rows r. pq_read pq data = Inr rows \<longrightarrow> r \<in> set rows \<longrightarrow> t_off (r_ts r) = 0)"

definition carried_row :: "row \<Rightarrow> bool" where
  "carried_row r \<longleftrightarrow> valid_utf8 (r_station r) \<and> valid_utf8 (r_raw r) \<and> t_nsec (r_ts r) < 10 ^ 9"

definition replayed_as :: "row \<Rightarrow> krecord \<Rightarrow> bool" where
  "replayed_as r rec \<longleftrightarrow> kr_topic rec = replay_topic \<and> kr_key rec = r_station r \<and>
     (carried_row r \<longrightarrow> unmarshal_event (kr_value rec) =
        Some \<lparr>e_station = r_station r, e_id = 0, e_ts = r_ts r, e_raw = r_raw r, e_received = zero_time\<rparr>)"

text \<open>What reading a day gives: every row of every file, up to equality in the order, and no other.\<close>

definition rows_of_day :: "parquet_lib \<Rightarrow> fsys \<Rightarrow> fpath \<Rightarrow> row list \<Rightarrow> bool" where
  "rows_of_day pq fs d rows \<longleftrightarrow>
     (\<forall>p \<in> set (filepath_glob fs d ''*.parquet''). \<exists>got. read_file pq fs p = Inr got \<and>
        (\<forall>r \<in> set got. \<exists>r' \<in> set rows. row_less r r' = 0)) \<and>
     (\<forall>r \<in> set rows. \<exists>p \<in> set (filepath_glob fs d ''*.parquet''). \<exists>got. read_file pq fs p = Inr got \<and> r \<in> set got)"

lemma read_day_rows: "read_day pq fs d = Inr rows \<Longrightarrow> rows_of_day pq fs d rows"
  unfolding rows_of_day_def using read_day_lemma by blast

lemma rows_of_day_utc:
  assumes "reads_utc pq" "rows_of_day pq fs d rows" "r \<in> set rows"
  shows "t_off (r_ts r) = 0"
proof -
  obtain p got where "read_file pq fs p = Inr got" "r \<in> set got"
    using assms(2,3) unfolding rows_of_day_def by blast
  with assms(1) show ?thesis by (auto simp: read_file_def reads_utc_def split: option.splits)
qed

lemma replay_record_as:
  assumes "replay_record r = Inr rec" "t_off (r_ts r) = 0"
  shows "replayed_as r rec"
proof -
  let ?e = "\<lparr>e_station = r_station r, e_id = 0, e_ts = r_ts r, e_raw = r_raw r, e_received = zero_time\<rparr>"
  have w: "wire_record replay_topic ?e = Inr rec" using assms(1) by (simp add: replay_record_def)
  have "unmarshal_event (kr_value rec) = Some ?e" if "carried_row r"
  proof -
    have "\<exists>s. marshal_time (r_ts r) = Inr s"
      using wire_record_ok_iff [of replay_topic ?e] w by (metis event.select_convs(3))
    with that assms(2) have "json_event ?e"
      unfolding json_event_def marshal_time_ok_iff by (simp add: json_time_def [of "r_ts r"] carried_row_def int64_lim_def)
    from wire_record_ok [OF this, of replay_topic] w show ?thesis by simp
  qed
  with wire_record_fields [OF w] show ?thesis by (simp add: replayed_as_def)
qed

lemma days_complete:
  assumes "days root fs = Inr ds" "(fst (filepath_clean root), snd (filepath_clean root) @ [n]) \<in> set (fs_dirs fs)"
    and "glob_match day_pattern n"
  shows "(fst (filepath_clean root), snd (filepath_clean root) @ [n]) \<in> set ds"
  using assms by (auto simp: days_def Let_def filepath_glob_iff split: if_splits)

lemma backfill_replayed:
  assumes "produce_contract produce log" "silent lib log" "reads_utc pq"
    and "backfill_main getenv pq fs lib produce w = (Exit0, w')"
  shows "\<exists>ds rowss recs. days (archive_dir getenv) fs = Inr ds \<and>
    list_all2 (\<lambda>d rows. read_day pq fs d = Inr rows \<and> rows_of_day pq fs d rows) ds rowss \<and>
    list_all2 replayed_as (concat rowss) recs \<and> log w' = log w @ recs"
proof -
  obtain ds rowss recs where b: "days (archive_dir getenv) fs = Inr ds"
      "list_all2 (\<lambda>d rows. read_day pq fs d = Inr rows) ds rowss"
      "map_result replay_record (concat rowss) = Inr recs" "log w' = log w @ recs"
    using backfill_main_ok [OF assms(1,2,4)] by blast
  have d: "list_all2 (\<lambda>d rows. read_day pq fs d = Inr rows \<and> rows_of_day pq fs d rows) ds rowss"
    by (rule list_all2_mono [OF b(2)]) (simp add: read_day_rows)
  have utc: "t_off (r_ts r) = 0" if "r \<in> set (concat rowss)" for r
  proof -
    from that obtain rows where rows: "rows \<in> set rowss" "r \<in> set rows" by auto
    from list_all2_mem2 [OF d rows(1)] obtain day where "rows_of_day pq fs day rows" by blast
    with rows_of_day_utc [OF assms(3)] rows(2) show ?thesis by blast
  qed
  have m: "list_all2 (\<lambda>r rec. replay_record r = Inr rec) (concat rowss) recs" using b(3) by (simp add: map_result_Inr_iff)
  have "list_all2 replayed_as (concat rowss) recs"
    unfolding list_all2_conv_all_nth
  proof (intro conjI allI impI)
    show len: "length (concat rowss) = length recs" using m by (rule list_all2_lengthD)
    fix i assume i: "i < length (concat rowss)"
    show "replayed_as (concat rowss ! i) (recs ! i)"
      by (rule replay_record_as [OF list_all2_nthD [OF m i] utc [OF nth_mem [OF i]]])
  qed
  with b(1,4) d show ?thesis by blast
qed

text \<open>C9: a backfill that exits with success, of an archive whose rows are in the directories of their dates, has
  replayed every archived event exactly once, in strictly increasing order of event time, station and line
  across all days, and nothing else: every day's directory is read, what is read of a day is every row of
  every file in it, and what is put on the broker is one record per row, in that order, on the replay topic,
  keyed by its station, and (its text being UTF-8) decoding to its station, time and line.\<close>

theorem backfill_replays_in_order:
  assumes "produce_contract produce log" "silent lib log" "reads_utc pq"
    and "well_filed pq (archive_dir getenv) fs"
    and "backfill_main getenv pq fs lib produce w = (Exit0, w')"
  shows "\<exists>ds rowss recs. days (archive_dir getenv) fs = Inr ds \<and>
    (\<forall>n. (fst (filepath_clean (archive_dir getenv)), snd (filepath_clean (archive_dir getenv)) @ [n]) \<in> set (fs_dirs fs) \<longrightarrow>
       glob_match day_pattern n \<longrightarrow>
       (fst (filepath_clean (archive_dir getenv)), snd (filepath_clean (archive_dir getenv)) @ [n]) \<in> set ds) \<and>
    list_all2 (rows_of_day pq fs) ds rowss \<and> sorted_wrt (\<lambda>a b. row_less a b < 0) (concat rowss) \<and>
    log w' = log w @ recs \<and>
    list_all2 (\<lambda>r rec. kr_topic rec = replay_topic \<and> kr_key rec = r_station r \<and>
      (carried_row r \<longrightarrow> unmarshal_event (kr_value rec) =
         Some \<lparr>e_station = r_station r, e_id = 0, e_ts = r_ts r, e_raw = r_raw r, e_received = zero_time\<rparr>))
      (concat rowss) recs"
proof -
  obtain ds rowss recs where b: "days (archive_dir getenv) fs = Inr ds"
      "list_all2 (\<lambda>d rows. read_day pq fs d = Inr rows \<and> rows_of_day pq fs d rows) ds rowss"
      "list_all2 replayed_as (concat rowss) recs" "log w' = log w @ recs"
    using backfill_replayed [OF assms(1-3,5)] by blast
  have r: "list_all2 (\<lambda>d rows. read_day pq fs d = Inr rows) ds rowss" "list_all2 (rows_of_day pq fs) ds rowss"
    by (rule list_all2_mono [OF b(2)], blast)+
  from days_rows_sorted [OF assms(4) b(1) r(1)] days_complete [OF b(1)] b r(2) show ?thesis
    unfolding replayed_as_def by blast
qed

text \<open>A broker that acknowledges everything, for a run on a concrete archive.\<close>

definition sample_conn :: "(unit, kgo_opt list, krecord list) connlib" where
  "sample_conn = \<lparr>cl_new = (\<lambda>a w. (Inr (), w)), cl_ping = (\<lambda>c w. (None, w)), cl_close = (\<lambda>c w. w)\<rparr>"

definition sample_produce :: "(unit, krecord list) producer" where
  "sample_produce c recs w = (None, w @ recs)"

definition sample_env :: "string \<Rightarrow> string" where
  "sample_env k = (if k = ''KAFKA_BROKERS'' then ''b:9092'' else [])"

lemma sample_conn_ok: "produce_contract sample_produce (\<lambda>w. w)" "silent sample_conn (\<lambda>w. w)"
  by (simp_all add: produce_contract_def sample_produce_def silent_def sample_conn_def)

lemma sample_pq_utc: "reads_utc sample_pq"
proof -
  have "read_rows n s = Some rows \<Longrightarrow> r \<in> set rows \<Longrightarrow> t_off (r_ts r) = 0" for n s rows r
    by (induction n s arbitrary: rows rule: read_rows.induct)
      (auto simp: read_row_def split: if_splits option.splits)
  then show ?thesis by (auto simp: reads_utc_def sample_pq_def split: option.splits)
qed

text \<open>An archive of one file of one row.\<close>

definition sample_day :: fpath where
  "sample_day = (False, [''archive'', ''dt=2026-09-14''])"

definition sample_archive :: fsys where
  "sample_archive =
     \<lparr>fs_dirs = [sample_day],
      fs_files = [((False, [''archive'', ''dt=2026-09-14'', ''x.parquet'']), row_bytes sample_row)],
      fs_script = []\<rparr>"

lemma sample_clean: "filepath_clean ''archive'' = (False, [''archive''])"
  by (simp add: filepath_clean_def clean_push_def)

lemma sample_day_glob: "glob_match day_pattern ''dt=2026-09-14''"
proof -
  have "byte c < 0x80 \<and> c \<noteq> CHR ''/''" if "c \<in> set ''dt=2026-09-14''" for c using that by auto
  moreover have "list_all2 (\<lambda>p c. p = CHR ''?'' \<or> p = c) day_pattern ''dt=2026-09-14''" by (simp add: day_pattern_def)
  ultimately show ?thesis using glob_ascii_match [OF day_pattern_no_star] by blast
qed

lemma sample_days: "days ''archive'' sample_archive = Inr [sample_day]"
  by (simp add: days_def sample_clean filepath_glob_def dir_names_def filepath_dir_def sample_archive_def
      sample_day_def sample_day_glob)

lemma sample_file_read: "pq_read sample_pq (row_bytes sample_row) = Inr [trunc_row sample_row]"
  using sample_pq_read [of "[sample_row]" "row_bytes sample_row"] by (simp add: sample_pq_def)

lemma sample_day_read: "read_day sample_pq sample_archive sample_day = Inr [trunc_row sample_row]"
proof -
  have "glob_match ''*.parquet'' ''x.parquet''" by (auto simp: glob_parquet intro!: exI [of _ "''x''"])
  then have "filepath_glob sample_archive sample_day ''*.parquet'' = [(False, [''archive'', ''dt=2026-09-14'', ''x.parquet''])]"
    by (simp add: filepath_glob_def dir_names_def filepath_dir_def sample_archive_def sample_day_def)
  then show ?thesis by (simp add: read_day_def read_file_def sample_archive_def sample_file_read)
qed

lemma backfill_date: "format_date (utc sample_time) = ''2026-09-14''"
proof -
  have "local_date (utc sample_time) = (2026, 9, 14)"
    by (simp add: local_date_def local_days_def sample_time_def)
  then show ?thesis by (simp add: format_date_def fmt_year_def pad_dec_numeral digit_chars)
qed

lemma sample_well_filed: "well_filed sample_pq ''archive'' sample_archive"
proof -
  have "format_date (utc (r_ts (trunc_row sample_row))) = ''2026-09-14''"
    unfolding format_date_trunc by (simp add: sample_row_def backfill_date)
  then show ?thesis
    unfolding well_filed_def sample_clean by (auto simp: sample_archive_def sample_file_read split: if_splits)
qed

lemma sample_replay_record: "\<exists>rec. replay_record (trunc_row sample_row) = Inr rec"
proof -
  have "json_time (trunc_micro sample_time)"
    by (simp add: json_time_def four_digit_year_def local_date_def local_days_def sample_time_def)
  then have "(\<exists>s. marshal_time (trunc_micro sample_time) = Inr s) \<and> (\<exists>r. marshal_time zero_time = Inr r)"
    using zero_time_json unfolding marshal_time_ok_iff json_time_def by blast
  then show ?thesis
    unfolding replay_record_def wire_record_ok_iff by (simp add: trunc_row_def sample_row_def)
qed

lemma sample_backfill:
  "\<exists>rec. replay_record (trunc_row sample_row) = Inr rec \<and>
     backfill_main sample_env sample_pq sample_archive sample_conn sample_produce [] = (Exit0, [rec])"
proof -
  obtain rec where rec: "replay_record (trunc_row sample_row) = Inr rec" using sample_replay_record by blast
  have "brokers sample_env = Inr [''b:9092'']" by (simp add: brokers_def sample_env_def)
  moreover have "archive_dir sample_env = ''archive''" by (simp add: archive_dir_def sample_env_def)
  moreover have "open_kafka sample_conn bs [] w = (Inr (), w)" for bs w by (simp add: open_kafka_def sample_conn_def)
  moreover have "replay_from sample_produce () [trunc_row sample_row] 0 [] = (Exit0, [rec])"
    using rec by (simp add: replay_from.simps batch_size_def sample_produce_def)
  ultimately have "backfill_main sample_env sample_pq sample_archive sample_conn sample_produce [] = (Exit0, [rec])"
    by (simp add: backfill_main_def sample_days sample_day_read) (simp add: sample_conn_def)
  with rec show ?thesis by blast
qed

theorem backfill_replays_in_order_witness:
  "\<exists>rec rowss. backfill_main sample_env sample_pq sample_archive sample_conn sample_produce [] = (Exit0, [rec]) \<and>
     sorted_wrt (\<lambda>a b. row_less a b < 0) (concat rowss) \<and>
     list_all2 (\<lambda>r rec. kr_topic rec = replay_topic \<and> kr_key rec = r_station r) (concat rowss) [rec]"
proof -
  obtain rec where rec: "backfill_main sample_env sample_pq sample_archive sample_conn sample_produce [] = (Exit0, [rec])"
    using sample_backfill by blast
  have "well_filed sample_pq (archive_dir sample_env) sample_archive"
    using sample_well_filed by (simp add: archive_dir_def sample_env_def)
  from backfill_replays_in_order [OF sample_conn_ok sample_pq_utc this rec] rec show ?thesis
    by (auto elim!: list_all2_mono)
qed

subsection \<open>From the archive to the replay topic\<close>

text \<open>C10: what the archiver has stored is replayed. After a backfill of the archiver's directory that exits
  with success, each row that a file of its date's directory holds has a record on the replay topic, keyed
  by the row's station and decoding to its station, its line and its instant, to the microsecond that
  Parquet keeps. The row has a station, a time in a year of four digits (the pattern of the directories) and
  text that is UTF-8, and its directory is listed.\<close>

theorem archived_row_replayed:
  assumes "produce_contract produce log" "silent lib log" "reads_utc (ar_pq a)"
    and "stored a fs r" "r_station r \<noteq> []" "\<not> is_zero (r_ts r)" "four_digit_year (utc (r_ts r))" "carried_row r"
    and "archive_dir getenv = ac_dir (ar_config a)"
    and "(fst (filepath_clean (archive_dir getenv)), snd (filepath_clean (archive_dir getenv)) @ [row_partition r]) \<in> set (fs_dirs fs)"
    and "backfill_main getenv (ar_pq a) fs lib produce w = (Exit0, w')"
  shows "\<exists>recs rec e. log w' = log w @ recs \<and> rec \<in> set recs \<and> kr_topic rec = replay_topic \<and> kr_key rec = r_station r \<and>
    unmarshal_event (kr_value rec) = Some e \<and> e_station e = r_station r \<and> e_raw e = r_raw r \<and>
    time_equal (trunc_micro (r_ts r)) (e_ts e)"
proof -
  let ?d = "(fst (filepath_clean (archive_dir getenv)), snd (filepath_clean (archive_dir getenv)) @ [row_partition r])"
  obtain ds rowss recs where b: "days (archive_dir getenv) fs = Inr ds"
      "list_all2 (\<lambda>d rows. read_day (ar_pq a) fs d = Inr rows \<and> rows_of_day (ar_pq a) fs d rows) ds rowss"
      "list_all2 replayed_as (concat rowss) recs" "log w' = log w @ recs"
    using backfill_replayed [OF assms(1-3,11)] by blast
  have "row_partition r = ''dt='' @ format_date (utc (r_ts r))" using assms(5,6) by (simp add: row_partition_def)
  then have "?d \<in> set ds" using days_complete [OF b(1) assms(10)] day_pattern_matches [OF assms(7)] by simp
  then obtain rows where rows: "rows \<in> set rowss" "read_day (ar_pq a) fs ?d = Inr rows"
    using list_all2_mem [OF b(2)] by blast
  obtain r' where r': "r' \<in> set rows" "row_less (trunc_row r) r' = 0"
    using read_day_stored [OF assms(4,6) rows(2) [unfolded assms(9)]] by blast
  have "r' \<in> set (concat rowss)" using rows(1) r'(1) by auto
  then obtain rec where rec: "rec \<in> set recs" "replayed_as r' rec" using list_all2_mem [OF b(3)] by blast
  have eq: "r_station r' = r_station r" "r_raw r' = r_raw r" "time_equal (trunc_micro (r_ts r)) (r_ts r')"
    using r'(2) by (auto simp: row_less_zero trunc_row_def)
  have "t_nsec (r_ts r) div 1000 * 1000 < 10 ^ 9"
    using assms(8) unfolding carried_row_def by (meson div_times_less_eq_dividend le_less_trans)
  with assms(8) eq have "carried_row r'" by (simp add: carried_row_def time_equal_def trunc_micro_def)
  with rec(2) eq have "kr_topic rec = replay_topic \<and> kr_key rec = r_station r \<and>
      unmarshal_event (kr_value rec) =
        Some \<lparr>e_station = r_station r, e_id = 0, e_ts = r_ts r', e_raw = r_raw r, e_received = zero_time\<rparr>"
    by (simp add: replayed_as_def)
  with b(4) rec(1) eq(3) show ?thesis
    by (intro exI [of _ recs] exI [of _ rec]
        exI [of _ "\<lparr>e_station = r_station r, e_id = 0, e_ts = r_ts r', e_raw = r_raw r, e_received = zero_time\<rparr>"]) simp
qed

theorem archived_row_replayed_witness:
  "\<exists>rec. backfill_main sample_env sample_pq sample_archive sample_conn sample_produce [] = (Exit0, [rec]) \<and>
     kr_topic rec = replay_topic \<and> kr_key rec = ''st'' \<and>
     (\<exists>e. unmarshal_event (kr_value rec) = Some e \<and> e_station e = ''st'' \<and> e_raw e = ''MSG,1'')"
proof -
  obtain rec where rec: "backfill_main sample_env sample_pq sample_archive sample_conn sample_produce [] = (Exit0, [rec])"
    using sample_backfill by blast
  have part: "row_partition sample_row = ''dt=2026-09-14''"
    using backfill_date by (simp add: row_partition_def sample_row_def sample_time_ok)
  have dir: "archive_dir sample_env = ac_dir (ar_config sample_archiver)" "filepath_clean (archive_dir sample_env) = (False, [''archive''])"
    by (simp_all add: archive_dir_def sample_env_def sample_archiver_def sample_clean)
  have "is_parquet (False, [''archive'', ''dt=2026-09-14'', ''x.parquet''])"
    by (auto simp: is_parquet_def glob_parquet intro!: exI [of _ "''x''"])
  then have "stored sample_archiver sample_archive sample_row"
    unfolding stored_def part using sample_file_read
    by (intro exI [of _ "(False, [''archive'', ''dt=2026-09-14'', ''x.parquet''])"] exI [of _ "row_bytes sample_row"])
      (simp add: sample_archiver_def sample_clean sample_archive_def archived_as_def trunc_row_def)
  moreover have "four_digit_year (utc sample_time)"
    by (simp add: four_digit_year_def local_date_def local_days_def sample_time_def)
  moreover have "carried_row sample_row"
    by (simp add: carried_row_def sample_row_def sample_time_def valid_utf8_ascii)
  ultimately show ?thesis
    using archived_row_replayed [OF sample_conn_ok _ _ _ _ _ _ dir(1), of sample_archive sample_row "[]" "[rec]"] rec part dir(2)
      sample_pq_utc
    by (auto simp: sample_row_def sample_time_ok sample_archiver_def sample_archive_def sample_day_def)
qed

end
