(* ===== verification/Gateway_Http.thy ===== *)
theory Gateway_Http
  imports Wire
begin

section \<open>Requests and responses (\<open>internal/gateway/handlers.go\<close>)\<close>

text \<open>
  The request and response of \<open>net/http\<close> as far as the handlers touch them, \<open>encode\<close> and \<open>fail\<close>, the
  two request bodies with their \<open>Valid\<close>, and \<open>decodeValid\<close>.
\<close>

subsection \<open>Messages\<close>

record request =
  rq_method :: string
  rq_path :: string
  rq_authorization :: string
  rq_body :: bytes

text \<open>
  The writer: the status sent first stands, the body grows. \<open>rs_aborted\<close> is a panic in the handler,
  which \<open>net/http\<close> answers by dropping the connection.
\<close>

record response =
  rs_status :: "nat option"
  rs_headers :: "(string \<times> string) list"
  rs_body :: bytes
  rs_aborted :: bool

definition empty_response :: response where
  "empty_response = \<lparr>rs_status = None, rs_headers = [], rs_body = [], rs_aborted = False\<rparr>"

definition set_header :: "string \<Rightarrow> string \<Rightarrow> response \<Rightarrow> response" where
  "set_header k v w = w\<lparr>rs_headers := AList.update k v (rs_headers w)\<rparr>"

definition write_header :: "nat \<Rightarrow> response \<Rightarrow> response" where
  "write_header status w =
     (case rs_status w of None \<Rightarrow> w\<lparr>rs_status := Some status\<rparr> | Some _ \<Rightarrow> w)"

definition write_body :: "bytes \<Rightarrow> response \<Rightarrow> response" where
  "write_body b w = w\<lparr>rs_body := rs_body w @ b\<rparr>"

text \<open>\<open>json.NewEncoder(w).Encode(v)\<close> ends the value with a newline; string maps print by sorted key.\<close>

definition encode :: "nat \<Rightarrow> json \<Rightarrow> response \<Rightarrow> response" where
  "encode status v w =
     write_body (print_json v @ [CHR 0x0A])
       (write_header status (set_header ''Content-Type'' ''application/json'' w))"

definition string_map_json :: "(string \<times> string) list \<Rightarrow> json" where
  "string_map_json m = JObj (map (\<lambda>(k, v). (quote_body k, JStr (quote_body v))) (sort_key fst m))"

definition fail :: "nat \<Rightarrow> string \<Rightarrow> response \<Rightarrow> response" where
  "fail status msg = encode status (string_map_json [(''error'', msg)])"

subsection \<open>Events\<close>

record gw_event =
  g_id :: int
  g_ts :: gtime
  g_raw :: bytes

definition zero_gw_event :: gw_event where
  "zero_gw_event = \<lparr>g_id = 0, g_ts = zero_time, g_raw = []\<rparr>"

definition gw_event_fields :: "gw_event fields" where
  "gw_event_fields =
     [(''id'', \<lambda>e j. map_option (\<lambda>v. e\<lparr>g_id := v\<rparr>) (dec_int int64_lim (g_id e) j)),
      (''ts'', \<lambda>e j. map_option (\<lambda>v. e\<lparr>g_ts := v\<rparr>) (dec_time (g_ts e) j)),
      (''raw'', \<lambda>e j. map_option (\<lambda>v. e\<lparr>g_raw := v\<rparr>) (dec_string (g_raw e) j))]"

record events_request =
  er_events :: "gw_event list option"

definition events_fields :: "events_request fields" where
  "events_fields =
     [(''events'', \<lambda>r j. map_option (\<lambda>v. r\<lparr>er_events := v\<rparr>)
         (dec_slice (decode_struct gw_event_fields) zero_gw_event (er_events r) j))]"

definition events_of :: "events_request \<Rightarrow> gw_event list" where
  "events_of r = (case er_events r of None \<Rightarrow> [] | Some es \<Rightarrow> es)"

type_synonym problems = "(string \<times> string) list"

definition raw_key :: "nat \<Rightarrow> string" where
  "raw_key i = ''events['' @ itoa (int i) @ ''].raw''"

fun raw_problems :: "nat \<Rightarrow> gw_event list \<Rightarrow> problems \<Rightarrow> problems" where
  "raw_problems i [] ps = ps"
| "raw_problems i (e # es) ps =
     raw_problems (Suc i) es
       (if g_raw e = [] then AList.update (raw_key i) ''must not be empty'' ps else ps)"

definition events_valid :: "events_request \<Rightarrow> problems" where
  "events_valid r =
     (let ps = (if length (events_of r) = 0 then AList.update ''events'' ''must not be empty'' [] else [])
      in raw_problems 0 (events_of r) ps)"

subsection \<open>Heartbeats\<close>

record heartbeat =
  hb_reported_at :: gtime
  hb_uptime :: int
  hb_disk_free :: int
  hb_buffer_depth :: int
  hb_oldest_buffered :: "gtime option"
  hb_last_publish :: "gtime option"
  hb_last_event :: "gtime option"
  hb_event_rate :: "float64 option"

definition zero_heartbeat :: heartbeat where
  "zero_heartbeat =
     \<lparr>hb_reported_at = zero_time, hb_uptime = 0, hb_disk_free = 0, hb_buffer_depth = 0,
      hb_oldest_buffered = None, hb_last_publish = None, hb_last_event = None, hb_event_rate = None\<rparr>"

definition zero_f64 :: float64 where
  "zero_f64 = \<lparr>f_neg = False, f_mant = 0, f_exp = 0\<rparr>"

definition heartbeat_fields :: "heartbeat fields" where
  "heartbeat_fields =
     [(''reported_at'', \<lambda>h j. map_option (\<lambda>v. h\<lparr>hb_reported_at := v\<rparr>) (dec_time (hb_reported_at h) j)),
      (''uptime_seconds'', \<lambda>h j. map_option (\<lambda>v. h\<lparr>hb_uptime := v\<rparr>) (dec_int int64_lim (hb_uptime h) j)),
      (''disk_free_bytes'', \<lambda>h j. map_option (\<lambda>v. h\<lparr>hb_disk_free := v\<rparr>) (dec_int int64_lim (hb_disk_free h) j)),
      (''buffer_depth'', \<lambda>h j. map_option (\<lambda>v. h\<lparr>hb_buffer_depth := v\<rparr>) (dec_int int64_lim (hb_buffer_depth h) j)),
      (''oldest_buffered_ts'', \<lambda>h j. map_option (\<lambda>v. h\<lparr>hb_oldest_buffered := v\<rparr>)
         (dec_ptr dec_time zero_time (hb_oldest_buffered h) j)),
      (''last_publish_ts'', \<lambda>h j. map_option (\<lambda>v. h\<lparr>hb_last_publish := v\<rparr>)
         (dec_ptr dec_time zero_time (hb_last_publish h) j)),
      (''last_event_ts'', \<lambda>h j. map_option (\<lambda>v. h\<lparr>hb_last_event := v\<rparr>)
         (dec_ptr dec_time zero_time (hb_last_event h) j)),
      (''event_rate'', \<lambda>h j. map_option (\<lambda>v. h\<lparr>hb_event_rate := v\<rparr>)
         (dec_ptr dec_float zero_f64 (hb_event_rate h) j))]"

definition problem_if :: "bool \<Rightarrow> string \<Rightarrow> string \<Rightarrow> problems \<Rightarrow> problems" where
  "problem_if b k msg ps = (if b then AList.update k msg ps else ps)"

definition heartbeat_valid :: "heartbeat \<Rightarrow> problems" where
  "heartbeat_valid h =
     problem_if (case hb_event_rate h of None \<Rightarrow> False | Some x \<Rightarrow> f64_negative x) ''event_rate'' ''must not be negative''
       (problem_if (hb_buffer_depth h < 0) ''buffer_depth'' ''must not be negative''
         (problem_if (hb_disk_free h < 0) ''disk_free_bytes'' ''must not be negative''
           (problem_if (hb_uptime h < 0) ''uptime_seconds'' ''must not be negative''
             (problem_if (is_zero (hb_reported_at h)) ''reported_at'' ''must be set'' []))))"

subsection \<open>Decoding and validating\<close>

text \<open>The interface \<open>validator\<close>: its one method \<open>Valid\<close>.\<close>

type_synonym 'r validator = "'r \<Rightarrow> problems"

text \<open>\<open>decodeValid\<close> behind \<open>http.MaxBytesReader(w, r.Body, limit)\<close>: the value, or the response written.\<close>

definition decode_valid ::
  "nat \<Rightarrow> 'r fields \<Rightarrow> 'r \<Rightarrow> 'r validator \<Rightarrow> bytes \<Rightarrow> response \<Rightarrow> 'r option \<times> response" where
  "decode_valid limit fds zero valid body w =
     (case bind_result (decoder_read limit body)
             (\<lambda>j. case decode_struct fds zero j of None \<Rightarrow> Inl (ErrNew ''json'') | Some v \<Rightarrow> Inr v) of
        Inl err \<Rightarrow>
          if errors_is err ErrMaxBytes then (None, fail 413 ''body too large'' w)
          else (None, fail 400 ''invalid json'' w)
      | Inr v \<Rightarrow>
          (let problems = valid v
           in if problems \<noteq> [] then
                (None, encode 422 (JObj [(''problems'', string_map_json problems)]) w)
              else (Some v, w)))"

lemma set_header_simps [simp]:
  "rs_status (set_header k v w) = rs_status w" "rs_body (set_header k v w) = rs_body w"
  "rs_aborted (set_header k v w) = rs_aborted w"
  "map_of (rs_headers (set_header k v w)) = (map_of (rs_headers w))(k \<mapsto> v)"
  by (simp_all add: set_header_def)

lemma write_header_simps [simp]:
  "rs_status (write_header s w) = (case rs_status w of None \<Rightarrow> Some s | Some t \<Rightarrow> Some t)"
  "rs_body (write_header s w) = rs_body w" "rs_aborted (write_header s w) = rs_aborted w"
  "rs_headers (write_header s w) = rs_headers w"
  by (simp_all add: write_header_def split: option.split)

lemma encode_simps [simp]:
  "rs_status (encode s j w) = (case rs_status w of None \<Rightarrow> Some s | Some t \<Rightarrow> Some t)"
  "rs_aborted (encode s j w) = rs_aborted w"
  "rs_body (encode s j w) = rs_body w @ print_json j @ [CHR 0x0A]"
  "map_of (rs_headers (encode s j w)) = (map_of (rs_headers w))(''Content-Type'' \<mapsto> ''application/json'')"
  by (simp_all add: encode_def write_body_def)

lemma fail_simps [simp]:
  "rs_status (fail s m w) = (case rs_status w of None \<Rightarrow> Some s | Some t \<Rightarrow> Some t)"
  "rs_aborted (fail s m w) = rs_aborted w"
  by (simp_all add: fail_def)

lemma empty_response_simps [simp]:
  "rs_status empty_response = None" "rs_aborted empty_response = False" "rs_body empty_response = []"
  "rs_headers empty_response = []"
  by (simp_all add: empty_response_def)

text \<open>The outcomes of \<open>decodeValid\<close> and what tells them apart.\<close>

lemma decode_valid_cases:
  assumes "decode_valid limit fds zero valid body w = (res, w')"
  obtains (too_big) "decoder_read limit body = Inl ErrMaxBytes" "res = None" "w' = fail 413 ''body too large'' w"
  | (bad_json) err where "decoder_read limit body = Inl err" "err \<noteq> ErrMaxBytes" "res = None" "w' = fail 400 ''invalid json'' w"
  | (bad_type) j where "decoder_read limit body = Inr j" "decode_struct fds zero j = None" "res = None"
      "w' = fail 400 ''invalid json'' w"
  | (invalid) j v where "decoder_read limit body = Inr j" "decode_struct fds zero j = Some v" "valid v \<noteq> []"
      "res = None" "w' = encode 422 (JObj [(''problems'', string_map_json (valid v))]) w"
  | (ok) j v where "decoder_read limit body = Inr j" "decode_struct fds zero j = Some v" "valid v = []"
      "res = Some v" "w' = w"
proof (cases "decoder_read limit body")
  case (Inl err)
  then have "err = ErrMaxBytes \<or> (\<exists>m. err = ErrNew m)"
    by (auto simp: decoder_read_def Let_def split: pres.splits if_splits)
  with assms Inl too_big bad_json show thesis by (auto simp: decode_valid_def)
next
  case (Inr j)
  show thesis
  proof (cases "decode_struct fds zero j")
    case None
    with assms Inr bad_type [OF Inr None] show thesis by (simp add: decode_valid_def)
  next
    case (Some v)
    with assms Inr invalid [OF Inr Some] ok [OF Inr Some] show thesis
      by (simp add: decode_valid_def Let_def split: if_splits)
  qed
qed

subsection \<open>The validators\<close>

lemma itoa_inj [simp]: "itoa (int i) = itoa (int j) \<longleftrightarrow> i = j"
  by (simp add: itoa_def)

lemma raw_key_inj [simp]: "raw_key i = raw_key j \<longleftrightarrow> i = j"
  by (simp add: raw_key_def)

lemma raw_problems_map:
  "map_of (raw_problems i es ps) k =
     (if \<exists>j < length es. g_raw (es ! j) = [] \<and> k = raw_key (i + j) then Some ''must not be empty'' else map_of ps k)"
proof (induction i es ps rule: raw_problems.induct)
  case (2 i e es ps)
  have "(\<exists>j < length (e # es). g_raw ((e # es) ! j) = [] \<and> k = raw_key (i + j)) \<longleftrightarrow>
      (g_raw e = [] \<and> k = raw_key i) \<or> (\<exists>j < length es. g_raw (es ! j) = [] \<and> k = raw_key (Suc i + j))"
    by (auto simp: less_Suc_eq_0_disj)
  with 2 show ?case by auto
qed simp

lemma events_valid_nil: "events_valid r = [] \<longleftrightarrow> events_of r \<noteq> [] \<and> (\<forall>e \<in> set (events_of r). g_raw e \<noteq> [])"
proof -
  have m: "events_valid r = [] \<longleftrightarrow> (\<forall>k. map_of (events_valid r) k = None)"
    by (cases "events_valid r") (auto split: if_splits)
  show ?thesis
  proof (cases "events_of r = []")
    case True
    then show ?thesis by (simp add: events_valid_def)
  next
    case False
    then have "map_of (events_valid r) k = (if \<exists>j < length (events_of r). g_raw (events_of r ! j) = [] \<and> k = raw_key j
        then Some ''must not be empty'' else None)" for k
      by (auto simp: events_valid_def raw_problems_map)
    with m False show ?thesis by (auto simp: all_set_conv_all_nth split: if_splits)
  qed
qed

end
