(* ===== verification/Gateway_Decode.thy ===== *)
theory Gateway_Decode
  imports Gateway_Http
begin

section \<open>What a decoded request holds\<close>

text \<open>
  Whatever the body, the line of an event the gateway decodes is UTF-8, its id fits 64 bits and its time is
  one Go's parser can give (\<open>go_time\<close>). Only a zone of a day or more keeps it from being framed for Kafka
  without loss: an event that is framed reaches the consumers as it was decoded.
\<close>

definition gw_carried :: "gw_event \<Rightarrow> bool" where
  "gw_carried e \<longleftrightarrow> valid_utf8 (g_raw e) \<and> - int64_lim \<le> g_id e \<and> g_id e < int64_lim \<and> go_time (g_ts e)"

lemma dec_string_utf8: "dec_string old j = Some s \<Longrightarrow> valid_utf8 old \<Longrightarrow> valid_utf8 s"
  by (cases j) (auto simp: valid_utf8_unquote)

lemma dec_int_range: "dec_int int64_lim old j = Some i \<Longrightarrow> - int64_lim \<le> old \<and> old < int64_lim \<Longrightarrow>
    - int64_lim \<le> i \<and> i < int64_lim"
  by (cases j) (auto simp: int64_lim_def dest: parse_int_range)

lemma dec_time_go: "dec_time old j = Some t \<Longrightarrow> go_time old \<Longrightarrow> go_time t"
  by (cases j) (auto intro: parse_time_go_time)

lemma gw_event_carried:
  assumes "decode_struct gw_event_fields e j = Some e'" "gw_carried e"
  shows "gw_carried e'"
  using assms
  by (rule decode_struct_keeps)
    (auto simp: gw_event_fields_def gw_carried_def dest: dec_string_utf8 dec_int_range dec_time_go)

lemma zero_gw_event_carried: "gw_carried zero_gw_event"
  using zero_time_json by (simp add: gw_carried_def zero_gw_event_def int64_lim_def json_time_go)

lemma events_carried:
  assumes "decode_struct events_fields r j = Some r'" "list_all gw_carried (events_of r)"
  shows "list_all gw_carried (events_of r')"
  using assms
proof (rule decode_struct_keeps)
  fix k f r v r'
  assume f: "(k, f) \<in> set events_fields" "list_all gw_carried (events_of r)" "f r v = Some r'"
  then obtain es where es: "dec_slice (decode_struct gw_event_fields) zero_gw_event (er_events r) v = Some es"
      "r' = r\<lparr>er_events := es\<rparr>"
    by (auto simp: events_fields_def)
  show "list_all gw_carried (events_of r')"
  proof (cases v)
    case (JArr js)
    with es(1) obtain vs where vs: "es = Some vs"
        "dec_elems (decode_struct gw_event_fields) zero_gw_event (events_of r) js = Some vs"
      by (auto simp: dec_slice_def events_of_def split: option.splits)
    from dec_elems_keeps [OF vs(2) zero_gw_event_carried f(2) gw_event_carried] vs(1) es(2)
    show ?thesis by (simp add: events_of_def)
  qed (use es in \<open>simp_all add: dec_slice_def events_of_def\<close>)
qed

end
