(* ===== verification/Gateway.thy ===== *)
theory Gateway
  imports Gateway_Decode
begin

section \<open>The public API (\<open>internal/gateway/middleware.go\<close>, \<open>handlers.go\<close>, \<open>server.go\<close>)\<close>

text \<open>
  \<open>bearerAuth\<close>, \<open>withTimeout\<close>, the two POST handlers and \<open>newServer\<close> over any state \<open>'s\<close>. What the
  handlers call (\<open>stationLookup\<close>, \<open>eventPublisher\<close>, \<open>heartbeatSaver\<close>) are their arguments; the three
  interfaces and their laws are the locales \<open>station_lookup\<close>, \<open>event_publisher\<close>, \<open>heartbeat_saver\<close>, and
  \<open>gateway\<close> puts them together with the clock and proves what the API promises.
\<close>

subsection \<open>Contexts and handlers\<close>

text \<open>The context of a request: its deadline in nanoseconds, and the station \<open>bearerAuth\<close> stored in it.\<close>

record gctx =
  cx_deadline :: "int option"
  cx_station :: "bytes option"

definition background :: gctx where
  "background = \<lparr>cx_deadline = None, cx_station = None\<rparr>"

type_synonym 's handler = "gctx \<Rightarrow> request \<Rightarrow> response \<Rightarrow> 's \<Rightarrow> response \<times> 's"

type_synonym 's lookup_fn = "gctx \<Rightarrow> bytes \<Rightarrow> 's \<Rightarrow> bytes option result \<times> 's"
type_synonym 's publish_fn = "gctx \<Rightarrow> bytes \<Rightarrow> gtime \<Rightarrow> gw_event list \<Rightarrow> 's \<Rightarrow> gerror option \<times> 's"
type_synonym 's save_fn = "gctx \<Rightarrow> bytes \<Rightarrow> gtime \<Rightarrow> heartbeat \<Rightarrow> 's \<Rightarrow> gerror option \<times> 's"
type_synonym 's clock_fn = "'s \<Rightarrow> gtime \<times> 's"

definition nanos :: "gtime \<Rightarrow> int" where
  "nanos t = t_sec t * 1000000000 + int (t_nsec t)"

definition gw_second :: int where
  "gw_second = 1000000000"

text \<open>\<open>context.WithTimeout\<close>: an earlier deadline of the parent stays.\<close>

definition with_deadline :: "int \<Rightarrow> gctx \<Rightarrow> gctx" where
  "with_deadline d ctx =
     ctx\<lparr>cx_deadline := Some (case cx_deadline ctx of None \<Rightarrow> d | Some d' \<Rightarrow> min d d')\<rparr>"

definition with_timeout :: "'s clock_fn \<Rightarrow> int \<Rightarrow> 's handler \<Rightarrow> 's handler" where
  "with_timeout now d next ctx rq w s =
     (let (t, s1) = now s in next (with_deadline (nanos t + d) ctx) rq w s1)"

definition station_from :: "gctx \<Rightarrow> bytes" where
  "station_from ctx = (case cx_station ctx of None \<Rightarrow> [] | Some st \<Rightarrow> st)"

definition unauthorized :: "response \<Rightarrow> response" where
  "unauthorized w = fail 401 ''unauthorized'' (set_header ''WWW-Authenticate'' ''Bearer'' w)"

definition bearer_auth :: "'s lookup_fn \<Rightarrow> 's handler \<Rightarrow> 's handler" where
  "bearer_auth lookup next ctx rq w s =
     (case cut_prefix (rq_authorization rq) ''Bearer '' of
        None \<Rightarrow> (unauthorized w, s)
      | Some token \<Rightarrow>
          (case lookup ctx token s of
             (Inl err, s1) \<Rightarrow> (fail 500 ''internal'' w, s1)
           | (Inr None, s1) \<Rightarrow> (unauthorized w, s1)
           | (Inr (Some station), s1) \<Rightarrow> next (ctx\<lparr>cx_station := Some station\<rparr>) rq w s1))"

subsection \<open>The handlers\<close>

definition empty_events :: events_request where
  "empty_events = \<lparr>er_events = None\<rparr>"

text \<open>\<open>req.Events[0]\<close> and \<open>req.Events[len-1]\<close> for the log line: an empty list would panic.\<close>

definition handle_events_post :: "'s publish_fn \<Rightarrow> 's clock_fn \<Rightarrow> 's handler" where
  "handle_events_post publish now ctx rq w s =
     (case decode_valid (2 ^ 20) events_fields empty_events events_valid (rq_body rq) w of
        (None, w1) \<Rightarrow> (w1, s)
      | (Some req, w1) \<Rightarrow>
          (let station = station_from ctx; (t, s1) = now s
           in case publish ctx station t (events_of req) s1 of
                (Some err, s2) \<Rightarrow> (fail 500 ''internal'' w1, s2)
              | (None, s2) \<Rightarrow>
                  (case events_of req of
                     [] \<Rightarrow> (w1\<lparr>rs_aborted := True\<rparr>, s2)
                   | _ \<Rightarrow> (write_header 200 w1, s2))))"

definition handle_heartbeat_post :: "'s save_fn \<Rightarrow> 's clock_fn \<Rightarrow> 's handler" where
  "handle_heartbeat_post save now ctx rq w s =
     (case decode_valid (4 * 2 ^ 10) heartbeat_fields zero_heartbeat heartbeat_valid (rq_body rq) w of
        (None, w1) \<Rightarrow> (w1, s)
      | (Some hb, w1) \<Rightarrow>
          (let station = station_from ctx; (t, s1) = now s
           in case save ctx station t hb s1 of
                (Some err, s2) \<Rightarrow> (fail 500 ''internal'' w1, s2)
              | (None, s2) \<Rightarrow> (let (_, s3) = now s2 in (write_header 200 w1, s3))))"

subsection \<open>Routing\<close>

text \<open>\<open>http.ServeMux\<close> on patterns of a method and a literal path. \<open>GET\<close> also serves \<open>HEAD\<close>.\<close>

type_synonym 's route = "string \<times> string \<times> 's handler"

definition method_matches :: "string \<Rightarrow> string \<Rightarrow> bool" where
  "method_matches m rq \<longleftrightarrow> m = rq \<or> (m = ''GET'' \<and> rq = ''HEAD'')"

definition http_error :: "nat \<Rightarrow> string \<Rightarrow> response \<Rightarrow> response" where
  "http_error status msg w =
     write_body (msg @ [CHR 0x0A]) (write_header status
       (set_header ''X-Content-Type-Options'' ''nosniff''
         (set_header ''Content-Type'' ''text/plain; charset=utf-8'' w)))"

definition allow_header :: "'s route list \<Rightarrow> string" where
  "allow_header rs =
     join_with '', '' (sort (remdups (concat (map (\<lambda>(m, _, _). if m = ''GET'' then [''GET'', ''HEAD''] else [m]) rs))))"

definition serve_mux :: "'s route list \<Rightarrow> 's handler" where
  "serve_mux routes ctx rq w s =
     (let here = filter (\<lambda>(m, p, h). p = rq_path rq) routes
      in if here = [] then (http_error 404 ''404 page not found'' w, s)
         else (case List.find (\<lambda>(m, p, h). method_matches m (rq_method rq)) here of
                 Some (m, p, h) \<Rightarrow> h ctx rq w s
               | None \<Rightarrow>
                   (http_error 405 ''Method Not Allowed'' (set_header ''Allow'' (allow_header here) w), s)))"

definition new_server :: "'s lookup_fn \<Rightarrow> 's save_fn \<Rightarrow> 's publish_fn \<Rightarrow> 's clock_fn \<Rightarrow> 's handler" where
  "new_server lookup save publish now =
     (let auth = bearer_auth lookup; timeout = with_timeout now (5 * gw_second)
      in serve_mux
           [(''POST'', ''/v1/events'', timeout (auth (handle_events_post publish now))),
            (''POST'', ''/v1/stations/heartbeat'', timeout (auth (handle_heartbeat_post save now)))])"

subsection \<open>Interfaces\<close>

text \<open>The record of one accepted event.\<close>

definition event_record :: "string \<Rightarrow> bytes \<Rightarrow> gtime \<Rightarrow> gw_event \<Rightarrow> krecord result" where
  "event_record topic station received e =
     wire_record topic
       \<lparr>e_station = station, e_id = g_id e, e_ts = g_ts e, e_raw = g_raw e, e_received = received\<rparr>"

definition wire_event :: "bytes \<Rightarrow> gtime \<Rightarrow> gw_event \<Rightarrow> event" where
  "wire_event station received e =
     \<lparr>e_station = station, e_id = g_id e, e_ts = g_ts e, e_raw = g_raw e, e_received = received\<rparr>"

lemma event_record_eq: "event_record topic station received e = wire_record topic (wire_event station received e)"
  by (simp add: event_record_def wire_event_def)

lemma wire_event_json:
  "gw_carried e \<Longrightarrow> valid_utf8 station \<Longrightarrow> json_time (g_ts e) \<Longrightarrow> json_time received \<Longrightarrow>
    json_event (wire_event station received e)"
  by (simp add: json_event_def wire_event_def gw_carried_def)

text \<open>Of the events a request can hold, those whose time JSON can carry are framed, and no others.\<close>

lemma event_record_iff:
  assumes "gw_carried e" "json_time received"
  shows "(\<exists>rec. event_record topic station received e = Inr rec) \<longleftrightarrow> json_time (g_ts e)"
  using assms
  by (simp add: event_record_eq wire_record_ok_iff wire_event_def gw_carried_def json_time_iff [of "g_ts e"])
    (auto simp: json_time_def marshal_time_ok_iff)

lemma event_records_keyed:
  assumes "map_result (event_record topic st t) es = Inr recs" "rec \<in> set recs"
  shows "kr_key rec = st" "kr_topic rec = topic"
  using assms list_all2_mem2 [of "\<lambda>e rec. event_record topic st t e = Inr rec" es recs rec]
  by (auto simp: map_result_Inr_iff event_record_def dest: wire_record_fields)

text \<open>\<open>stationLookup\<close>: the answer is right, and asking changes nothing.\<close>

locale station_lookup =
  fixes lookup :: "'s lookup_fn"
    and authorizes :: "'s \<Rightarrow> bytes \<Rightarrow> bytes \<Rightarrow> bool"
    and published :: "'s \<Rightarrow> krecord list"
    and saved :: "'s \<Rightarrow> (bytes \<times> gtime) \<Rightarrow> bool"
  assumes lookup_sound: "lookup ctx token s = (Inr (Some st), s') \<Longrightarrow> authorizes s token st"
    and lookup_complete: "lookup ctx token s = (Inr None, s') \<Longrightarrow> \<not> authorizes s token st"
    and lookup_frame: "lookup ctx token s = (r, s') \<Longrightarrow> published s' = published s \<and> saved s' = saved s"

text \<open>\<open>eventPublisher\<close>: nil means that the broker has every record, in order; an error that it may have some.\<close>

locale event_publisher =
  fixes publish :: "'s publish_fn"
    and topic :: string
    and published :: "'s \<Rightarrow> krecord list"
    and saved :: "'s \<Rightarrow> (bytes \<times> gtime) \<Rightarrow> bool"
  assumes publish_ok: "publish ctx st t es s = (None, s') \<Longrightarrow>
      \<exists>recs. map_result (event_record topic st t) es = Inr recs \<and> published s' = published s @ recs"
    and publish_some: "publish ctx st t es s = (r, s') \<Longrightarrow>
      \<exists>recs. published s' = published s @ recs \<and> (\<forall>rec \<in> set recs. kr_key rec = st \<and> kr_topic rec = topic)"
    and publish_frame: "publish ctx st t es s = (r, s') \<Longrightarrow> saved s' = saved s"

text \<open>\<open>heartbeatSaver\<close>: nil means that the station has a heartbeat of that time.\<close>

locale heartbeat_saver =
  fixes save :: "'s save_fn"
    and published :: "'s \<Rightarrow> krecord list"
    and saved :: "'s \<Rightarrow> (bytes \<times> gtime) \<Rightarrow> bool"
  assumes save_ok: "save ctx st t hb s = (None, s') \<Longrightarrow> saved s' (st, trunc_micro (hb_reported_at hb))"
    and save_only: "save ctx st t hb s = (r, s') \<Longrightarrow> saved s' k \<Longrightarrow> \<not> saved s k \<Longrightarrow> fst k = st"
    and save_frame: "save ctx st t hb s = (r, s') \<Longrightarrow> published s' = published s"

locale gateway =
  station_lookup lookup authorizes published saved +
  event_publisher publish topic published saved +
  heartbeat_saver save published saved
  for lookup :: "'s lookup_fn" and authorizes published saved and publish :: "'s publish_fn" and topic
    and save :: "'s save_fn" +
  fixes now :: "'s clock_fn" and good :: "'s \<Rightarrow> bool"
  assumes now_frame: "now s = (t, s') \<Longrightarrow> published s' = published s \<and> saved s' = saved s"
    and now_authorizes: "now s = (t, s') \<Longrightarrow> authorizes s' = authorizes s"
    and now_good: "now s = (t, s') \<Longrightarrow> good s \<Longrightarrow> json_time t \<and> good s'"
    and lookup_good: "lookup ctx token s = (r, s') \<Longrightarrow> good s \<Longrightarrow> good s'"
    and authorizes_good: "authorizes s token st \<Longrightarrow> good s \<Longrightarrow> valid_utf8 st \<and> st \<noteq> []"

text \<open>
  \<open>good\<close> states: the clock reads times JSON can carry, and station ids are non-empty UTF-8 text.
  \<open>authenticates\<close>, \<open>decodes_events\<close> and \<open>decodes_heartbeat\<close> are what the API's promises are about.
\<close>

definition authenticates :: "('s \<Rightarrow> bytes \<Rightarrow> bytes \<Rightarrow> bool) \<Rightarrow> 's \<Rightarrow> request \<Rightarrow> bytes \<Rightarrow> bool" where
  "authenticates authorizes s rq st \<longleftrightarrow>
     (\<exists>token. rq_authorization rq = ''Bearer '' @ token \<and> authorizes s token st)"

definition decodes_events :: "bytes \<Rightarrow> gw_event list \<Rightarrow> bool" where
  "decodes_events body es \<longleftrightarrow>
     (\<exists>j req. decoder_read (2 ^ 20) body = Inr j \<and> decode_struct events_fields empty_events j = Some req \<and>
        es = events_of req \<and> es \<noteq> [] \<and> (\<forall>e \<in> set es. g_raw e \<noteq> []))"

lemma decodes_events_carried: "decodes_events body es \<Longrightarrow> list_all gw_carried es"
proof -
  assume "decodes_events body es"
  then obtain j req where "decode_struct events_fields empty_events j = Some req" "es = events_of req"
    by (auto simp: decodes_events_def)
  with events_carried [of empty_events j req] show ?thesis by (simp add: empty_events_def events_of_def)
qed

lemma records_carry:
  assumes "decodes_events body es" "map_result (event_record topic st t) es = Inr recs" "valid_utf8 st" "json_time t"
  shows "list_all2 (\<lambda>e rec. event_record topic st t e = Inr rec \<and> json_event (wire_event st t e) \<and>
    unmarshal_event (kr_value rec) = Some (wire_event st t e)) es recs"
proof -
  have "event_record topic st t e = Inr rec \<Longrightarrow> json_event (wire_event st t e) \<and>
      unmarshal_event (kr_value rec) = Some (wire_event st t e)" if "e \<in> set es" for e rec
  proof -
    assume rec: "event_record topic st t e = Inr rec"
    have c: "gw_carried e" using decodes_events_carried [OF assms(1)] that by (simp add: list_all_iff)
    with event_record_iff [OF c assms(4), of topic st] rec have "json_time (g_ts e)" by blast
    with c have j: "json_event (wire_event st t e)" using assms(3,4) by (intro wire_event_json)
    with wire_record_ok [OF j, of topic] rec show ?thesis by (auto simp: event_record_eq)
  qed
  with assms(2) show ?thesis unfolding map_result_Inr_iff list_all2_conv_all_nth by (auto simp: nth_mem)
qed

definition decodes_heartbeat :: "bytes \<Rightarrow> heartbeat \<Rightarrow> bool" where
  "decodes_heartbeat body hb \<longleftrightarrow>
     (\<exists>j. decoder_read (4 * 2 ^ 10) body = Inr j \<and> decode_struct heartbeat_fields zero_heartbeat j = Some hb \<and>
        heartbeat_valid hb = [])"

lemma serve_mux_cases:
  assumes "new_server lookup save publish now ctx rq w s = (w', s')"
  obtains (missing) "rs_status w' = (case rs_status w of None \<Rightarrow> Some 404 | Some t \<Rightarrow> Some t)" "s' = s" "rs_aborted w' = rs_aborted w"
  | (bad_verb) "rs_status w' = (case rs_status w of None \<Rightarrow> Some 405 | Some t \<Rightarrow> Some t)" "s' = s" "rs_aborted w' = rs_aborted w"
  | (events) "rq_method rq = ''POST''" "rq_path rq = ''/v1/events''"
      "with_timeout now (5 * gw_second) (bearer_auth lookup (handle_events_post publish now)) ctx rq w s = (w', s')"
  | (heartbeat) "rq_method rq = ''POST''" "rq_path rq = ''/v1/stations/heartbeat''"
      "with_timeout now (5 * gw_second) (bearer_auth lookup (handle_heartbeat_post save now)) ctx rq w s = (w', s')"
proof -
  have e: "rs_status (http_error n m v) = (case rs_status v of None \<Rightarrow> Some n | Some t \<Rightarrow> Some t)"
    "rs_aborted (http_error n m v) = rs_aborted v" for n m v
    by (simp_all add: http_error_def write_body_def)
  consider "rq_path rq = ''/v1/events''" | "rq_path rq = ''/v1/stations/heartbeat''"
    | "rq_path rq \<noteq> ''/v1/events''" "rq_path rq \<noteq> ''/v1/stations/heartbeat''" by blast
  then show thesis
  proof cases
    case 1
    show ?thesis
    proof (cases "rq_method rq = ''POST''")
      case True
      with 1 assms events show ?thesis by (simp add: new_server_def serve_mux_def method_matches_def Let_def)
    next
      case False
      with 1 assms bad_verb show ?thesis
        by (auto simp: new_server_def serve_mux_def method_matches_def Let_def e)
    qed
  next
    case 2
    show ?thesis
    proof (cases "rq_method rq = ''POST''")
      case True
      with 2 assms heartbeat show ?thesis by (simp add: new_server_def serve_mux_def method_matches_def Let_def)
    next
      case False
      with 2 assms bad_verb show ?thesis
        by (auto simp: new_server_def serve_mux_def method_matches_def Let_def e)
    qed
  next
    case 3
    with assms missing show ?thesis by (auto simp: new_server_def serve_mux_def Let_def e)
  qed
qed

context gateway
begin

lemma bearer_auth_cases:
  assumes "bearer_auth lookup next ctx rq w s = (w', s')"
  obtains (denied) "w' = unauthorized w" "published s' = published s" "saved s' = saved s"
      "\<And>st. \<not> authenticates authorizes s rq st"
  | (lookup_failed) "w' = fail 500 ''internal'' w" "published s' = published s" "saved s' = saved s"
  | (admitted) st s1 where "authenticates authorizes s rq st" "published s1 = published s" "saved s1 = saved s"
      "next (ctx\<lparr>cx_station := Some st\<rparr>) rq w s1 = (w', s')" "good s \<Longrightarrow> good s1"
proof (cases "cut_prefix (rq_authorization rq) ''Bearer ''")
  case None
  have "\<not> authenticates authorizes s rq st" for st
  proof
    assume "authenticates authorizes s rq st"
    then obtain token where "rq_authorization rq = ''Bearer '' @ token" by (auto simp: authenticates_def)
    with None show False by (simp only: cut_prefix_append option.distinct)
  qed
  with None assms denied show thesis by (simp add: bearer_auth_def del: cut_prefix.simps)
next
  case (Some token)
  then have tok: "rq_authorization rq = ''Bearer '' @ token" by (simp add: cut_prefix_iff del: cut_prefix.simps)
  obtain r s1 where l: "lookup ctx token s = (r, s1)" by (cases "lookup ctx token s")
  note fr = lookup_frame [OF l]
  show thesis
  proof (cases r)
    case (Inl err)
    with assms Some l fr lookup_failed show thesis by (simp add: bearer_auth_def del: cut_prefix.simps)
  next
    case (Inr ost)
    show thesis
    proof (cases ost)
      case None
      with l Inr have "\<not> authorizes s token st" for st using lookup_complete by blast
      with tok have "\<not> authenticates authorizes s rq st" for st by (auto simp: authenticates_def)
      with assms Some l fr Inr None denied show thesis by (simp add: bearer_auth_def del: cut_prefix.simps)
    next
      case st: (Some st)
      with l Inr have "authorizes s token st" using lookup_sound by blast
      with tok have a: "authenticates authorizes s rq st" by (auto simp: authenticates_def)
      from assms Some l Inr st have "next (ctx\<lparr>cx_station := Some station\<rparr>) rq w s1 = (w', s')" if "station = st" for station
        by (simp add: that bearer_auth_def del: cut_prefix.simps)
      with admitted [OF a, of s1] fr lookup_good [OF l] show thesis by blast
    qed
  qed
qed

lemma events_cases:
  assumes "handle_events_post publish now ctx rq empty_response s = (w', s')"
  obtains (rejected) "rs_status w' \<in> {Some 400, Some 413, Some 422}" "\<not> rs_aborted w'" "s' = s"
  | (failed) recs where "rs_status w' = Some 500" "\<not> rs_aborted w'" "published s' = published s @ recs"
      "\<forall>rec \<in> set recs. kr_key rec = station_from ctx \<and> kr_topic rec = topic" "saved s' = saved s"
  | (accepted) es t recs where "rs_status w' = Some 200" "\<not> rs_aborted w'" "decodes_events (rq_body rq) es"
      "map_result (event_record topic (station_from ctx) t) es = Inr recs" "published s' = published s @ recs"
      "saved s' = saved s" "good s \<Longrightarrow> json_time t"
proof -
  obtain v w1 where d: "decode_valid (2 ^ 20) events_fields empty_events events_valid (rq_body rq) empty_response = (v, w1)"
    by (cases "decode_valid (2 ^ 20) events_fields empty_events events_valid (rq_body rq) empty_response")
  obtain t s1 where n: "now s = (t, s1)" by (cases "now s")
  from d show thesis
  proof (cases rule: decode_valid_cases)
    case (ok j req)
    have ev: "decodes_events (rq_body rq) (events_of req)" "events_of req \<noteq> []"
      using ok by (auto simp: decodes_events_def events_valid_nil)
    obtain r s2 where p: "publish ctx (station_from ctx) t (events_of req) s1 = (r, s2)"
      by (cases "publish ctx (station_from ctx) t (events_of req) s1")
    obtain recs where some: "published s2 = published s1 @ recs" "\<forall>rec \<in> set recs. kr_key rec = station_from ctx \<and> kr_topic rec = topic"
      using publish_some [OF p] by blast
    show thesis
    proof (cases r)
      case (Some err)
      with assms d ok n p have "w' = fail 500 ''internal'' empty_response" "s' = s2"
        by (simp_all add: handle_events_post_def Let_def)
      with failed [of recs] some publish_frame [OF p] now_frame [OF n] show thesis by simp
    next
      case None
      obtain recs' where "map_result (event_record topic (station_from ctx) t) (events_of req) = Inr recs'"
          "published s2 = published s1 @ recs'" using publish_ok p None by blast
      moreover from assms d ok n p None ev(2) have "w' = write_header 200 empty_response" "s' = s2"
        by (auto simp: handle_events_post_def Let_def split: list.splits)
      ultimately show thesis using accepted ev publish_frame [OF p] now_frame [OF n] now_good [OF n] by simp
    qed
  next
    case too_big
    with assms d rejected show thesis by (auto simp: handle_events_post_def)
  next
    case (bad_json err)
    with assms d rejected show thesis by (auto simp: handle_events_post_def)
  next
    case (bad_type j)
    with assms d rejected show thesis by (auto simp: handle_events_post_def)
  next
    case (invalid j v)
    with assms d rejected show thesis by (auto simp: handle_events_post_def)
  qed
qed

lemma heartbeat_cases:
  assumes "handle_heartbeat_post save now ctx rq empty_response s = (w', s')"
  obtains (rejected) "rs_status w' \<in> {Some 400, Some 413, Some 422}" "\<not> rs_aborted w'" "s' = s"
  | (failed) "rs_status w' = Some 500" "\<not> rs_aborted w'" "published s' = published s"
      "\<And>k. saved s' k \<Longrightarrow> \<not> saved s k \<Longrightarrow> fst k = station_from ctx"
  | (accepted) hb where "rs_status w' = Some 200" "\<not> rs_aborted w'" "decodes_heartbeat (rq_body rq) hb"
      "saved s' (station_from ctx, trunc_micro (hb_reported_at hb))" "published s' = published s"
      "\<And>k. saved s' k \<Longrightarrow> \<not> saved s k \<Longrightarrow> fst k = station_from ctx"
proof -
  obtain v w1 where d: "decode_valid (4 * 2 ^ 10) heartbeat_fields zero_heartbeat heartbeat_valid (rq_body rq) empty_response = (v, w1)"
    by (cases "decode_valid (4 * 2 ^ 10) heartbeat_fields zero_heartbeat heartbeat_valid (rq_body rq) empty_response")
  obtain t s1 where n: "now s = (t, s1)" by (cases "now s")
  from d show thesis
  proof (cases rule: decode_valid_cases)
    case (ok j hb)
    have hb: "decodes_heartbeat (rq_body rq) hb" using ok by (auto simp: decodes_heartbeat_def)
    obtain r s2 where p: "save ctx (station_from ctx) t hb s1 = (r, s2)"
      by (cases "save ctx (station_from ctx) t hb s1")
    obtain t2 s3 where n2: "now s2 = (t2, s3)" by (cases "now s2")
    have only: "fst k = station_from ctx" if "saved s2 k" "\<not> saved s k" for k
      using save_only [OF p that(1)] that(2) now_frame [OF n] by simp
    show thesis
    proof (cases r)
      case (Some err)
      with assms d ok n p have "w' = fail 500 ''internal'' empty_response" "s' = s2"
        by (simp_all add: handle_heartbeat_post_def Let_def)
      with failed only save_frame [OF p] now_frame [OF n] show thesis by simp
    next
      case None
      with assms d ok n p n2 have "w' = write_header 200 empty_response" "s' = s3"
        by (simp_all add: handle_heartbeat_post_def Let_def)
      moreover have "saved s2 (station_from ctx, trunc_micro (hb_reported_at hb))" using save_ok p None by blast
      ultimately show thesis using accepted hb only save_frame [OF p] now_frame [OF n] now_frame [OF n2] by simp
    qed
  next
    case too_big
    with assms d rejected show thesis by (auto simp: handle_heartbeat_post_def)
  next
    case (bad_json err)
    with assms d rejected show thesis by (auto simp: handle_heartbeat_post_def)
  next
    case (bad_type j)
    with assms d rejected show thesis by (auto simp: handle_heartbeat_post_def)
  next
    case (invalid j v)
    with assms d rejected show thesis by (auto simp: handle_heartbeat_post_def)
  qed
qed

subsection \<open>What the API promises\<close>

lemma authed_cases:
  assumes "with_timeout now d (bearer_auth lookup next) background rq empty_response s = (w', s')"
  obtains (denied) "rs_status w' = Some 401" "\<not> rs_aborted w'" "published s' = published s" "saved s' = saved s"
      "\<And>st. \<not> authenticates authorizes s rq st"
  | (lookup_failed) "rs_status w' = Some 500" "\<not> rs_aborted w'" "published s' = published s" "saved s' = saved s"
  | (admitted) st ctx s1 where "authenticates authorizes s rq st" "published s1 = published s" "saved s1 = saved s"
      "good s \<Longrightarrow> good s1" "station_from ctx = st" "next ctx rq empty_response s1 = (w', s')"
proof -
  obtain t s0 where n: "now s = (t, s0)" by (cases "now s")
  note fr = now_frame [OF n] now_authorizes [OF n]
  from assms n have "bearer_auth lookup next (with_deadline (nanos t + d) background) rq empty_response s0 = (w', s')"
    by (simp add: with_timeout_def)
  then show thesis
  proof (cases rule: bearer_auth_cases)
    case denied
    with that(1) fr show thesis by (simp add: unauthorized_def authenticates_def)
  next
    case lookup_failed
    with that(2) fr show thesis by simp
  next
    case (admitted st s1)
    with fr have "authenticates authorizes s rq st" by (simp add: authenticates_def)
    moreover have "good s \<Longrightarrow> good s1" using now_good [OF n] admitted(5) by blast
    ultimately show thesis using that(3) [OF _ _ _ _ _ admitted(4)] admitted(2,3) fr by (simp add: station_from_def)
  qed
qed

lemma server_cases:
  assumes "new_server lookup save publish now background rq empty_response s = (w', s')"
  obtains (refused) "rs_status w' \<in> {Some 404, Some 405}" "\<not> rs_aborted w'" "s' = s"
  | (denied) "rs_status w' = Some 401" "\<not> rs_aborted w'" "published s' = published s" "saved s' = saved s"
      "\<And>st. \<not> authenticates authorizes s rq st"
  | (lookup_failed) "rs_status w' = Some 500" "\<not> rs_aborted w'" "published s' = published s" "saved s' = saved s"
  | (events) st ctx s1 where "rq_path rq = ''/v1/events''" "authenticates authorizes s rq st"
      "published s1 = published s" "saved s1 = saved s" "good s \<Longrightarrow> good s1" "station_from ctx = st"
      "handle_events_post publish now ctx rq empty_response s1 = (w', s')"
  | (heartbeat) st ctx s1 where "rq_path rq = ''/v1/stations/heartbeat''" "authenticates authorizes s rq st"
      "published s1 = published s" "saved s1 = saved s" "good s \<Longrightarrow> good s1" "station_from ctx = st"
      "handle_heartbeat_post save now ctx rq empty_response s1 = (w', s')"
  using assms
proof (cases rule: serve_mux_cases)
  case missing
  with refused show thesis by simp
next
  case bad_verb
  with refused show thesis by simp
next
  case events: events
  from events(3) show thesis
    by (cases rule: authed_cases) (use denied lookup_failed that(4) events(2) in \<open>blast+\<close>)
next
  case heartbeat: heartbeat
  from heartbeat(3) show thesis
    by (cases rule: authed_cases) (use denied lookup_failed that(5) heartbeat(2) in \<open>blast+\<close>)
qed

lemma answered:
  assumes "new_server lookup save publish now background rq empty_response s = (w', s')"
  shows "rs_status w' \<in> Some ` {200, 400, 401, 404, 405, 413, 422, 500} \<and> \<not> rs_aborted w'"
  using assms
proof (cases rule: server_cases)
  case (events st ctx s1)
  from events(7) show ?thesis by (cases rule: events_cases) auto
next
  case (heartbeat st ctx s1)
  from heartbeat(7) show ?thesis by (cases rule: heartbeat_cases) auto
qed auto

lemma admitted_not_401:
  assumes "new_server lookup save publish now background rq empty_response s = (w', s')"
    and "authenticates authorizes s rq st"
  shows "rs_status w' \<noteq> Some 401"
  using assms(1)
proof (cases rule: server_cases)
  case (events st' ctx s1)
  from events(7) show ?thesis by (cases rule: events_cases) auto
next
  case (heartbeat st' ctx s1)
  from heartbeat(7) show ?thesis by (cases rule: heartbeat_cases) auto
qed (use assms(2) in auto)

lemma events_200:
  assumes "new_server lookup save publish now background rq empty_response s = (w', s')"
    and "rq_path rq = ''/v1/events''" "rs_status w' = Some 200"
  obtains st es t recs where "authenticates authorizes s rq st" "decodes_events (rq_body rq) es"
    "map_result (event_record topic st t) es = Inr recs" "published s' = published s @ recs"
    "good s \<Longrightarrow> json_time t"
  using assms(1)
proof (cases rule: server_cases)
  case (events st ctx s1)
  from events(7) show thesis
  proof (cases rule: events_cases)
    case (accepted es t recs)
    with events(3,6) show thesis
      by (intro that [OF events(2), of es t recs]) (simp_all add: accepted(6) events(5))
  qed (use assms(3) in auto)
qed (use assms in auto)

lemma heartbeat_200:
  assumes "new_server lookup save publish now background rq empty_response s = (w', s')"
    and "rq_path rq = ''/v1/stations/heartbeat''" "rs_status w' = Some 200"
  obtains st hb where "authenticates authorizes s rq st" "decodes_heartbeat (rq_body rq) hb"
    "saved s' (st, trunc_micro (hb_reported_at hb))"
  using assms(1)
proof (cases rule: server_cases)
  case (heartbeat st ctx s1)
  from heartbeat(7) show thesis
  proof (cases rule: heartbeat_cases)
    case (accepted hb)
    with heartbeat that [of st hb] show thesis by simp
  qed (use assms(3) in auto)
qed (use assms in auto)

text \<open>Whatever the answer, what a request adds is under the station its token names.\<close>

definition adds_only_for :: "bytes \<Rightarrow> 's \<Rightarrow> 's \<Rightarrow> bool" where
  "adds_only_for st s s' \<longleftrightarrow>
     (\<exists>recs. published s' = published s @ recs \<and> (\<forall>rec \<in> set recs. kr_key rec = st \<and> kr_topic rec = topic)) \<and>
     (\<forall>k. saved s' k \<longrightarrow> \<not> saved s k \<longrightarrow> fst k = st)"

lemma isolated:
  assumes "new_server lookup save publish now background rq empty_response s = (w', s')"
  shows "published s' = published s \<and> saved s' = saved s \<or>
    rs_status w' \<in> {Some 200, Some 500} \<and> (\<exists>st. authenticates authorizes s rq st \<and> adds_only_for st s s')"
  using assms
proof (cases rule: server_cases)
  case (events st ctx s1)
  from events(7) show ?thesis
  proof (cases rule: events_cases)
    case (failed recs)
    with events show ?thesis by (auto simp: adds_only_for_def)
  next
    case (accepted es t recs)
    have "\<forall>rec \<in> set recs. kr_key rec = st \<and> kr_topic rec = topic"
      using event_records_keyed [OF accepted(4)] events(6) by simp
    with events accepted show ?thesis by (auto simp: adds_only_for_def)
  qed (use events in auto)
next
  case (heartbeat st ctx s1)
  from heartbeat(7) show ?thesis
    by (cases rule: heartbeat_cases) (use heartbeat in \<open>auto simp: adds_only_for_def\<close>)
qed auto

text \<open>An accepted event reaches the topic as it was decoded.\<close>

lemma events_200_carried:
  assumes "new_server lookup save publish now background rq empty_response s = (w', s')"
    and "rq_path rq = ''/v1/events''" "rs_status w' = Some 200" "good s"
  obtains st es t recs where "authenticates authorizes s rq st" "decodes_events (rq_body rq) es" "json_time t"
    "published s' = published s @ recs" "st \<noteq> []"
    "list_all2 (\<lambda>e rec. event_record topic st t e = Inr rec \<and> json_event (wire_event st t e) \<and>
       unmarshal_event (kr_value rec) = Some (wire_event st t e)) es recs"
proof -
  obtain st es t recs where r: "authenticates authorizes s rq st" "decodes_events (rq_body rq) es"
      "map_result (event_record topic st t) es = Inr recs" "published s' = published s @ recs" "json_time t"
    using events_200 [OF assms(1-3)] assms(4) by metis
  have st: "valid_utf8 st" "st \<noteq> []" using r(1) authorizes_good assms(4) by (auto simp: authenticates_def)
  from that [OF r(1,2,5,4) st(2) records_carry [OF r(2,3) st(1) r(5)]] show thesis .
qed

lemma unauthenticated:
  assumes "new_server lookup save publish now background rq empty_response s = (w', s')"
    and "\<And>st. \<not> authenticates authorizes s rq st"
  shows "rs_status w' \<in> Some ` {401, 404, 405, 500} \<and> published s' = published s \<and> saved s' = saved s"
  using assms(1) by (cases rule: server_cases) (use assms(2) in auto)

end

end
