(* ===== verification/Sha256.thy ===== *)
theory Sha256
  imports Go_Utf8 "HOL-Library.Word"
begin

section \<open>SHA-256 and hexadecimal (\<open>hashToken\<close> in \<open>internal/gateway/stations.go\<close>)\<close>

text \<open>
  \<open>crypto/sha256.Sum256\<close> on 32-bit words, \<open>encoding/hex.EncodeToString\<close>, and \<open>hashToken\<close>. Additions
  wrap at 2 ^ 32 and rotations are those of the word library.
\<close>

unbundle bit_operations_syntax

type_synonym w32 = "32 word"

subsection \<open>Padding and blocks\<close>

definition pad_zeros :: "nat \<Rightarrow> nat" where
  "pad_zeros n = (119 - n mod 64) mod 64"

text \<open>The length in bits as eight bytes, most significant first.\<close>

definition be_bytes :: "nat \<Rightarrow> nat \<Rightarrow> nat list" where
  "be_bytes k n = map (\<lambda>i. n div 256 ^ i mod 256) (rev [0..<k])"

definition sha_pad :: "bytes \<Rightarrow> nat list" where
  "sha_pad s =
     map byte s @ [128] @ replicate (pad_zeros (length s)) 0 @ be_bytes 8 (8 * length s mod 2 ^ 64)"

fun words_of :: "nat list \<Rightarrow> w32 list" where
  "words_of (a # b # c # d # r) = word_of_nat (((a * 256 + b) * 256 + c) * 256 + d) # words_of r"
| "words_of _ = []"

fun chunks16 :: "nat \<Rightarrow> 'a list \<Rightarrow> 'a list list" where
  "chunks16 0 xs = []"
| "chunks16 (Suc n) xs = take 16 xs # chunks16 n (drop 16 xs)"

subsection \<open>The compression function\<close>

text \<open>
  The constants as the standard defines them: the first 32 bits of the fractional parts of the cube
  roots of the first 64 primes, and of the square roots of the first eight. \<open>root_bits k n b 0\<close> is the
  largest number of \<open>b\<close> bits whose \<open>k\<close>-th power is at most \<open>n\<close>; \<open>word_of_nat\<close> drops the whole part.
\<close>

fun root_bits :: "nat \<Rightarrow> nat \<Rightarrow> nat \<Rightarrow> nat \<Rightarrow> nat" where
  "root_bits k n 0 r = r"
| "root_bits k n (Suc b) r = root_bits k n b (if (r + 2 ^ b) ^ k \<le> n then r + 2 ^ b else r)"

definition primes_below :: "nat \<Rightarrow> nat list" where
  "primes_below n = filter (\<lambda>p. list_all (\<lambda>d. p mod d \<noteq> 0) [2..<p]) [2..<n]"

definition sha_k :: "w32 list" where
  "sha_k = map (\<lambda>p. word_of_nat (root_bits 3 (p * 2 ^ 96) 35 0)) (primes_below 312)"

definition sha_init :: "w32 list" where
  "sha_init = map (\<lambda>p. word_of_nat (root_bits 2 (p * 2 ^ 64) 35 0)) (primes_below 20)"

definition rotr32 :: "nat \<Rightarrow> w32 \<Rightarrow> w32" where
  "rotr32 n x = (drop_bit n x) OR (push_bit (32 - n) x)"

definition small_sigma0 :: "w32 \<Rightarrow> w32" where
  "small_sigma0 x = rotr32 7 x XOR rotr32 18 x XOR drop_bit 3 x"

definition small_sigma1 :: "w32 \<Rightarrow> w32" where
  "small_sigma1 x = rotr32 17 x XOR rotr32 19 x XOR drop_bit 10 x"

definition big_sigma0 :: "w32 \<Rightarrow> w32" where
  "big_sigma0 x = rotr32 2 x XOR rotr32 13 x XOR rotr32 22 x"

definition big_sigma1 :: "w32 \<Rightarrow> w32" where
  "big_sigma1 x = rotr32 6 x XOR rotr32 11 x XOR rotr32 25 x"

text \<open>The schedule is kept newest word first: \<open>w ! 1\<close> is word \<open>t - 2\<close>.\<close>

fun schedule :: "nat \<Rightarrow> w32 list \<Rightarrow> w32 list" where
  "schedule 0 w = rev w"
| "schedule (Suc n) w = schedule n ((small_sigma1 (w ! 1) + w ! 6 + small_sigma0 (w ! 14) + w ! 15) # w)"

fun sha_round :: "w32 list \<Rightarrow> w32 \<times> w32 \<Rightarrow> w32 list" where
  "sha_round [a, b, c, d, e, f, g, h] (k, w) =
     (let t1 = h + big_sigma1 e + ((e AND f) XOR ((NOT e) AND g)) + k + w;
          t2 = big_sigma0 a + ((a AND b) XOR (a AND c) XOR (b AND c))
      in [t1 + t2, a, b, c, d + t1, e, f, g])"
| "sha_round st _ = st"

definition sha_block :: "w32 list \<Rightarrow> w32 list \<Rightarrow> w32 list" where
  "sha_block st blk = map2 (+) st (foldl sha_round st (zip sha_k (schedule 48 (rev blk))))"

definition sha256 :: "bytes \<Rightarrow> w32 list" where
  "sha256 s =
     (let ws = words_of (sha_pad s) in foldl sha_block sha_init (chunks16 (length ws div 16) ws))"

subsection \<open>Hexadecimal\<close>

text \<open>The digest's bytes, two lower-case digits each.\<close>

definition hex_byte :: "nat \<Rightarrow> string" where
  "hex_byte n = [hex_digit (n div 16), hex_digit (n mod 16)]"

definition hash_token :: "bytes \<Rightarrow> string" where
  "hash_token token = concat (map hex_byte (concat (map (\<lambda>w. be_bytes 4 (unat w)) (sha256 token))))"

subsection \<open>Shape\<close>

lemma length_be_bytes [simp]: "length (be_bytes k n) = k"
  by (simp add: be_bytes_def)

lemma length_sha_pad: "64 dvd length (sha_pad s)"
proof -
  have "(n + (119 - n mod 64) mod 64 + 9) mod 64 = 0" for n :: nat
  proof -
    define q r where "q = n div 64" and "r = n mod 64"
    then have n: "n = 64 * q + r" "r < 64" by simp_all
    have "(r + (119 - r) mod 64 + 9) mod 64 = 0"
    proof (cases "r \<le> 55")
      case True
      then have "119 - r = 64 + (55 - r)" by simp
      then have "(119 - r) mod 64 = 55 - r" by (simp only: mod_add_self1) simp
      with True show ?thesis by simp
    next
      case False
      with n(2) have "(119 - r) mod 64 = 119 - r" by simp
      with n(2) show ?thesis by simp
    qed
    moreover have "n + (119 - n mod 64) mod 64 + 9 = 64 * q + (r + (119 - r) mod 64 + 9)"
      using n by simp
    ultimately show ?thesis by (simp only: mod_mult_self4)
  qed
  moreover have "length (sha_pad s) = length s + (119 - length s mod 64) mod 64 + 9"
    by (simp add: sha_pad_def pad_zeros_def)
  ultimately show ?thesis by (simp only: dvd_eq_mod_eq_0)
qed

lemma length_sha_round [simp]: "length (sha_round st kw) = length st"
  by (induction st kw rule: sha_round.induct) (simp_all add: Let_def)

lemma length_foldl_round [simp]: "length (foldl sha_round st ks) = length st"
  by (induction ks arbitrary: st) auto

lemma length_sha_block [simp]: "length (sha_block st blk) = length st"
  by (simp add: sha_block_def)

lemma length_sha256 [simp]: "length (sha256 s) = 8"
proof -
  have "length (foldl sha_block st bs) = length st" for st bs
    by (induction bs arbitrary: st) auto
  moreover have "length (primes_below 20) = 8" by code_simp
  ultimately show ?thesis by (simp add: sha256_def Let_def sha_init_def)
qed

lemma be_bytes_bound: "b \<in> set (be_bytes k n) \<Longrightarrow> b < 256"
  by (auto simp: be_bytes_def)

lemma length_concat_const: "(\<And>x. x \<in> set xs \<Longrightarrow> length (f x) = k) \<Longrightarrow> length (concat (map f xs)) = k * length xs"
  by (induction xs) auto

text \<open>What the column \<open>token_hash\<close> holds: 64 lower-case hexadecimal digits, whatever the token.\<close>

lemma hash_token_shape:
  "length (hash_token token) = 64"
  "c \<in> set (hash_token token) \<Longrightarrow> c \<in> hex_digit ` {..<16}"
proof -
  have "length (concat (map (\<lambda>w. be_bytes 4 (unat w)) (sha256 token))) = 4 * 8"
    using length_concat_const [of "sha256 token" "\<lambda>w. be_bytes 4 (unat w)" 4] by simp
  moreover have "length (hash_token token) = 2 * length (concat (map (\<lambda>w. be_bytes 4 (unat w)) (sha256 token)))"
    unfolding hash_token_def by (rule length_concat_const) (simp add: hex_byte_def)
  ultimately show "length (hash_token token) = 64" by simp
next
  assume "c \<in> set (hash_token token)"
  then obtain n w where "c \<in> set (hex_byte n)" "n \<in> set (be_bytes 4 (unat (w :: w32)))"
    by (auto simp: hash_token_def)
  moreover from this have "n < 256" by (blast dest: be_bytes_bound)
  ultimately show "c \<in> hex_digit ` {..<16}" by (auto simp: hex_byte_def)
qed

end
