(* ===== verification/Gateway_Stores.thy ===== *)
theory Gateway_Stores
  imports Gateway Sha256
begin

section \<open>The gateway's stores (\<open>stations.go\<close>, \<open>heartbeats.go\<close>, \<open>kafka.go\<close>)\<close>

text \<open>
  \<open>stationStore\<close>, \<open>heartbeatStore\<close> and \<open>kafkaPublisher\<close> over a state of the database's tables
  (\<open>db/migrations\<close>) and of the broker's log. Postgres and Kafka are outside the source: what becomes of each
  call to them is a script, on which nothing is assumed. The interfaces of \<open>Gateway\<close> are interpreted here.
\<close>

subsection \<open>The state\<close>

record station_token =
  tk_hash :: string
  tk_station :: bytes
  tk_revoked :: bool

record station =
  sn_id :: bytes
  sn_revoked :: bool

record heartbeat_row =
  hr_received :: gtime
  hr_heartbeat :: heartbeat

type_synonym heartbeat_key = "bytes \<times> gtime"

text \<open>
  What a dependency answers. \<open>DbFails\<close>: the statement did not run; \<open>DbLost\<close>: it ran, and its result was
  lost. A produce call fails with the records of a mask acknowledged. No error of theirs is \<open>ErrNoRows\<close>,
  which pgx keeps for an empty result.
\<close>

datatype dep_error = DepError string | DepDeadline | DepCanceled

fun dep_gerror :: "dep_error \<Rightarrow> gerror" where
  "dep_gerror (DepError m) = ErrNew m"
| "dep_gerror DepDeadline = ErrDeadlineExceeded"
| "dep_gerror DepCanceled = ErrCanceled"

datatype db_answer = DbRuns | DbFails dep_error | DbLost dep_error
datatype kafka_answer = KafkaAcks | KafkaFails dep_error "bool list"

record gworld =
  gw_tokens :: "station_token list"
  gw_stations :: "station list"
  gw_heartbeats :: "(heartbeat_key \<times> heartbeat_row) list"
  gw_log :: "krecord list"
  gw_db :: "db_answer list"
  gw_kafka :: "kafka_answer list"
  gw_clock :: "gtime list"
  gw_calls :: "int option list"

text \<open>\<open>gw_calls\<close> is the ghost of the deadlines the dependencies were called with.\<close>

definition note_call :: "gctx \<Rightarrow> gworld \<Rightarrow> gworld" where
  "note_call ctx s = s\<lparr>gw_calls := gw_calls s @ [cx_deadline ctx]\<rparr>"

definition db_next :: "gworld \<Rightarrow> db_answer \<times> gworld" where
  "db_next s = (case gw_db s of [] \<Rightarrow> (DbRuns, s) | a # as \<Rightarrow> (a, s\<lparr>gw_db := as\<rparr>))"

definition kafka_next :: "gworld \<Rightarrow> kafka_answer \<times> gworld" where
  "kafka_next s = (case gw_kafka s of [] \<Rightarrow> (KafkaAcks, s) | a # as \<Rightarrow> (a, s\<lparr>gw_kafka := as\<rparr>))"

text \<open>\<open>time.Now\<close>: a script of readings.\<close>

definition gw_now :: "gworld clock_fn" where
  "gw_now s = (case gw_clock s of [] \<Rightarrow> (zero_time, s) | t # ts \<Rightarrow> (t, s\<lparr>gw_clock := ts\<rparr>))"

subsection \<open>\<open>stationStore.Lookup\<close>\<close>

text \<open>
  \<open>SELECT s.id FROM station_tokens t JOIN stations s ON s.id = t.station_id WHERE t.token_hash = $1 AND
  t.revoked_at IS NULL AND s.revoked_at IS NULL\<close>.
\<close>

definition token_rows :: "gworld \<Rightarrow> string \<Rightarrow> bytes list" where
  "token_rows s h =
     concat (map (\<lambda>t. map sn_id (filter (\<lambda>n. sn_id n = tk_station t \<and> \<not> sn_revoked n) (gw_stations s)))
       (filter (\<lambda>t. tk_hash t = h \<and> \<not> tk_revoked t) (gw_tokens s)))"

text \<open>\<open>QueryRow(...).Scan\<close>: the first row, or \<open>ErrNoRows\<close>.\<close>

definition query_station :: "gctx \<Rightarrow> string \<Rightarrow> gworld \<Rightarrow> bytes result \<times> gworld" where
  "query_station ctx h s0 =
     (let (a, s) = db_next (note_call ctx s0)
      in case a of
           DbFails err \<Rightarrow> (Inl (dep_gerror err), s)
         | DbLost err \<Rightarrow> (Inl (dep_gerror err), s)
         | DbRuns \<Rightarrow> (case token_rows s h of [] \<Rightarrow> (Inl ErrNoRows, s) | st # _ \<Rightarrow> (Inr st, s)))"

definition station_lookup_fn :: "gworld lookup_fn" where
  "station_lookup_fn ctx token s =
     (case query_station ctx (hash_token token) s of
        (Inl err, s1) \<Rightarrow>
          if errors_is err ErrNoRows then (Inr None, s1) else (Inl (ErrWrap ''lookup station'' err), s1)
      | (Inr st, s1) \<Rightarrow> (Inr (Some st), s1))"

subsection \<open>\<open>heartbeatStore.Save\<close>\<close>

text \<open>
  \<open>INSERT ... ON CONFLICT (station_id, reported_at) DO NOTHING\<close>; \<open>station_id\<close> references \<open>stations\<close>, and
  \<open>timestamptz\<close> keeps microseconds.
\<close>

definition stored_heartbeat :: "gtime \<Rightarrow> heartbeat \<Rightarrow> heartbeat_row" where
  "stored_heartbeat received hb =
     \<lparr>hr_received = trunc_micro received,
      hr_heartbeat = hb\<lparr>hb_reported_at := trunc_micro (hb_reported_at hb),
        hb_oldest_buffered := map_option trunc_micro (hb_oldest_buffered hb),
        hb_last_publish := map_option trunc_micro (hb_last_publish hb),
        hb_last_event := map_option trunc_micro (hb_last_event hb)\<rparr>\<rparr>"

definition insert_heartbeat :: "bytes \<Rightarrow> gtime \<Rightarrow> heartbeat \<Rightarrow> gworld \<Rightarrow> gworld" where
  "insert_heartbeat station received hb s =
     (let k = (station, trunc_micro (hb_reported_at hb))
      in if map_of (gw_heartbeats s) k \<noteq> None then s
         else s\<lparr>gw_heartbeats := gw_heartbeats s @ [(k, stored_heartbeat received hb)]\<rparr>)"

definition known_station :: "gworld \<Rightarrow> bytes \<Rightarrow> bool" where
  "known_station s st \<longleftrightarrow> st \<in> sn_id ` set (gw_stations s)"

definition heartbeat_save :: "gworld save_fn" where
  "heartbeat_save ctx station received hb s0 =
     (let (a, s) = db_next (note_call ctx s0);
          wrap = (\<lambda>err. Some (ErrWrap ''insert heartbeat'' err))
      in case a of
           DbFails err \<Rightarrow> (wrap (dep_gerror err), s)
         | DbLost err \<Rightarrow>
             (wrap (dep_gerror err), if known_station s station then insert_heartbeat station received hb s else s)
         | DbRuns \<Rightarrow>
             if known_station s station then (None, insert_heartbeat station received hb s)
             else (wrap (ErrNew ''violates foreign key constraint''), s))"

subsection \<open>\<open>kafkaPublisher.Publish\<close>\<close>

text \<open>The records of a mask.\<close>

fun masked :: "bool list \<Rightarrow> 'a list \<Rightarrow> 'a list" where
  "masked (b # bs) (x # xs) = (if b then x # masked bs xs else masked bs xs)"
| "masked _ _ = []"

definition produce_sync :: "gctx \<Rightarrow> krecord list \<Rightarrow> gworld \<Rightarrow> gerror option \<times> gworld" where
  "produce_sync ctx recs s0 =
     (let (a, s) = kafka_next (note_call ctx s0)
      in case a of
           KafkaAcks \<Rightarrow> (None, s\<lparr>gw_log := gw_log s @ recs\<rparr>)
         | KafkaFails err acked \<Rightarrow> (Some (dep_gerror err), s\<lparr>gw_log := gw_log s @ masked acked recs\<rparr>))"

fun publish_records ::
  "string \<Rightarrow> bytes \<Rightarrow> gtime \<Rightarrow> gw_event list \<Rightarrow> krecord list \<Rightarrow> krecord list result" where
  "publish_records topic station received [] recs = Inr recs"
| "publish_records topic station received (e # es) recs =
     (case wire_record topic
             \<lparr>e_station = station, e_id = g_id e, e_ts = g_ts e, e_raw = g_raw e, e_received = received\<rparr> of
        Inl err \<Rightarrow> Inl err
      | Inr rec \<Rightarrow> publish_records topic station received es (recs @ [rec]))"

definition kafka_publish :: "string \<Rightarrow> gworld publish_fn" where
  "kafka_publish topic ctx station received events s =
     (case publish_records topic station received events [] of
        Inl err \<Rightarrow> (Some err, s)
      | Inr recs \<Rightarrow>
          (case produce_sync ctx recs s of
             (Some err, s1) \<Rightarrow> (Some (ErrWrap (''produce to '' @ topic) err), s1)
           | (None, s1) \<Rightarrow> (None, s1)))"

subsection \<open>Frames\<close>

lemma dep_not_no_rows [simp]: "\<not> errors_is (dep_gerror err) ErrNoRows"
  by (cases err) auto

lemma db_next_frame:
  "db_next s = (a, s') \<Longrightarrow> gw_tokens s' = gw_tokens s \<and> gw_stations s' = gw_stations s \<and>
     gw_heartbeats s' = gw_heartbeats s \<and> gw_log s' = gw_log s \<and> gw_calls s' = gw_calls s \<and> gw_clock s' = gw_clock s"
  by (auto simp: db_next_def split: list.splits)

lemma kafka_next_frame:
  "kafka_next s = (a, s') \<Longrightarrow> gw_tokens s' = gw_tokens s \<and> gw_stations s' = gw_stations s \<and>
     gw_heartbeats s' = gw_heartbeats s \<and> gw_log s' = gw_log s \<and> gw_calls s' = gw_calls s \<and> gw_clock s' = gw_clock s"
  by (auto simp: kafka_next_def split: list.splits)

lemma note_call_simps [simp]:
  "gw_tokens (note_call ctx s) = gw_tokens s" "gw_stations (note_call ctx s) = gw_stations s"
  "gw_heartbeats (note_call ctx s) = gw_heartbeats s" "gw_log (note_call ctx s) = gw_log s"
  "gw_calls (note_call ctx s) = gw_calls s @ [cx_deadline ctx]" "gw_clock (note_call ctx s) = gw_clock s"
  by (simp_all add: note_call_def)

lemma publish_records_Inr:
  "publish_records topic st t es recs = Inr rs \<longleftrightarrow>
     (\<exists>rs'. map_result (event_record topic st t) es = Inr rs' \<and> rs = recs @ rs')"
proof (induction topic st t es recs rule: publish_records.induct)
  case (2 topic st t e es recs)
  show ?case
  proof (cases "event_record topic st t e")
    case (Inr rec)
    have "(\<exists>rs'. map_result (event_record topic st t) (e # es) = Inr rs' \<and> rs = recs @ rs') \<longleftrightarrow>
        (\<exists>rs'. map_result (event_record topic st t) es = Inr rs' \<and> rs = (recs @ [rec]) @ rs')"
      using Inr by (auto simp: map_result_Cons_Inr simp del: map_result.simps(2))
    moreover have "publish_records topic st t (e # es) recs = publish_records topic st t es (recs @ [rec])"
      using Inr by (simp add: event_record_def)
    ultimately show ?thesis using 2 [OF Inr [unfolded event_record_def]] by (simp only:)
  qed (auto simp: event_record_def map_result_Cons_Inr)
qed auto

lemma set_masked: "set (masked bs xs) \<subseteq> set xs"
  by (induction bs xs rule: masked.induct) auto

subsection \<open>The interfaces, provided\<close>

text \<open>What a token authorizes: the station of an unrevoked token row of its hash, unless that is revoked.\<close>

definition gw_authorizes :: "gworld \<Rightarrow> bytes \<Rightarrow> bytes \<Rightarrow> bool" where
  "gw_authorizes s token st \<longleftrightarrow>
     (\<exists>t \<in> set (gw_tokens s). tk_hash t = hash_token token \<and> \<not> tk_revoked t \<and> tk_station t = st) \<and>
     (\<exists>n \<in> set (gw_stations s). sn_id n = st \<and> \<not> sn_revoked n)"

definition gw_saved :: "gworld \<Rightarrow> heartbeat_key \<Rightarrow> bool" where
  "gw_saved s k \<longleftrightarrow> map_of (gw_heartbeats s) k \<noteq> None"

lemma set_token_rows: "st \<in> set (token_rows s (hash_token token)) \<longleftrightarrow> gw_authorizes s token st"
  by (auto simp: token_rows_def gw_authorizes_def)

lemma query_station_cases:
  assumes "query_station ctx h s = (r, s')"
  obtains (failed) err where "r = Inl (dep_gerror err)"
  | (no_rows) "r = Inl ErrNoRows" "token_rows s h = []"
  | (found) st where "r = Inr st" "st \<in> set (token_rows s h)"
proof -
  obtain a s1 where a: "db_next (note_call ctx s) = (a, s1)" by (cases "db_next (note_call ctx s)")
  have t: "token_rows s1 h = token_rows s h" using db_next_frame [OF a] by (simp add: token_rows_def)
  show thesis
  proof (cases a)
    case DbRuns
    with assms a t no_rows found show thesis
      by (cases "token_rows s h") (auto simp: query_station_def)
  qed (use assms a failed in \<open>auto simp: query_station_def\<close>)
qed

lemma query_station_frame:
  assumes "query_station ctx h s = (r, s')"
  shows "gw_log s' = gw_log s" "gw_heartbeats s' = gw_heartbeats s" "gw_tokens s' = gw_tokens s"
    "gw_stations s' = gw_stations s" "gw_calls s' = gw_calls s @ [cx_deadline ctx]" "gw_clock s' = gw_clock s"
proof -
  obtain a s1 where a: "db_next (note_call ctx s) = (a, s1)" by (cases "db_next (note_call ctx s)")
  with assms have "s' = s1" by (auto simp: query_station_def split: db_answer.splits list.splits)
  with db_next_frame [OF a] show "gw_log s' = gw_log s" "gw_heartbeats s' = gw_heartbeats s" "gw_tokens s' = gw_tokens s"
    "gw_stations s' = gw_stations s" "gw_calls s' = gw_calls s @ [cx_deadline ctx]" "gw_clock s' = gw_clock s" by simp_all
qed

lemma station_lookup_frame:
  assumes "station_lookup_fn ctx token s = (r, s')"
  shows "gw_log s' = gw_log s" "gw_heartbeats s' = gw_heartbeats s" "gw_tokens s' = gw_tokens s"
    "gw_stations s' = gw_stations s" "gw_calls s' = gw_calls s @ [cx_deadline ctx]" "gw_clock s' = gw_clock s"
proof -
  obtain q s1 where q: "query_station ctx (hash_token token) s = (q, s1)"
    by (cases "query_station ctx (hash_token token) s")
  with assms have "s' = s1" by (auto simp: station_lookup_fn_def split: sum.splits if_splits)
  with query_station_frame [OF q] show "gw_log s' = gw_log s" "gw_heartbeats s' = gw_heartbeats s"
    "gw_tokens s' = gw_tokens s" "gw_stations s' = gw_stations s" "gw_calls s' = gw_calls s @ [cx_deadline ctx]"
    "gw_clock s' = gw_clock s" by simp_all
qed

lemma station_lookup_answer:
  assumes "station_lookup_fn ctx token s = (r, s')"
  obtains (failed) err where "r = Inl err" | (unknown) "r = Inr None" "token_rows s (hash_token token) = []"
  | (found) st where "r = Inr (Some st)" "gw_authorizes s token st"
proof -
  obtain q s1 where q: "query_station ctx (hash_token token) s = (q, s1)"
    by (cases "query_station ctx (hash_token token) s")
  then show thesis
    by (cases rule: query_station_cases)
      (use assms q failed unknown found in \<open>auto simp: station_lookup_fn_def set_token_rows\<close>)
qed

interpretation stations: station_lookup station_lookup_fn gw_authorizes gw_log gw_saved
proof
  fix ctx token s st s'
  assume l: "station_lookup_fn ctx token s = (Inr (Some st), s')"
  then show "gw_authorizes s token st" by (cases rule: station_lookup_answer) auto
next
  fix ctx token s s' st
  assume l: "station_lookup_fn ctx token s = (Inr None, s')"
  then have "token_rows s (hash_token token) = []" by (cases rule: station_lookup_answer) auto
  then show "\<not> gw_authorizes s token st" using set_token_rows [of st s token] by simp
next
  fix ctx token s r s'
  assume "station_lookup_fn ctx token s = (r, s')"
  from station_lookup_frame [OF this] show "gw_log s' = gw_log s \<and> gw_saved s' = gw_saved s"
    by (simp add: gw_saved_def fun_eq_iff)
qed

lemma produce_sync_effect:
  assumes "produce_sync ctx recs s = (r, s')"
  obtains acked where "gw_log s' = gw_log s @ acked" "set acked \<subseteq> set recs" "r = None \<Longrightarrow> acked = recs"
    "gw_heartbeats s' = gw_heartbeats s" "gw_tokens s' = gw_tokens s" "gw_stations s' = gw_stations s"
    "gw_calls s' = gw_calls s @ [cx_deadline ctx]" "gw_clock s' = gw_clock s"
proof -
  obtain a s1 where a: "kafka_next (note_call ctx s) = (a, s1)" by (cases "kafka_next (note_call ctx s)")
  note fr = kafka_next_frame [OF a]
  show thesis
  proof (cases a)
    case KafkaAcks
    with assms a fr that [of recs] show thesis by (auto simp: produce_sync_def)
  next
    case (KafkaFails err bs)
    with assms a fr that [of "masked bs recs"] set_masked [of bs recs] show thesis by (auto simp: produce_sync_def)
  qed
qed

text \<open>A publish either frames every event and produces, or calls nothing.\<close>

lemma kafka_publish_cases:
  assumes "kafka_publish topic ctx st t es s = (r, s')"
  obtains (unframed) err where "r = Some err" "s' = s"
      "\<And>recs. map_result (event_record topic st t) es \<noteq> Inr recs"
  | (produced) recs q where "map_result (event_record topic st t) es = Inr recs"
      "produce_sync ctx recs s = (q, s')" "r = None \<longleftrightarrow> q = None"
proof (cases "publish_records topic st t es []")
  case (Inl err)
  then have "map_result (event_record topic st t) es \<noteq> Inr recs" for recs
    using publish_records_Inr [of topic st t es "[]" recs] by auto
  with Inl assms show thesis by (intro unframed [of err]) (auto simp: kafka_publish_def)
next
  case (Inr recs)
  then have m: "map_result (event_record topic st t) es = Inr recs" by (simp add: publish_records_Inr)
  obtain q s1 where q: "produce_sync ctx recs s = (q, s1)" by (cases "produce_sync ctx recs s")
  with assms Inr have "s' = s1" "r = None \<longleftrightarrow> q = None" by (auto simp: kafka_publish_def split: option.splits)
  with produced m q show thesis by simp
qed

interpretation publisher: event_publisher "kafka_publish topic" topic gw_log gw_saved for topic
proof
  fix ctx st t es s s'
  assume "kafka_publish topic ctx st t es s = (None, s')"
  then show "\<exists>recs. map_result (event_record topic st t) es = Inr recs \<and> gw_log s' = gw_log s @ recs"
    by (cases rule: kafka_publish_cases) (auto elim: produce_sync_effect)
next
  fix ctx st t es s r s'
  assume "kafka_publish topic ctx st t es s = (r, s')"
  then show "\<exists>recs. gw_log s' = gw_log s @ recs \<and> (\<forall>rec \<in> set recs. kr_key rec = st \<and> kr_topic rec = topic)"
    by (cases rule: kafka_publish_cases) (auto elim!: produce_sync_effect dest: event_records_keyed)
next
  fix ctx st t es s r s'
  assume "kafka_publish topic ctx st t es s = (r, s')"
  then show "gw_saved s' = gw_saved s"
    by (cases rule: kafka_publish_cases) (auto elim!: produce_sync_effect simp: gw_saved_def fun_eq_iff)
qed

lemma insert_heartbeat_saved:
  "gw_saved (insert_heartbeat st t hb s) k \<longleftrightarrow> gw_saved s k \<or> k = (st, trunc_micro (hb_reported_at hb))"
  by (auto simp: gw_saved_def insert_heartbeat_def Let_def map_add_def split: option.splits)

lemma insert_heartbeat_frame [simp]:
  "gw_log (insert_heartbeat st t hb s) = gw_log s" "gw_tokens (insert_heartbeat st t hb s) = gw_tokens s"
  "gw_stations (insert_heartbeat st t hb s) = gw_stations s" "gw_calls (insert_heartbeat st t hb s) = gw_calls s"
  by (simp_all add: insert_heartbeat_def Let_def)

lemma heartbeat_save_effect:
  assumes "heartbeat_save ctx st t hb s = (r, s')"
  obtains s1 where "gw_heartbeats s1 = gw_heartbeats s" "gw_log s1 = gw_log s" "gw_tokens s1 = gw_tokens s"
    "gw_stations s1 = gw_stations s" "gw_calls s1 = gw_calls s @ [cx_deadline ctx]" "gw_clock s1 = gw_clock s"
    "s' = s1 \<or> known_station s st \<and> s' = insert_heartbeat st t hb s1"
    "r = None \<Longrightarrow> known_station s st \<and> s' = insert_heartbeat st t hb s1"
proof -
  obtain a s1 where a: "db_next (note_call ctx s) = (a, s1)" by (cases "db_next (note_call ctx s)")
  note fr = db_next_frame [OF a]
  then have k: "known_station s1 st = known_station s st" by (simp add: known_station_def)
  have e: "(s' = s1 \<or> known_station s st \<and> s' = insert_heartbeat st t hb s1) \<and>
      (r = None \<longrightarrow> known_station s st \<and> s' = insert_heartbeat st t hb s1)"
  proof (cases a)
    case DbRuns
    with assms a k show ?thesis by (cases "known_station s st") (auto simp: heartbeat_save_def)
  next
    case (DbFails err)
    with assms a show ?thesis by (auto simp: heartbeat_save_def)
  next
    case (DbLost err)
    with assms a k show ?thesis by (cases "known_station s st") (auto simp: heartbeat_save_def)
  qed
  with fr that [of s1] show thesis by simp
qed

interpretation saver: heartbeat_saver heartbeat_save gw_log gw_saved
proof
  fix ctx st t hb s s'
  assume "heartbeat_save ctx st t hb s = (None, s')"
  then show "gw_saved s' (st, trunc_micro (hb_reported_at hb))"
    by (rule heartbeat_save_effect) (simp add: insert_heartbeat_saved)
next
  fix ctx st t hb s r s' k
  assume save: "heartbeat_save ctx st t hb s = (r, s')" and k: "gw_saved s' k" "\<not> gw_saved s k"
  from save obtain s1 where s1: "gw_heartbeats s1 = gw_heartbeats s" "s' = s1 \<or> s' = insert_heartbeat st t hb s1"
    by (rule heartbeat_save_effect) blast
  from s1(1) have "gw_saved s1 = gw_saved s" by (simp add: gw_saved_def fun_eq_iff)
  with s1(2) k show "fst k = st" by (auto simp: insert_heartbeat_saved)
next
  fix ctx st t hb s r s'
  assume "heartbeat_save ctx st t hb s = (r, s')"
  then show "gw_log s' = gw_log s" by (auto elim!: heartbeat_save_effect)
qed

lemma gw_now_frame:
  assumes "gw_now s = (t, s')"
  shows "gw_log s' = gw_log s" "gw_heartbeats s' = gw_heartbeats s" "gw_tokens s' = gw_tokens s"
    "gw_stations s' = gw_stations s" "gw_calls s' = gw_calls s"
  using assms by (auto simp: gw_now_def split: list.splits)

definition gw_good :: "gworld \<Rightarrow> bool" where
  "gw_good s \<longleftrightarrow> list_all json_time (gw_clock s) \<and>
     list_all (\<lambda>n. valid_utf8 (sn_id n) \<and> sn_id n \<noteq> []) (gw_stations s)"

interpretation api: gateway station_lookup_fn gw_authorizes gw_log gw_saved "kafka_publish topic" topic
  heartbeat_save gw_now gw_good for topic
proof
  fix s t s'
  assume n: "gw_now s = (t, s')"
  from gw_now_frame [OF n] show "gw_log s' = gw_log s \<and> gw_saved s' = gw_saved s" "gw_authorizes s' = gw_authorizes s"
    by (simp_all add: gw_saved_def gw_authorizes_def fun_eq_iff)
  show "gw_good s \<Longrightarrow> json_time t \<and> gw_good s'" using n by (auto simp: gw_now_def gw_good_def split: list.splits)
next
  fix ctx token s r s'
  assume "station_lookup_fn ctx token s = (r, s')" "gw_good s"
  then show "gw_good s'" using station_lookup_frame [of ctx token s r s'] by (simp add: gw_good_def)
next
  fix s token st
  assume "gw_authorizes s token st" "gw_good s"
  then show "valid_utf8 st \<and> st \<noteq> []" by (auto simp: gw_authorizes_def gw_good_def list_all_iff)
qed

end
