(* ===== verification/Gateway_Sample.thy ===== *)
theory Gateway_Sample
  imports Gateway_Stores
begin

section \<open>A gateway to evaluate the properties on\<close>

text \<open>
  One station with one token, a clock, and four request bodies: an event, an event without a time, an event
  in a zone of 24 hours, and a heartbeat. What each decodes to is computed here once.
\<close>

definition sample_gw :: gworld where
  "sample_gw =
     \<lparr>gw_tokens = [\<lparr>tk_hash = hash_token ''key'', tk_station = ''st'', tk_revoked = False\<rparr>],
      gw_stations = [\<lparr>sn_id = ''st'', sn_revoked = False\<rparr>], gw_heartbeats = [], gw_log = [],
      gw_db = [], gw_kafka = [], gw_clock = [sample_time, sample_time, sample_time], gw_calls = []\<rparr>"

definition sample_request :: "string \<Rightarrow> json \<Rightarrow> request" where
  "sample_request path j =
     \<lparr>rq_method = ''POST'', rq_path = path, rq_authorization = ''Bearer key'', rq_body = print_json j\<rparr>"

definition sample_ts :: string where
  "sample_ts = ''2026-09-14T15:00:17.521Z''"

definition sample_events_json :: json where
  "sample_events_json =
     JObj [(''events'', JArr [JObj [(''id'', JNum ''7''), (''ts'', JStr sample_ts), (''raw'', JStr ''msg'')]])]"

definition sample_no_ts_json :: json where
  "sample_no_ts_json = JObj [(''events'', JArr [JObj [(''id'', JNum ''7''), (''raw'', JStr ''msg'')]])]"

definition sample_zone_ts :: string where
  "sample_zone_ts = ''2026-09-14T15:00:17+24:00''"

definition sample_zone_time :: gtime where
  "sample_zone_time = \<lparr>t_sec = 63924908417, t_nsec = 0, t_off = 86400\<rparr>"

definition sample_zone_json :: json where
  "sample_zone_json =
     JObj [(''events'', JArr [JObj [(''id'', JNum ''7''), (''ts'', JStr sample_zone_ts), (''raw'', JStr ''msg'')]])]"

definition sample_heartbeat_json :: json where
  "sample_heartbeat_json = JObj [(''reported_at'', JStr sample_ts), (''uptime_seconds'', JNum ''7'')]"

lemma marshal_sample: "marshal_time sample_time = Inr sample_ts"
proof -
  have d: "local_date sample_time = (2026, 9, 14)"
    by (simp add: local_date_def local_days_def sample_time_def)
  have s: "local_secs sample_time = 54017" by (simp add: local_secs_def sample_time_def)
  have f: "fmt_fraction 521000000 = ''.521''"
    by (simp add: fmt_fraction_def pad_dec_numeral digit_chars strip_zeros_def)
  show ?thesis
    by (simp add: marshal_time_def d s Let_def pad_dec_numeral digit_chars sample_ts_def)
      (simp add: sample_time_def f fmt_zone_def)
qed

lemma parse_sample_ts [simp]: "parse_time sample_ts = Some sample_time"
  by (rule parse_time_marshal [OF sample_time_ok(1) marshal_sample])

text \<open>RFC 3339 as written refuses the zone of 24 hours; the layout takes it.\<close>

lemma sample_zone_text: "sample_zone_ts = pad_dec 4 2026 @ CHR ''-'' # pad_dec 2 9 @ CHR ''-'' # pad_dec 2 14 @
    CHR ''T'' # pad_dec 2 15 @ CHR '':'' # pad_dec 2 0 @ CHR '':'' # pad_dec 2 17 @
    CHR ''+'' # pad_dec 2 24 @ CHR '':'' # pad_dec 2 0"
  by (simp add: sample_zone_ts_def pad_dec_numeral digit_chars pad_dec.simps)

lemma parse_sample_zone_ts [simp]: "parse_time sample_zone_ts = Some sample_zone_time"
proof -
  have u: "parse_uint 2 0 n (pad_dec 2 0) = Some (0, [])" for n
    using parse_uint_pad [of 0 2 0 n "[]"] by simp
  have d: "days_of_civil 2026 9 14 = 739872" "days_in 9 2026 = 30"
    by (simp_all add: days_of_civil_def days_before_year_def month_lens_def is_leap_def days_in_def)
  have h: "parse_uint 2 0 23 (pad_dec 2 24 @ r) = None" for r
    by (simp add: parse_uint_def dec_val_pad_dec)
  have z: "parse_zone 23 59 (CHR ''+'' # pad_dec 2 24 @ CHR '':'' # pad_dec 2 0) = None"
      "parse_zone 24 60 (CHR ''+'' # pad_dec 2 24 @ CHR '':'' # pad_dec 2 0) = Some 86400"
    by (simp_all add: parse_zone_def parse_uint_pad u h)
  have f: "parse_fraction seps (CHR ''+'' # r) = (0, CHR ''+'' # r)" if "CHR ''+'' \<notin> set seps" for seps r
    using that by (simp add: parse_fraction_def)
  have "parse_rfc3339 sample_zone_ts = None"
    by (simp add: parse_rfc3339_def parse_clock_def sample_zone_text parse_uint_pad d f z)
  moreover have "parse_layout sample_zone_ts = Some sample_zone_time"
    by (simp add: parse_layout_def parse_clock_def parse_hour_def sample_zone_text parse_uint_pad d f z sample_zone_time_def)
  ultimately show ?thesis by (simp add: parse_time_def)
qed

lemma wf_sample_zone_ts [simp]: "wf_raw sample_zone_ts"
  by (rule wf_raw_plain) (auto simp: sample_zone_ts_def plain_byte_def)

lemma wf_sample_ts [simp]: "wf_raw sample_ts"
  by (rule wf_raw_marshal_time [OF marshal_sample])

lemma sample_names [simp]:
  "lower_name ''id''" "lower_name ''ts''" "lower_name ''raw''" "lower_name ''events''" "lower_name ''msg''"
  "lower_name ''reported_at''" "lower_name ''uptime_seconds''"
  by (simp_all add: lower_name_def lower_char_def)

lemma sample_num [simp]: "wf_num ''7''" "parse_int int64_lim ''7'' = Some 7"
  using wf_num_itoa [of 7] parse_int_itoa [of int64_lim 7]
  by (simp_all add: itoa_def int64_lim_def dec_nat.simps [of 7] digit_chars)

lemma gw_field_for_simps [simp]:
  "field_for gw_event_fields ''id'' = Some (\<lambda>e j. map_option (\<lambda>v. e\<lparr>g_id := v\<rparr>) (dec_int int64_lim (g_id e) j))"
  "field_for gw_event_fields ''ts'' = Some (\<lambda>e j. map_option (\<lambda>v. e\<lparr>g_ts := v\<rparr>) (dec_time (g_ts e) j))"
  "field_for gw_event_fields ''raw'' = Some (\<lambda>e j. map_option (\<lambda>v. e\<lparr>g_raw := v\<rparr>) (dec_string (g_raw e) j))"
  "field_for events_fields ''events'' = Some (\<lambda>r j. map_option (\<lambda>v. r\<lparr>er_events := v\<rparr>)
     (dec_slice (decode_struct gw_event_fields) zero_gw_event (er_events r) j))"
  by ((subst field_for_lower; simp add: gw_event_fields_def events_fields_def)+)

lemma sample_reads:
  "decoder_read (2 ^ 20) (print_json sample_events_json) = Inr sample_events_json"
  "decoder_read (2 ^ 20) (print_json sample_no_ts_json) = Inr sample_no_ts_json"
  "decoder_read (4 * 2 ^ 10) (print_json sample_heartbeat_json) = Inr sample_heartbeat_json"
  "decoder_read (2 ^ 20) (print_json sample_zone_json) = Inr sample_zone_json"
  by (rule decoder_read_print;
      simp add: sample_events_json_def sample_no_ts_json_def sample_heartbeat_json_def sample_zone_json_def wf_raw_lower max_nesting_def;
      simp add: sample_ts_def sample_zone_ts_def)+

lemma heartbeat_field_for_simps [simp]:
  "field_for heartbeat_fields ''reported_at'' =
     Some (\<lambda>h j. map_option (\<lambda>v. h\<lparr>hb_reported_at := v\<rparr>) (dec_time (hb_reported_at h) j))"
  "field_for heartbeat_fields ''uptime_seconds'' =
     Some (\<lambda>h j. map_option (\<lambda>v. h\<lparr>hb_uptime := v\<rparr>) (dec_int int64_lim (hb_uptime h) j))"
  by ((subst field_for_lower; simp add: heartbeat_fields_def lower_name_def lower_char_def)+)

lemma quoted_msg [simp]: "unquote ''msg'' = ''msg''"
  by (simp add: unquote_lower)

lemma sample_decodes:
  "decodes_events (print_json sample_events_json) [\<lparr>g_id = 7, g_ts = sample_time, g_raw = ''msg''\<rparr>]"
  "decodes_events (print_json sample_no_ts_json) [\<lparr>g_id = 7, g_ts = zero_time, g_raw = ''msg''\<rparr>]"
  "decodes_heartbeat (print_json sample_heartbeat_json) (zero_heartbeat\<lparr>hb_reported_at := sample_time, hb_uptime := 7\<rparr>)"
  "decodes_events (print_json sample_zone_json) [\<lparr>g_id = 7, g_ts = sample_zone_time, g_raw = ''msg''\<rparr>]"
proof -
  have e: "decode_struct events_fields empty_events sample_events_json =
      Some \<lparr>er_events = Some [\<lparr>g_id = 7, g_ts = sample_time, g_raw = ''msg''\<rparr>]\<rparr>"
    by (simp add: sample_events_json_def empty_events_def dec_slice_def zero_gw_event_def unquote_lower)
  show "decodes_events (print_json sample_events_json) [\<lparr>g_id = 7, g_ts = sample_time, g_raw = ''msg''\<rparr>]"
    unfolding decodes_events_def sample_reads by (simp add: e events_of_def)
  have n: "decode_struct events_fields empty_events sample_no_ts_json =
      Some \<lparr>er_events = Some [\<lparr>g_id = 7, g_ts = zero_time, g_raw = ''msg''\<rparr>]\<rparr>"
    by (simp add: sample_no_ts_json_def empty_events_def dec_slice_def zero_gw_event_def unquote_lower)
  show "decodes_events (print_json sample_no_ts_json) [\<lparr>g_id = 7, g_ts = zero_time, g_raw = ''msg''\<rparr>]"
    unfolding decodes_events_def sample_reads by (simp add: n events_of_def)
  have h: "decode_struct heartbeat_fields zero_heartbeat sample_heartbeat_json =
      Some (zero_heartbeat\<lparr>hb_reported_at := sample_time, hb_uptime := 7\<rparr>)"
    by (simp add: sample_heartbeat_json_def zero_heartbeat_def unquote_lower)
  show "decodes_heartbeat (print_json sample_heartbeat_json) (zero_heartbeat\<lparr>hb_reported_at := sample_time, hb_uptime := 7\<rparr>)"
    unfolding decodes_heartbeat_def sample_reads
    by (simp add: h) (simp add: heartbeat_valid_def problem_if_def zero_heartbeat_def)
  have z: "decode_struct events_fields empty_events sample_zone_json =
      Some \<lparr>er_events = Some [\<lparr>g_id = 7, g_ts = sample_zone_time, g_raw = ''msg''\<rparr>]\<rparr>"
    by (simp add: sample_zone_json_def empty_events_def dec_slice_def zero_gw_event_def unquote_lower)
  show "decodes_events (print_json sample_zone_json) [\<lparr>g_id = 7, g_ts = sample_zone_time, g_raw = ''msg''\<rparr>]"
    unfolding decodes_events_def sample_reads by (simp add: z events_of_def)
qed

lemma sample_gw_good: "gw_good sample_gw"
  by (simp add: gw_good_def sample_gw_def valid_utf8_ascii)

lemma sample_authorizes: "gw_authorizes sample_gw token st \<longleftrightarrow> hash_token token = hash_token ''key'' \<and> st = ''st''"
  by (auto simp: gw_authorizes_def sample_gw_def)

end
