(* ===== verification/Gateway_Facts.thy ===== *)
theory Gateway_Facts
  imports Gateway_Sample Archive_Rows
begin

section \<open>The gateway's promises\<close>

text \<open>
  The API over its stores: what an answer means for the broker's log and the heartbeats table, who may cause
  it, how long the dependencies are waited for, and what a sequence of requests leaves.
\<close>

definition gw_serve :: "string \<Rightarrow> request \<Rightarrow> gworld \<Rightarrow> response \<times> gworld" where
  "gw_serve topic rq s =
     new_server station_lookup_fn heartbeat_save (kafka_publish topic) gw_now background rq empty_response s"

subsection \<open>Frames\<close>

text \<open>The heartbeats table: keys once each, stations known.\<close>

definition heartbeats_ok :: "gworld \<Rightarrow> bool" where
  "heartbeats_ok s \<longleftrightarrow> distinct (map fst (gw_heartbeats s)) \<and>
     list_all (\<lambda>k. known_station s (fst k)) (map fst (gw_heartbeats s))"

text \<open>\<open>n\<close> calls with the context's deadline, and nothing of the rest touched but the clock.\<close>

definition gw_frame :: "gctx \<Rightarrow> nat \<Rightarrow> gworld \<Rightarrow> gworld \<Rightarrow> bool" where
  "gw_frame ctx n s s' \<longleftrightarrow> gw_tokens s' = gw_tokens s \<and> gw_stations s' = gw_stations s \<and>
     (\<exists>k. gw_clock s' = drop k (gw_clock s)) \<and> gw_calls s' = gw_calls s @ replicate n (cx_deadline ctx) \<and>
     (heartbeats_ok s \<longrightarrow> heartbeats_ok s')"

lemma gw_frame_refl [simp]: "gw_frame ctx 0 s s"
  by (auto simp: gw_frame_def intro: exI [of _ 0])

lemma gw_frame_trans:
  assumes "gw_frame ctx n s s1" "gw_frame ctx' m s1 s2" "cx_deadline ctx' = cx_deadline ctx"
  shows "gw_frame ctx (n + m) s s2"
  using assms by (auto simp: gw_frame_def replicate_add drop_drop)

lemma heartbeats_ok_cong:
  "gw_heartbeats s' = gw_heartbeats s \<Longrightarrow> gw_stations s' = gw_stations s \<Longrightarrow> heartbeats_ok s' = heartbeats_ok s"
  by (simp add: heartbeats_ok_def known_station_def)

lemma gw_now_gw_frame: "gw_now s = (t, s') \<Longrightarrow> gw_frame ctx 0 s s'"
  by (auto simp: gw_now_def gw_frame_def heartbeats_ok_def known_station_def split: list.splits
      intro: exI [of _ 0] exI [of _ 1])

lemma lookup_gw_frame:
  assumes "station_lookup_fn ctx token s = (r, s')"
  shows "gw_frame ctx 1 s s'"
  using station_lookup_frame [OF assms] heartbeats_ok_cong [of s' s] by (auto simp: gw_frame_def intro: exI [of _ 0])

lemma publish_gw_frame:
  assumes "kafka_publish topic ctx st t es s = (r, s')"
  shows "\<exists>n \<le> 1. gw_frame ctx n s s'"
  using assms
proof (cases rule: kafka_publish_cases)
  case (unframed err)
  then show ?thesis by (auto intro: exI [of _ 0])
next
  case (produced recs q)
  from produced(2) have "gw_frame ctx 1 s s'"
    by (rule produce_sync_effect) (auto simp: gw_frame_def heartbeats_ok_cong [of s' s] intro: exI [of _ 0])
  then show ?thesis by blast
qed

lemma insert_heartbeat_ok:
  assumes "heartbeats_ok s" "known_station s st"
  shows "heartbeats_ok (insert_heartbeat st t hb s)"
  using assms
  by (auto simp: heartbeats_ok_def insert_heartbeat_def Let_def known_station_def map_of_eq_None_iff list_all_iff)

lemma save_gw_frame:
  assumes "heartbeat_save ctx st t hb s = (r, s')"
  shows "gw_frame ctx 1 s s'"
proof -
  from assms obtain s1 where s1: "gw_heartbeats s1 = gw_heartbeats s" "gw_tokens s1 = gw_tokens s"
      "gw_stations s1 = gw_stations s" "gw_calls s1 = gw_calls s @ [cx_deadline ctx]" "gw_clock s1 = gw_clock s"
      and s': "s' = s1 \<or> known_station s st \<and> s' = insert_heartbeat st t hb s1"
    by (rule heartbeat_save_effect) blast
  have k: "known_station s1 st = known_station s st" "heartbeats_ok s1 = heartbeats_ok s"
    using heartbeats_ok_cong [OF s1(1,3)] s1(3) by (simp_all add: known_station_def)
  with s' insert_heartbeat_ok [of s1 st t hb] have "heartbeats_ok s \<longrightarrow> heartbeats_ok s'" by auto
  with s1 s' show ?thesis by (auto simp: gw_frame_def insert_heartbeat_def Let_def intro: exI [of _ 0])
qed

lemma decode_valid_frame:
  "decode_valid limit fds zero valid body w = (v, w') \<Longrightarrow> v = None \<or> w' = w"
  by (auto elim!: decode_valid_cases)

lemma events_gw_frame:
  assumes "handle_events_post (kafka_publish topic) gw_now ctx rq w s = (w', s')"
  shows "\<exists>n \<le> 1. gw_frame ctx n s s'"
proof -
  obtain v w1 where d: "decode_valid (2 ^ 20) events_fields empty_events events_valid (rq_body rq) w = (v, w1)"
    by (cases "decode_valid (2 ^ 20) events_fields empty_events events_valid (rq_body rq) w")
  show ?thesis
  proof (cases v)
    case None
    with assms d show ?thesis by (auto simp: handle_events_post_def intro: exI [of _ 0])
  next
    case (Some req)
    obtain t s1 where n: "gw_now s = (t, s1)" by (cases "gw_now s")
    obtain r s2 where p: "kafka_publish topic ctx (station_from ctx) t (events_of req) s1 = (r, s2)"
      by (cases "kafka_publish topic ctx (station_from ctx) t (events_of req) s1")
    with assms d Some n have "s' = s2"
      by (auto simp: handle_events_post_def Let_def split: option.splits list.splits)
    with publish_gw_frame [OF p] gw_frame_trans [OF gw_now_gw_frame [OF n, of ctx] _ refl] show ?thesis by force
  qed
qed

lemma heartbeat_gw_frame:
  assumes "handle_heartbeat_post heartbeat_save gw_now ctx rq w s = (w', s')"
  shows "\<exists>n \<le> 1. gw_frame ctx n s s'"
proof -
  obtain v w1 where d: "decode_valid (4 * 2 ^ 10) heartbeat_fields zero_heartbeat heartbeat_valid (rq_body rq) w = (v, w1)"
    by (cases "decode_valid (4 * 2 ^ 10) heartbeat_fields zero_heartbeat heartbeat_valid (rq_body rq) w")
  show ?thesis
  proof (cases v)
    case None
    with assms d show ?thesis by (auto simp: handle_heartbeat_post_def intro: exI [of _ 0])
  next
    case (Some hb)
    obtain t s1 where n: "gw_now s = (t, s1)" by (cases "gw_now s")
    obtain r s2 where p: "heartbeat_save ctx (station_from ctx) t hb s1 = (r, s2)"
      by (cases "heartbeat_save ctx (station_from ctx) t hb s1")
    obtain t2 s3 where n2: "gw_now s2 = (t2, s3)" by (cases "gw_now s2")
    have 12: "gw_frame ctx (0 + 1) s s2" by (rule gw_frame_trans [OF gw_now_gw_frame [OF n] save_gw_frame [OF p] refl])
    have "gw_frame ctx (0 + 1 + 0) s s3" by (rule gw_frame_trans [OF 12 gw_now_gw_frame [OF n2] refl])
    moreover from assms d Some n p n2 have "s' = s2 \<or> s' = s3"
      by (auto simp: handle_heartbeat_post_def Let_def split: option.splits)
    ultimately show ?thesis using 12 by auto
  qed
qed

lemma bearer_gw_frame:
  assumes "bearer_auth station_lookup_fn next ctx rq w s = (w', s')"
    and "\<And>st s1. next (ctx\<lparr>cx_station := Some st\<rparr>) rq w s1 = (w', s') \<Longrightarrow> \<exists>n \<le> 1. gw_frame (ctx\<lparr>cx_station := Some st\<rparr>) n s1 s'"
  shows "\<exists>n \<le> 2. gw_frame ctx n s s'"
proof (cases "cut_prefix (rq_authorization rq) ''Bearer ''")
  case None
  with assms(1) show ?thesis by (auto simp: bearer_auth_def intro: exI [of _ 0])
next
  case (Some token)
  obtain r s1 where l: "station_lookup_fn ctx token s = (r, s1)" by (cases "station_lookup_fn ctx token s")
  note f1 = lookup_gw_frame [OF l]
  from assms(1) Some l have "s' = s1 \<or> (\<exists>st. next (ctx\<lparr>cx_station := Some st\<rparr>) rq w s1 = (w', s'))"
    by (auto simp: bearer_auth_def split: sum.splits option.splits)
  then show ?thesis
  proof
    assume "s' = s1"
    with f1 show ?thesis by (auto intro: exI [of _ 1])
  next
    assume "\<exists>st. next (ctx\<lparr>cx_station := Some st\<rparr>) rq w s1 = (w', s')"
    then obtain st n where "n \<le> 1" "gw_frame (ctx\<lparr>cx_station := Some st\<rparr>) n s1 s'" using assms(2) by blast
    with gw_frame_trans [OF f1 this(2)] show ?thesis by (intro exI [of _ "1 + n"]) simp
  qed
qed

lemma gw_serve_frame:
  assumes "gw_serve topic rq s = (w', s')"
  shows "\<exists>n \<le> 2. gw_frame (with_deadline (nanos (fst (gw_now s)) + 5 * gw_second) background) n s s'"
proof -
  obtain t s1 where n: "gw_now s = (t, s1)" by (cases "gw_now s")
  let ?ctx = "with_deadline (nanos t + 5 * gw_second) background"
  have step: "\<exists>n \<le> 2. gw_frame ?ctx n s s'"
    if p: "with_timeout gw_now (5 * gw_second) (bearer_auth station_lookup_fn h) background rq empty_response s = (w', s')"
      and q: "\<And>ctx s1. h ctx rq empty_response s1 = (w', s') \<Longrightarrow> \<exists>n \<le> 1. gw_frame ctx n s1 s'" for h
  proof -
    from p n have "bearer_auth station_lookup_fn h ?ctx rq empty_response s1 = (w', s')"
      by (simp add: with_timeout_def)
    then obtain m where m: "m \<le> 2" "gw_frame ?ctx m s1 s'" using bearer_gw_frame q by meson
    from gw_frame_trans [OF gw_now_gw_frame [OF n] m(2) refl] m(1) show ?thesis by auto
  qed
  from assms have "\<exists>n \<le> 2. gw_frame ?ctx n s s'" unfolding gw_serve_def
  proof (cases rule: serve_mux_cases)
    case events
    from events(3) show ?thesis by (rule step) (rule events_gw_frame)
  next
    case heartbeat
    from heartbeat(3) show ?thesis by (rule step) (rule heartbeat_gw_frame)
  qed (auto intro: exI [of _ 0])
  with n show ?thesis by simp
qed

lemma gw_good_frame: "gw_frame ctx n s s' \<Longrightarrow> gw_good s \<Longrightarrow> gw_good s'"
  unfolding gw_frame_def gw_good_def list_all_iff by (metis in_set_dropD)

subsection \<open>What an accepted heartbeat leaves\<close>

lemma insert_heartbeat_row:
  "map_of (gw_heartbeats (insert_heartbeat st t hb s)) = (map_of (gw_heartbeats s))((st, trunc_micro (hb_reported_at hb)) \<mapsto>
     (case map_of (gw_heartbeats s) (st, trunc_micro (hb_reported_at hb)) of
        Some row \<Rightarrow> row | None \<Rightarrow> stored_heartbeat t hb))"
  by (rule ext) (auto simp: insert_heartbeat_def Let_def map_add_def split: option.splits)

lemma bearer_200:
  assumes "bearer_auth station_lookup_fn h ctx rq empty_response s = (w', s')" "rs_status w' = Some 200"
  obtains st ctx' s1 where "authenticates gw_authorizes s rq st" "gw_heartbeats s1 = gw_heartbeats s"
    "station_from ctx' = st" "h ctx' rq empty_response s1 = (w', s')"
proof (cases "cut_prefix (rq_authorization rq) ''Bearer ''")
  case None
  with assms show thesis by (auto simp: bearer_auth_def unauthorized_def)
next
  case (Some token)
  obtain r s1 where l: "station_lookup_fn ctx token s = (r, s1)" by (cases "station_lookup_fn ctx token s")
  from l show thesis
  proof (cases rule: station_lookup_answer)
    case (found st)
    with Some have "authenticates gw_authorizes s rq st" unfolding authenticates_def by (metis cut_prefix_iff)
    from that [OF this station_lookup_frame(2) [OF l], of "ctx\<lparr>cx_station := Some st\<rparr>"] assms(1) Some l found
    show thesis by (simp add: bearer_auth_def station_from_def del: cut_prefix.simps)
  qed (use assms Some l in \<open>auto simp: bearer_auth_def unauthorized_def simp del: cut_prefix.simps\<close>)
qed

lemma heartbeat_200_row:
  assumes "gw_serve topic rq s = (w', s')" "rq_path rq = ''/v1/stations/heartbeat''" "rs_status w' = Some 200"
  obtains st hb received where "authenticates gw_authorizes s rq st" "decodes_heartbeat (rq_body rq) hb"
    "map_of (gw_heartbeats s') = (map_of (gw_heartbeats s))((st, trunc_micro (hb_reported_at hb)) \<mapsto>
      (case map_of (gw_heartbeats s) (st, trunc_micro (hb_reported_at hb)) of
         Some row \<Rightarrow> row | None \<Rightarrow> stored_heartbeat received hb))"
  using assms(1) unfolding gw_serve_def
proof (cases rule: serve_mux_cases)
  case heartbeat
  obtain t0 s0 where n0: "gw_now s = (t0, s0)" by (cases "gw_now s")
  with heartbeat(3) have b: "bearer_auth station_lookup_fn (handle_heartbeat_post heartbeat_save gw_now)
      (with_deadline (nanos t0 + 5 * gw_second) background) rq empty_response s0 = (w', s')"
    by (simp add: with_timeout_def)
  obtain st ctx s1 where st: "authenticates gw_authorizes s0 rq st" "gw_heartbeats s1 = gw_heartbeats s0" "station_from ctx = st"
      "handle_heartbeat_post heartbeat_save gw_now ctx rq empty_response s1 = (w', s')"
    by (rule bearer_200 [OF b assms(3)])
  have auth: "authenticates gw_authorizes s rq st"
    using st(1) gw_now_frame [OF n0] by (simp add: authenticates_def gw_authorizes_def)
  obtain v w1 where d: "decode_valid (4 * 2 ^ 10) heartbeat_fields zero_heartbeat heartbeat_valid (rq_body rq) empty_response = (v, w1)"
    by (cases "decode_valid (4 * 2 ^ 10) heartbeat_fields zero_heartbeat heartbeat_valid (rq_body rq) empty_response")
  obtain t s2 where n: "gw_now s1 = (t, s2)" by (cases "gw_now s1")
  from d show thesis
  proof (cases rule: decode_valid_cases)
    case (ok j hb)
    have hb: "decodes_heartbeat (rq_body rq) hb" using ok by (auto simp: decodes_heartbeat_def)
    obtain q s3 where p: "heartbeat_save ctx st t hb s2 = (q, s3)" by (cases "heartbeat_save ctx st t hb s2")
    obtain t3 s4 where n4: "gw_now s3 = (t3, s4)" by (cases "gw_now s3")
    from st(3,4) d ok n p n4 assms(3) have "q = None" "s' = s4"
      by (auto simp: handle_heartbeat_post_def Let_def split: option.splits)
    with p obtain s5 where "gw_heartbeats s5 = gw_heartbeats s2" "s3 = insert_heartbeat st t hb s5"
      by (elim heartbeat_save_effect) blast
    then have "map_of (gw_heartbeats s') = (map_of (gw_heartbeats s))((st, trunc_micro (hb_reported_at hb)) \<mapsto>
        (case map_of (gw_heartbeats s) (st, trunc_micro (hb_reported_at hb)) of
           Some row \<Rightarrow> row | None \<Rightarrow> stored_heartbeat t hb))"
      using gw_now_frame(2) [OF n0] gw_now_frame(2) [OF n] gw_now_frame(2) [OF n4] st(2) \<open>s' = s4\<close>
      by (simp add: insert_heartbeat_row)
    with that [OF auth hb] show thesis .
  qed (use st(4) d assms(3) in \<open>auto simp: handle_heartbeat_post_def\<close>)
qed (use assms(2,3) in \<open>auto simp: empty_response_def\<close>)

subsection \<open>A healthy gateway accepts\<close>

definition gw_healthy :: "gworld \<Rightarrow> bool" where
  "gw_healthy s \<longleftrightarrow> list_all (\<lambda>a. a = DbRuns) (gw_db s) \<and> list_all (\<lambda>a. a = KafkaAcks) (gw_kafka s)"

lemma healthy_db: "gw_healthy s \<Longrightarrow> \<exists>s1. db_next (note_call ctx s) = (DbRuns, s1) \<and> gw_healthy s1 \<and>
    gw_tokens s1 = gw_tokens s \<and> gw_stations s1 = gw_stations s"
  by (cases "gw_db s") (auto simp: gw_healthy_def db_next_def note_call_def)

lemma healthy_kafka: "gw_healthy s \<Longrightarrow> \<exists>s1. kafka_next (note_call ctx s) = (KafkaAcks, s1)"
  by (cases "gw_kafka s") (auto simp: gw_healthy_def kafka_next_def note_call_def)

lemma healthy_lookup:
  assumes "gw_healthy s" "gw_authorizes s token st"
  shows "\<exists>st' s1. station_lookup_fn ctx token s = (Inr (Some st'), s1) \<and> gw_authorizes s token st' \<and> gw_healthy s1"
proof -
  obtain s1 where s1: "db_next (note_call ctx s) = (DbRuns, s1)" "gw_healthy s1" "gw_tokens s1 = gw_tokens s"
      "gw_stations s1 = gw_stations s" using healthy_db [OF assms(1)] by blast
  have "token_rows s1 (hash_token token) = token_rows s (hash_token token)" using s1(3,4) by (simp add: token_rows_def)
  moreover obtain st' r where r: "token_rows s (hash_token token) = st' # r"
    using set_token_rows [of st s token] assms(2) by (cases "token_rows s (hash_token token)") auto
  moreover from r have "gw_authorizes s token st'" using set_token_rows [of st' s token] by simp
  ultimately show ?thesis using s1(1,2) by (simp add: station_lookup_fn_def query_station_def)
qed

lemma healthy_now: "gw_healthy s \<Longrightarrow> gw_now s = (t, s1) \<Longrightarrow> gw_healthy s1 \<and> gw_tokens s1 = gw_tokens s \<and> gw_stations s1 = gw_stations s"
  by (auto simp: gw_now_def gw_healthy_def split: list.splits)

lemma healthy_bearer:
  assumes "gw_healthy s" "authenticates gw_authorizes s rq st" "gw_good s"
  shows "\<exists>ctx st' s1. gw_healthy s1 \<and> gw_good s1 \<and> gw_authorizes s1 (drop 7 (rq_authorization rq)) st' \<and> station_from ctx = st' \<and>
    with_timeout gw_now d (bearer_auth station_lookup_fn h) background rq w s = h ctx rq w s1"
proof -
  obtain token where tok: "rq_authorization rq = ''Bearer '' @ token" "gw_authorizes s token st"
    using assms(2) by (auto simp: authenticates_def)
  obtain t s0 where n: "gw_now s = (t, s0)" by (cases "gw_now s")
  have g0: "gw_healthy s0" "gw_good s0" "gw_authorizes s0 token st"
    using healthy_now [OF assms(1) n] api.now_good [OF n assms(3)] tok(2) by (simp_all add: gw_authorizes_def)
  let ?ctx = "with_deadline (nanos t + d) background"
  obtain st' s1 where l: "station_lookup_fn ?ctx token s0 = (Inr (Some st'), s1)" "gw_authorizes s0 token st'" "gw_healthy s1"
    using healthy_lookup [OF g0(1,3)] by blast
  have "gw_good s1" by (rule api.lookup_good [OF l(1) g0(2)])
  moreover have "gw_authorizes s1 token st'" using station_lookup_frame [OF l(1)] l(2) by (simp add: gw_authorizes_def)
  moreover have "cut_prefix (rq_authorization rq) ''Bearer '' = Some token" unfolding tok(1) by (rule cut_prefix_append)
  ultimately show ?thesis using n l tok(1)
    by (intro exI [of _ "?ctx\<lparr>cx_station := Some st'\<rparr>"] exI [of _ st'] exI [of _ s1])
      (simp add: with_timeout_def bearer_auth_def station_from_def)
qed

lemma decode_valid_events:
  assumes "decodes_events body es"
  obtains req where "decode_valid (2 ^ 20) events_fields empty_events events_valid body w = (Some req, w)" "events_of req = es" "es \<noteq> []"
proof -
  from assms obtain j req where r: "decoder_read (2 ^ 20) body = Inr j" "decode_struct events_fields empty_events j = Some req"
      "es = events_of req" "es \<noteq> []" "\<forall>e \<in> set es. g_raw e \<noteq> []"
    unfolding decodes_events_def by blast
  then have "events_valid req = []" by (simp add: events_valid_nil)
  with r that show thesis by (simp add: decode_valid_def bind_result_def)
qed

lemma healthy_events:
  assumes "gw_healthy s" "gw_good s" "decodes_events (rq_body rq) es" "valid_utf8 (station_from ctx)"
    "\<forall>e \<in> set es. json_time (g_ts e)"
  shows "rs_status (fst (handle_events_post (kafka_publish topic) gw_now ctx rq empty_response s)) = Some 200"
proof -
  obtain req where req: "decode_valid (2 ^ 20) events_fields empty_events events_valid (rq_body rq) empty_response = (Some req, empty_response)"
      "events_of req = es" "es \<noteq> []"
    using decode_valid_events [OF assms(3)] by blast
  obtain t s1 where n: "gw_now s = (t, s1)" by (cases "gw_now s")
  have t: "json_time t" using api.now_good [OF n assms(2)] by blast
  have "\<exists>rec. event_record topic (station_from ctx) t e = Inr rec" if "e \<in> set es" for e
  proof -
    have "gw_carried e" using decodes_events_carried [OF assms(3)] that by (simp add: list_all_iff)
    with event_record_iff [OF this t] assms(5) that show ?thesis by blast
  qed
  then obtain f where "\<And>e. e \<in> set es \<Longrightarrow> event_record topic (station_from ctx) t e = Inr (f e)" by metis
  then have m: "publish_records topic (station_from ctx) t es [] = Inr (map f es)"
    unfolding publish_records_Inr by (simp add: map_result_ok)
  obtain s2 where k: "kafka_next (note_call ctx s1) = (KafkaAcks, s2)"
    using healthy_kafka healthy_now [OF assms(1) n] by blast
  obtain s3 where "kafka_publish topic ctx (station_from ctx) t es s1 = (None, s3)"
    by (simp add: kafka_publish_def m produce_sync_def k)
  with req n show ?thesis by (cases es) (simp_all add: handle_events_post_def Let_def)
qed

lemma healthy_heartbeat:
  assumes "gw_healthy s" "known_station s (station_from ctx)" "decodes_heartbeat (rq_body rq) hb"
  shows "rs_status (fst (handle_heartbeat_post heartbeat_save gw_now ctx rq empty_response s)) = Some 200"
proof -
  from assms(3) have req: "decode_valid (4 * 2 ^ 10) heartbeat_fields zero_heartbeat heartbeat_valid (rq_body rq) empty_response =
      (Some hb, empty_response)"
    by (auto simp: decodes_heartbeat_def decode_valid_def bind_result_def)
  obtain t s1 where n: "gw_now s = (t, s1)" by (cases "gw_now s")
  note h = healthy_now [OF assms(1) n]
  obtain s2 where s2: "db_next (note_call ctx s1) = (DbRuns, s2)" "gw_stations s2 = gw_stations s1"
    using healthy_db h by blast
  then have "known_station s2 (station_from ctx)" using assms(2) h by (simp add: known_station_def)
  with s2 obtain s3 where "heartbeat_save ctx (station_from ctx) t hb s1 = (None, s3)" by (simp add: heartbeat_save_def)
  with req n show ?thesis by (simp add: handle_heartbeat_post_def Let_def split: prod.split)
qed

lemma serve_route:
  assumes "rq_method rq = ''POST''" "rq_path rq = ''/v1/events''"
  shows "gw_serve topic rq s = with_timeout gw_now (5 * gw_second)
    (bearer_auth station_lookup_fn (handle_events_post (kafka_publish topic) gw_now)) background rq empty_response s"
  using assms by (simp add: gw_serve_def new_server_def serve_mux_def method_matches_def Let_def)

lemma healthy_serves_heartbeat:
  assumes "rq_method rq = ''POST''" "rq_path rq = ''/v1/stations/heartbeat''" "authenticates gw_authorizes s rq st"
    "decodes_heartbeat (rq_body rq) hb" "gw_good s" "gw_healthy s"
  shows "rs_status (fst (gw_serve topic rq s)) = Some 200"
proof -
  have r: "gw_serve topic rq s = with_timeout gw_now (5 * gw_second)
      (bearer_auth station_lookup_fn (handle_heartbeat_post heartbeat_save gw_now)) background rq empty_response s"
    using assms(1,2) by (simp add: gw_serve_def new_server_def serve_mux_def method_matches_def Let_def)
  obtain ctx st' s1 where c: "gw_healthy s1" "gw_authorizes s1 (drop 7 (rq_authorization rq)) st'" "station_from ctx = st'"
      "gw_serve topic rq s = handle_heartbeat_post heartbeat_save gw_now ctx rq empty_response s1"
    using healthy_bearer [OF assms(6,3,5)] unfolding r by blast
  have "known_station s1 (station_from ctx)" using c(2,3) unfolding gw_authorizes_def known_station_def by (metis image_eqI)
  from healthy_heartbeat [OF c(1) this assms(4)] c(4) show ?thesis by simp
qed

lemma healthy_serves:
  assumes "rq_method rq = ''POST''" "rq_path rq = ''/v1/events''" "authenticates gw_authorizes s rq st"
    "decodes_events (rq_body rq) es" "gw_good s" "gw_healthy s" "\<forall>e \<in> set es. json_time (g_ts e)"
  shows "rs_status (fst (gw_serve topic rq s)) = Some 200"
proof -
  obtain ctx st' s1 where c: "gw_healthy s1" "gw_good s1" "gw_authorizes s1 (drop 7 (rq_authorization rq)) st'"
      "station_from ctx = st'"
      "gw_serve topic rq s = handle_events_post (kafka_publish topic) gw_now ctx rq empty_response s1"
    using healthy_bearer [OF assms(6,3,5)] unfolding serve_route [OF assms(1,2)] by blast
  have "valid_utf8 (station_from ctx)" using api.authorizes_good [OF c(3,2)] c(4) by simp
  from healthy_events [OF c(1,2) assms(4) this assms(7)] c(5) show ?thesis by simp
qed

text \<open>An event that cannot be framed fails the whole request before Kafka is asked, whatever would answer.\<close>

lemma unframed_events:
  assumes "decodes_events (rq_body rq) es" "e \<in> set es" "\<not> json_time (g_ts e)"
  shows "\<exists>s'. handle_events_post (kafka_publish topic) gw_now ctx rq empty_response s = (fail 500 ''internal'' empty_response, s') \<and>
    gw_log s' = gw_log s \<and> gw_saved s' = gw_saved s"
proof -
  obtain req where req: "decode_valid (2 ^ 20) events_fields empty_events events_valid (rq_body rq) empty_response = (Some req, empty_response)"
      "events_of req = es"
    using decode_valid_events [OF assms(1)] by blast
  obtain t s1 where n: "gw_now s = (t, s1)" by (cases "gw_now s")
  have c: "gw_carried e" using decodes_events_carried [OF assms(1)] assms(2) by (simp add: list_all_iff)
  have "\<nexists>rec. event_record topic (station_from ctx) t e = Inr rec"
    using c assms(3)
    by (auto simp: event_record_eq wire_record_ok_iff wire_event_def gw_carried_def json_time_iff [of "g_ts e"])
  moreover obtain i where "i < length es" "es ! i = e" using assms(2) by (auto simp: in_set_conv_nth)
  ultimately have "\<nexists>recs. map_result (event_record topic (station_from ctx) t) es = Inr recs"
    by (auto simp: map_result_Inr_iff dest: list_all2_nthD)
  then obtain err where "publish_records topic (station_from ctx) t es [] = Inl err"
    by (cases "publish_records topic (station_from ctx) t es []") (auto simp: publish_records_Inr)
  with req n gw_now_frame [OF n] show ?thesis 
    by (simp add: handle_events_post_def Let_def kafka_publish_def gw_saved_def fun_eq_iff)
qed

lemma unframed_serves:
  assumes "gw_serve topic rq s = (w', s')" "rq_method rq = ''POST''" "rq_path rq = ''/v1/events''"
    "authenticates gw_authorizes s rq st" "decodes_events (rq_body rq) es" "e \<in> set es" "\<not> json_time (g_ts e)"
  shows "rs_status w' = Some 500 \<and> gw_log s' = gw_log s \<and> gw_saved s' = gw_saved s"
proof -
  from assms(1) [unfolded serve_route [OF assms(2,3)]] show ?thesis
  proof (cases rule: api.authed_cases)
    case denied
    with assms(4) show ?thesis by blast
  next
    case lookup_failed
    then show ?thesis by simp
  next
    case (admitted st' ctx s1)
    from unframed_events [OF assms(5-7), of topic ctx s1] admitted(2,3,6) show ?thesis by (auto simp: fail_def)
  qed
qed

lemma sample_healthy: "gw_healthy sample_gw" "heartbeats_ok sample_gw"
  by (simp_all add: gw_healthy_def heartbeats_ok_def sample_gw_def)

lemma sample_authenticates: "authenticates gw_authorizes sample_gw (sample_request path j) ''st''"
  unfolding authenticates_def sample_authorizes
  by (intro exI [of _ "''key''"]) (simp add: sample_request_def)

lemma sample_request_simps [simp]:
  "rq_method (sample_request p j) = ''POST''" "rq_path (sample_request p j) = p"
  "rq_body (sample_request p j) = print_json j"
  by (simp_all add: sample_request_def)

lemma sample_serves:
  "rs_status (fst (gw_serve topic (sample_request ''/v1/events'' sample_events_json) sample_gw)) = Some 200"
  "rs_status (fst (gw_serve topic (sample_request ''/v1/events'' sample_no_ts_json) sample_gw)) = Some 200"
  by (rule healthy_serves [OF _ _ sample_authenticates _ sample_gw_good sample_healthy(1)], simp, simp, simp, rule sample_decodes, simp)+

lemma sample_serves_heartbeat:
  "rs_status (fst (gw_serve topic (sample_request ''/v1/stations/heartbeat'' sample_heartbeat_json) sample_gw)) = Some 200"
  by (rule healthy_serves_heartbeat [OF _ _ sample_authenticates _ sample_gw_good sample_healthy(1)])
    (simp, simp, simp, rule sample_decodes)

text \<open>Requests one after the other.\<close>

fun gw_serve_all :: "string \<Rightarrow> request list \<Rightarrow> gworld \<Rightarrow> response list \<times> gworld" where
  "gw_serve_all topic [] s = ([], s)"
| "gw_serve_all topic (rq # rqs) s =
     (let (w, s1) = gw_serve topic rq s; (ws, s2) = gw_serve_all topic rqs s1 in (w # ws, s2))"

lemma gw_serve_all_keeps:
  assumes "gw_serve_all topic rqs s = (ws, s')" "P s"
    and "\<And>rq s w s'. gw_serve topic rq s = (w, s') \<Longrightarrow> P s \<Longrightarrow> P s'"
  shows "P s'"
  using assms(1,2)
proof (induction rqs arbitrary: s ws)
  case (Cons rq rqs)
  then show ?case using assms(3) by (auto split: prod.splits)
qed simp

text \<open>What one request may leave in the log.\<close>

definition log_chunk :: "string \<Rightarrow> request \<Rightarrow> response \<Rightarrow> krecord list \<Rightarrow> bool" where
  "log_chunk topic rq w recs \<longleftrightarrow>
     (recs \<noteq> [] \<longrightarrow> rs_status w \<in> {Some 200, Some 500} \<and> (\<exists>st. \<forall>rec \<in> set recs. kr_key rec = st)) \<and>
     (rq_path rq = ''/v1/events'' \<and> rs_status w = Some 200 \<longrightarrow>
        (\<exists>st es t. decodes_events (rq_body rq) es \<and>
           list_all2 (\<lambda>e rec. kr_key rec = st \<and> unmarshal_event (kr_value rec) = Some (wire_event st t e)) es recs))"

lemma gw_serve_chunk:
  assumes "gw_serve topic rq s = (w, s')" "gw_good s"
  shows "\<exists>recs. gw_log s' = gw_log s @ recs \<and> log_chunk topic rq w recs"
proof (cases "rq_path rq = ''/v1/events'' \<and> rs_status w = Some 200")
  case True
  show ?thesis
  proof (rule api.events_200_carried [OF assms(1) [unfolded gw_serve_def] _ _ assms(2)])
    fix st es t recs
    assume r: "decodes_events (rq_body rq) es" "gw_log s' = gw_log s @ recs"
      and c: "list_all2 (\<lambda>e rec. event_record topic st t e = Inr rec \<and> json_event (wire_event st t e) \<and>
        unmarshal_event (kr_value rec) = Some (wire_event st t e)) es recs"
    have l: "list_all2 (\<lambda>e rec. kr_key rec = st \<and> unmarshal_event (kr_value rec) = Some (wire_event st t e)) es recs"
      by (rule list_all2_mono [OF c]) (auto simp: event_record_def dest: wire_record_fields)
    then have "\<forall>rec \<in> set recs. kr_key rec = st" by (auto dest: list_all2_mem2)
    with r l True have "log_chunk topic rq w recs" unfolding log_chunk_def by blast
    with r(2) show ?thesis by blast
  qed (use True in auto)
next
  case False
  from api.isolated [OF assms(1) [unfolded gw_serve_def]] show ?thesis
  proof (elim disjE conjE exE)
    assume "gw_log s' = gw_log s"
    with False show ?thesis by (intro exI [of _ "[]"]) (auto simp: log_chunk_def)
  next
    fix st assume "rs_status w \<in> {Some 200, Some 500}" "api.adds_only_for topic st s s'"
    with False show ?thesis unfolding api.adds_only_for_def log_chunk_def by blast
  qed
qed

subsection \<open>Properties\<close>

text \<open>The gateway answers every request, once, with one of its statuses, and no handler panics
  (\<open>req.Events[0]\<close> is only reached with an event), whatever the request, the database and the broker do.\<close>

theorem gateway_answers:
  "rs_status (fst (gw_serve topic rq s)) \<in> Some ` {200, 400, 401, 404, 405, 413, 422, 500} \<and>
   \<not> rs_aborted (fst (gw_serve topic rq s))"
proof -
  obtain w' s' where r: "gw_serve topic rq s = (w', s')" by (cases "gw_serve topic rq s")
  from api.answered [OF r [unfolded gw_serve_def]] r show ?thesis by simp
qed

text \<open>C3: a 200 to a batch of events means that the broker has every one of them: the topic's log has grown
  by exactly one record per event of the body, in order, each keyed by the station the token authorizes and
  decoding to that station, id, time and line.\<close>

theorem accepted_events_logged:
  assumes "gw_serve topic rq s = (w', s')" "rq_path rq = ''/v1/events''" "rs_status w' = Some 200" "gw_good s"
  shows "\<exists>st es t recs. authenticates gw_authorizes s rq st \<and> decodes_events (rq_body rq) es \<and>
    gw_log s' = gw_log s @ recs \<and>
    list_all2 (\<lambda>e rec. kr_topic rec = topic \<and> kr_key rec = st \<and>
      unmarshal_event (kr_value rec) = Some (wire_event st t e)) es recs"
proof (rule api.events_200_carried [OF assms(1) [unfolded gw_serve_def] assms(2-4)])
  fix st es t recs
  assume r: "authenticates gw_authorizes s rq st" "decodes_events (rq_body rq) es" "gw_log s' = gw_log s @ recs"
    and c: "list_all2 (\<lambda>e rec. event_record topic st t e = Inr rec \<and> json_event (wire_event st t e) \<and>
      unmarshal_event (kr_value rec) = Some (wire_event st t e)) es recs"
  have "list_all2 (\<lambda>e rec. kr_topic rec = topic \<and> kr_key rec = st \<and>
      unmarshal_event (kr_value rec) = Some (wire_event st t e)) es recs"
    by (rule list_all2_mono [OF c]) (auto simp: event_record_def dest: wire_record_fields)
  with r show ?thesis by blast
qed

theorem accepted_events_logged_witness:
  "\<exists>st es t recs. gw_log (snd (gw_serve raw_topic (sample_request ''/v1/events'' sample_events_json) sample_gw)) = recs \<and>
     decodes_events (print_json sample_events_json) es \<and>
     list_all2 (\<lambda>e rec. kr_topic rec = raw_topic \<and> kr_key rec = st \<and>
       unmarshal_event (kr_value rec) = Some (wire_event st t e)) es recs"
  using accepted_events_logged [of raw_topic "sample_request ''/v1/events'' sample_events_json" sample_gw, OF _ _ _ sample_gw_good]
    sample_serves(1) [of raw_topic]
  by (cases "gw_serve raw_topic (sample_request ''/v1/events'' sample_events_json) sample_gw") (auto simp: sample_gw_def)

text \<open>C24: decoding is typed: whatever bytes a body has, each event it decodes to has a non-empty line that is
  UTF-8, an id of 64 bits and a time Go's parser can give. It can be framed for Kafka, for any station,
  exactly when its zone is under a day, and what is framed decodes to the event.\<close>

theorem decoded_events_typed:
  assumes "decodes_events body es" "e \<in> set es" "valid_utf8 st" "json_time received"
  shows "valid_utf8 (g_raw e) \<and> g_raw e \<noteq> [] \<and> - int64_lim \<le> g_id e \<and> g_id e < int64_lim \<and> go_time (g_ts e) \<and>
    ((\<exists>rec. event_record topic st received e = Inr rec) \<longleftrightarrow> \<bar>t_off (g_ts e)\<bar> < 86400) \<and>
    (\<forall>rec. event_record topic st received e = Inr rec \<longrightarrow>
       kr_key rec = st \<and> unmarshal_event (kr_value rec) = Some (wire_event st received e))"
proof -
  have c: "gw_carried e" using decodes_events_carried [OF assms(1)] assms(2) by (simp add: list_all_iff)
  have f: "(\<exists>rec. event_record topic st received e = Inr rec) \<longleftrightarrow> \<bar>t_off (g_ts e)\<bar> < 86400"
    unfolding event_record_iff [OF c assms(4)] json_time_go using c by (simp add: gw_carried_def)
  have "kr_key rec = st \<and> unmarshal_event (kr_value rec) = Some (wire_event st received e)"
    if rec: "event_record topic st received e = Inr rec" for rec
  proof -
    from rec event_record_iff [OF c assms(4)] have "json_time (g_ts e)" by blast
    from wire_record_ok [OF wire_event_json [OF c assms(3) this assms(4)], of topic] rec
    show ?thesis by (simp add: event_record_eq wire_event_def)
  qed
  with f c show ?thesis using assms(1,2) by (auto simp: gw_carried_def decodes_events_def)
qed

theorem decoded_events_typed_witness:
  "\<exists>rec. event_record raw_topic ''st'' sample_time \<lparr>g_id = 7, g_ts = sample_time, g_raw = ''msg''\<rparr> = Inr rec \<and>
     unmarshal_event (kr_value rec) = Some (wire_event ''st'' sample_time \<lparr>g_id = 7, g_ts = sample_time, g_raw = ''msg''\<rparr>)"
  using decoded_events_typed [OF sample_decodes(1) _ _ sample_time_ok(1), of _ "''st''" raw_topic]
  by (auto simp: valid_utf8_ascii sample_time_def)

text \<open>A station can add only under its own name. Whatever a request's outcome, either the log and the
  heartbeats are as they were, or the request's token authorizes a station and every record and every
  heartbeat added is that station's.\<close>

theorem stations_isolated:
  assumes "gw_serve topic rq s = (w', s')"
  shows "gw_log s' = gw_log s \<and> gw_saved s' = gw_saved s \<or>
    (\<exists>st recs. authenticates gw_authorizes s rq st \<and> gw_log s' = gw_log s @ recs \<and>
       (\<forall>rec \<in> set recs. kr_key rec = st \<and> kr_topic rec = topic) \<and>
       (\<forall>k. gw_saved s' k \<longrightarrow> \<not> gw_saved s k \<longrightarrow> fst k = st))"
  using api.isolated [OF assms [unfolded gw_serve_def]] unfolding api.adds_only_for_def by blast

theorem stations_isolated_witness:
  "\<exists>w' s'. gw_serve raw_topic (sample_request ''/v1/events'' sample_events_json) sample_gw = (w', s') \<and>
     (gw_log s' = [] \<or> (\<exists>st. \<forall>rec \<in> set (gw_log s'). kr_key rec = st \<and> kr_topic rec = raw_topic))"
proof -
  obtain w' s' where r: "gw_serve raw_topic (sample_request ''/v1/events'' sample_events_json) sample_gw = (w', s')"
    by (cases "gw_serve raw_topic (sample_request ''/v1/events'' sample_events_json) sample_gw")
  from stations_isolated [OF this] show ?thesis
    unfolding r by (intro exI [of _ w'] exI [of _ s']) (auto simp: sample_gw_def)
qed

text \<open>C18: the token decides. A request whose token authorizes no station (unknown, revoked, or of a revoked
  station) is not served and changes neither the log nor the heartbeats; and a 401 is only ever said of such
  a token, so a database failure never reads as a bad one.\<close>

theorem token_decides:
  assumes "gw_serve topic rq s = (w', s')"
  shows "((\<forall>st. \<not> authenticates gw_authorizes s rq st) \<longrightarrow>
      rs_status w' \<in> Some ` {401, 404, 405, 500} \<and> gw_log s' = gw_log s \<and> gw_saved s' = gw_saved s) \<and>
    (rs_status w' = Some 401 \<longrightarrow> (\<forall>st. \<not> authenticates gw_authorizes s rq st))"
  using api.unauthenticated [OF assms [unfolded gw_serve_def]] api.admitted_not_401 [OF assms [unfolded gw_serve_def]]
  by blast

theorem token_decides_witness:
  "\<exists>w' s'. gw_serve raw_topic (sample_request ''/v1/events'' sample_events_json)
       (sample_gw\<lparr>gw_stations := [\<lparr>sn_id = ''st'', sn_revoked = True\<rparr>]\<rparr>) = (w', s') \<and>
     rs_status w' \<noteq> Some 200 \<and> gw_log s' = []"
proof -
  let ?s = "sample_gw\<lparr>gw_stations := [\<lparr>sn_id = ''st'', sn_revoked = True\<rparr>]\<rparr>"
  let ?rq = "sample_request ''/v1/events'' sample_events_json"
  obtain w' s' where r: "gw_serve raw_topic ?rq ?s = (w', s')" by (cases "gw_serve raw_topic ?rq ?s")
  have "\<forall>st. \<not> authenticates gw_authorizes ?s ?rq st" by (simp add: authenticates_def gw_authorizes_def)
  with token_decides [OF r] r show ?thesis by (auto simp: sample_gw_def)
qed

text \<open>C26: an accepted heartbeat is stored: after a 200 the table has a row for the authorized station at the
  reported time, to the microsecond; it is the row that was there, or else the heartbeat of the body. The
  other rows are as they were.\<close>

theorem accepted_heartbeat_saved:
  assumes "gw_serve topic rq s = (w', s')" "rq_path rq = ''/v1/stations/heartbeat''" "rs_status w' = Some 200"
  shows "\<exists>st hb received. authenticates gw_authorizes s rq st \<and> decodes_heartbeat (rq_body rq) hb \<and>
    map_of (gw_heartbeats s') = (map_of (gw_heartbeats s))((st, trunc_micro (hb_reported_at hb)) \<mapsto>
      (case map_of (gw_heartbeats s) (st, trunc_micro (hb_reported_at hb)) of
         Some row \<Rightarrow> row | None \<Rightarrow> stored_heartbeat received hb))"
  by (rule heartbeat_200_row [OF assms]) blast

theorem accepted_heartbeat_saved_witness:
  "\<exists>st (hb :: heartbeat) received. map_of (gw_heartbeats
       (snd (gw_serve raw_topic (sample_request ''/v1/stations/heartbeat'' sample_heartbeat_json) sample_gw))) =
     [(st, trunc_micro (hb_reported_at hb)) \<mapsto> stored_heartbeat received hb]"
proof -
  let ?rq = "sample_request ''/v1/stations/heartbeat'' sample_heartbeat_json"
  obtain w' s' where r: "gw_serve raw_topic ?rq sample_gw = (w', s')" by (cases "gw_serve raw_topic ?rq sample_gw")
  from sample_serves_heartbeat [of raw_topic] r have "rs_status w' = Some 200" by simp
  from accepted_heartbeat_saved [OF r sample_request_simps(2) this] show ?thesis
    unfolding r snd_conv by (auto simp: sample_gw_def)
qed

text \<open>C23: a good request to a healthy gateway is accepted: with an authorized token, a body that decodes to at
  least one event, to no empty line and to times JSON can carry (zones under a day), and a database and a
  broker that answer, the status is 200.\<close>

theorem valid_events_accepted:
  assumes "rq_method rq = ''POST''" "rq_path rq = ''/v1/events''" "authenticates gw_authorizes s rq st"
    "decodes_events (rq_body rq) es" "gw_good s" "gw_healthy s" "\<forall>e \<in> set es. json_time (g_ts e)"
  shows "rs_status (fst (gw_serve topic rq s)) = Some 200"
  by (rule healthy_serves [OF assms])

theorem valid_events_accepted_witness:
  "rs_status (fst (gw_serve ''t'' (sample_request ''/v1/events'' sample_events_json) sample_gw)) = Some 200"
  by (rule valid_events_accepted [OF _ _ sample_authenticates _ sample_gw_good sample_healthy(1),
        where es = "[\<lparr>g_id = 7, g_ts = sample_time, g_raw = ''msg''\<rparr>]"])
    (simp, simp, simp, rule sample_decodes, simp)

text \<open>C17: the zone of 24 hours: a \<open>ts\<close> such as \<open>2026-09-14T15:00:17+24:00\<close> decodes and passes validation, but
  cannot be framed. An authorized request whose body holds one such event, among whatever others, is
  answered 500, however healthy the database and the broker are, and nothing of its batch is in the log.\<close>

theorem unframeable_ts_refused:
  assumes "gw_serve topic rq s = (w', s')" "rq_method rq = ''POST''" "rq_path rq = ''/v1/events''"
    "authenticates gw_authorizes s rq st" "decodes_events (rq_body rq) es" "e \<in> set es" "86400 \<le> \<bar>t_off (g_ts e)\<bar>"
  shows "rs_status w' = Some 500 \<and> gw_log s' = gw_log s \<and> gw_saved s' = gw_saved s"
  by (rule unframed_serves [OF assms(1-6)]) (use assms(7) in \<open>simp add: json_time_def\<close>)

theorem unframeable_ts_refused_witness:
  "rs_status (fst (gw_serve raw_topic (sample_request ''/v1/events'' sample_zone_json) sample_gw)) = Some 500 \<and>
   gw_log (snd (gw_serve raw_topic (sample_request ''/v1/events'' sample_zone_json) sample_gw)) = []"
proof -
  let ?rq = "sample_request ''/v1/events'' sample_zone_json"
  obtain w' s' where r: "gw_serve raw_topic ?rq sample_gw = (w', s')" by (cases "gw_serve raw_topic ?rq sample_gw")
  have "decodes_events (rq_body ?rq) [\<lparr>g_id = 7, g_ts = sample_zone_time, g_raw = ''msg''\<rparr>]"
    using sample_decodes(4) by simp
  from unframeable_ts_refused [OF r _ _ sample_authenticates this] r show ?thesis
    by (simp add: sample_zone_time_def) (simp add: sample_gw_def)
qed

text \<open>C25: no dependency is waited for past five seconds of the request's start: a request makes at most two
  calls (the lookup, then a produce or an insert), each with that deadline in its context.\<close>

theorem dependency_deadlines:
  assumes "gw_serve topic rq s = (w, s')"
  shows "\<exists>n \<le> 2. gw_calls s' = gw_calls s @ replicate n (Some (nanos (fst (gw_now s)) + 5 * gw_second))"
  using gw_serve_frame [OF assms] by (auto simp: gw_frame_def with_deadline_def background_def)

theorem dependency_deadlines_witness:
  "\<exists>n \<le> 2. gw_calls (snd (gw_serve raw_topic (sample_request ''/v1/events'' sample_events_json) sample_gw)) =
     replicate n (Some (nanos sample_time + 5000000000))"
  using dependency_deadlines [of raw_topic "sample_request ''/v1/events'' sample_events_json" sample_gw]
  by (cases "gw_serve raw_topic (sample_request ''/v1/events'' sample_events_json) sample_gw")
    (auto simp: sample_gw_def gw_now_def gw_second_def)

text \<open>The log is what the answers say, in order: serving a sequence of requests appends one chunk per
  request, in the order of the requests; the chunk of an accepted batch is its events' records, the chunk
  of a request that was refused is empty, and no chunk mixes stations.\<close>

theorem served_in_order:
  assumes "gw_serve_all topic rqs s = (ws, s')" "gw_good s"
  shows "length ws = length rqs \<and> (\<exists>chunks. gw_log s' = gw_log s @ concat chunks \<and> length chunks = length rqs \<and>
    (\<forall>i < length rqs. log_chunk topic (rqs ! i) (ws ! i) (chunks ! i)))"
  using assms
proof (induction rqs arbitrary: s ws)
  case (Cons rq rqs)
  obtain w s1 where w: "gw_serve topic rq s = (w, s1)" by (cases "gw_serve topic rq s")
  obtain ws1 where ws: "gw_serve_all topic rqs s1 = (ws1, s')" "ws = w # ws1"
    using Cons.prems(1) w by (auto split: prod.splits)
  obtain recs where recs: "gw_log s1 = gw_log s @ recs" "log_chunk topic rq w recs"
    using gw_serve_chunk [OF w Cons.prems(2)] by blast
  have "gw_good s1" using gw_serve_frame [OF w] gw_good_frame Cons.prems(2) by blast
  with Cons.IH ws(1) obtain chunks where "length ws1 = length rqs" "gw_log s' = gw_log s1 @ concat chunks"
      "length chunks = length rqs" "\<forall>i < length rqs. log_chunk topic (rqs ! i) (ws1 ! i) (chunks ! i)" by blast
  with recs ws(2) show ?case by (intro conjI exI [of _ "recs # chunks"]) (auto simp: less_Suc_eq_0_disj)
qed simp

theorem served_in_order_witness:
  "\<exists>ws s' chunks. gw_serve_all raw_topic [sample_request ''/v1/events'' sample_events_json] sample_gw = (ws, s') \<and>
     gw_log s' = concat chunks \<and> length chunks = 1"
proof -
  obtain ws s' where r: "gw_serve_all raw_topic [sample_request ''/v1/events'' sample_events_json] sample_gw = (ws, s')"
    by (cases "gw_serve_all raw_topic [sample_request ''/v1/events'' sample_events_json] sample_gw")
  from served_in_order [OF r sample_gw_good] r show ?thesis
    by (intro exI [of _ ws] exI [of _ s']) (auto simp: sample_gw_def simp del: gw_serve_all.simps)
qed

text \<open>The heartbeats table stays well formed whatever is served: one row per station and reported time, and
  every row's station exists.\<close>

theorem heartbeats_invariant:
  assumes "gw_serve_all topic rqs s = (ws, s')" "heartbeats_ok s"
  shows "heartbeats_ok s'"
  by (rule gw_serve_all_keeps [where P = heartbeats_ok, OF assms]) (auto dest!: gw_serve_frame simp: gw_frame_def)

theorem heartbeats_invariant_witness:
  "heartbeats_ok (snd (gw_serve_all raw_topic
     [sample_request ''/v1/stations/heartbeat'' sample_heartbeat_json, sample_request ''/v1/events'' sample_events_json] sample_gw))"
  by (rule heartbeats_invariant [OF prod.collapse [symmetric] sample_healthy(2)])

text \<open>A re-sent heartbeat is ignored: once a station's heartbeat of some time is in the table, saving another
  of the same time, to the microsecond, leaves the table as it is, and succeeds when the database runs the
  statement.\<close>

theorem heartbeat_resend_ignored:
  assumes "heartbeat_save ctx st t hb s = (None, s1)" "heartbeat_save ctx' st t' hb' s1 = (r, s2)"
    "trunc_micro (hb_reported_at hb') = trunc_micro (hb_reported_at hb)"
  shows "gw_heartbeats s2 = gw_heartbeats s1 \<and> (gw_healthy s1 \<longrightarrow> r = None)"
proof (intro conjI impI)
  have saved: "gw_saved s1 (st, trunc_micro (hb_reported_at hb'))"
    unfolding assms(3) by (rule saver.save_ok [OF assms(1)])
  from assms(2) obtain s3 where s3: "gw_heartbeats s3 = gw_heartbeats s1" "s2 = s3 \<or> s2 = insert_heartbeat st t' hb' s3"
    by (rule heartbeat_save_effect) blast
  with saved show "gw_heartbeats s2 = gw_heartbeats s1" by (auto simp: gw_saved_def insert_heartbeat_def)
  have k: "known_station s1 st"
    using assms(1) by (rule heartbeat_save_effect) (auto simp: known_station_def)
  assume "gw_healthy s1"
  then obtain s4 where "db_next (note_call ctx' s1) = (DbRuns, s4)" "gw_stations s4 = gw_stations s1" using healthy_db by blast
  with assms(2) k show "r = None" by (auto simp: heartbeat_save_def known_station_def)
qed

lemma sample_save: "heartbeat_save background ''st'' sample_time zero_heartbeat sample_gw =
    (None, insert_heartbeat ''st'' sample_time zero_heartbeat (note_call background sample_gw))"
  by (simp add: heartbeat_save_def db_next_def known_station_def sample_gw_def note_call_def)

theorem heartbeat_resend_ignored_witness:
  "gw_heartbeats (snd (heartbeat_save background ''st'' zero_time zero_heartbeat
      (snd (heartbeat_save background ''st'' sample_time zero_heartbeat sample_gw)))) =
   gw_heartbeats (snd (heartbeat_save background ''st'' sample_time zero_heartbeat sample_gw))"
  using heartbeat_resend_ignored [OF sample_save prod.collapse [symmetric] refl, of background zero_time]
  unfolding sample_save snd_conv by blast



end
