(* ===== verification/Gateway_Replay.thy ===== *)
theory Gateway_Replay
  imports Gateway_Facts
begin

section \<open>A request as a sequence of calls\<close>

text \<open>
  \<open>net/http\<close> runs every request in its own goroutine. What other goroutines can notice of a request are its
  calls: to the clock, to the database, to the broker. As the handlers are functions of what they call, a
  request's program is read off them: \<open>replay\<close> serves the request from the answers it has had so far and
  gives its next call, or its response. The lemmas say what the next call is at every point, and
  \<open>run_alone_serves\<close> that a request which makes its calls with nobody in between is \<open>gw_serve\<close>.
\<close>

subsection \<open>Calls and answers\<close>

datatype gw_call =
    CallNow
  | CallLookup gctx bytes
  | CallPublish gctx bytes gtime "gw_event list"
  | CallSave gctx bytes gtime heartbeat

datatype gw_answer =
    AnsNow gtime
  | AnsLookup "bytes option result"
  | AnsPublish "gerror option"
  | AnsSave "gerror option"

text \<open>The state of a replay: the answers still to be given, and the first call there was no answer for.\<close>

record replay_state =
  rp_answers :: "gw_answer list"
  rp_call :: "gw_call option"

definition ask :: "gw_call \<Rightarrow> replay_state \<Rightarrow> gw_answer option \<times> replay_state" where
  "ask c s =
     (case rp_answers s of
        [] \<Rightarrow> (None, if rp_call s = None then s\<lparr>rp_call := Some c\<rparr> else s)
      | a # as \<Rightarrow> (Some a, s\<lparr>rp_answers := as\<rparr>))"

definition rp_now :: "replay_state clock_fn" where
  "rp_now s = (case ask CallNow s of (Some (AnsNow t), s1) \<Rightarrow> (t, s1) | (_, s1) \<Rightarrow> (zero_time, s1))"

definition rp_lookup :: "replay_state lookup_fn" where
  "rp_lookup ctx token s =
     (case ask (CallLookup ctx token) s of (Some (AnsLookup r), s1) \<Rightarrow> (r, s1) | (_, s1) \<Rightarrow> (Inl ErrCanceled, s1))"

definition rp_publish :: "replay_state publish_fn" where
  "rp_publish ctx st t es s =
     (case ask (CallPublish ctx st t es) s of
        (Some (AnsPublish r), s1) \<Rightarrow> (r, s1) | (_, s1) \<Rightarrow> (Some ErrCanceled, s1))"

definition rp_save :: "replay_state save_fn" where
  "rp_save ctx st t hb s =
     (case ask (CallSave ctx st t hb) s of
        (Some (AnsSave r), s1) \<Rightarrow> (r, s1) | (_, s1) \<Rightarrow> (Some ErrCanceled, s1))"

definition replay :: "request \<Rightarrow> gw_answer list \<Rightarrow> gw_call + response" where
  "replay rq as =
     (case new_server rp_lookup rp_save rp_publish rp_now background rq empty_response
             \<lparr>rp_answers = as, rp_call = None\<rparr> of
        (w, s) \<Rightarrow> (case rp_call s of Some c \<Rightarrow> Inl c | None \<Rightarrow> Inr w))"

subsection \<open>The program of a request\<close>

definition is_events :: "request \<Rightarrow> bool" where
  "is_events rq \<longleftrightarrow> rq_method rq = ''POST'' \<and> rq_path rq = ''/v1/events''"

definition is_heartbeat :: "request \<Rightarrow> bool" where
  "is_heartbeat rq \<longleftrightarrow> rq_method rq = ''POST'' \<and> rq_path rq = ''/v1/stations/heartbeat''"

definition request_ctx :: "gtime \<Rightarrow> gctx" where
  "request_ctx t = with_deadline (nanos t + 5 * gw_second) background"

definition station_ctx :: "gtime \<Rightarrow> bytes \<Rightarrow> gctx" where
  "station_ctx t st = (request_ctx t)\<lparr>cx_station := Some st\<rparr>"

abbreviation bearer :: "request \<Rightarrow> bytes option" where
  "bearer rq \<equiv> cut_prefix (rq_authorization rq) ''Bearer ''"

definition read_events :: "request \<Rightarrow> events_request option \<times> response" where
  "read_events rq = decode_valid (2 ^ 20) events_fields empty_events events_valid (rq_body rq) empty_response"

definition read_heartbeat :: "request \<Rightarrow> heartbeat option \<times> response" where
  "read_heartbeat rq =
     decode_valid (4 * 2 ^ 10) heartbeat_fields zero_heartbeat heartbeat_valid (rq_body rq) empty_response"

lemma not_both: "is_events rq \<Longrightarrow> \<not> is_heartbeat rq"
  by (simp add: is_events_def is_heartbeat_def)

lemma station_ctx_simps [simp]: "station_from (station_ctx t st) = st" "cx_station (station_ctx t st) = Some st"
  by (simp_all add: station_ctx_def station_from_def)

text \<open>The server on the two routes and off them, whatever the stores.\<close>

lemma events_server:
  "is_events rq \<Longrightarrow> new_server lookup save publish now ctx rq w s =
     with_timeout now (5 * gw_second) (bearer_auth lookup (handle_events_post publish now)) ctx rq w s"
  by (simp add: is_events_def new_server_def serve_mux_def method_matches_def Let_def)

lemma heartbeat_server:
  "is_heartbeat rq \<Longrightarrow> new_server lookup save publish now ctx rq w s =
     with_timeout now (5 * gw_second) (bearer_auth lookup (handle_heartbeat_post save now)) ctx rq w s"
  by (simp add: is_heartbeat_def new_server_def serve_mux_def method_matches_def Let_def)

definition refusal :: "request \<Rightarrow> response" where
  "refusal rq = fst (new_server rp_lookup rp_save rp_publish rp_now background rq empty_response
     \<lparr>rp_answers = [], rp_call = None\<rparr>)"

lemma refused_server:
  "\<not> is_events rq \<Longrightarrow> \<not> is_heartbeat rq \<Longrightarrow>
     new_server lookup save publish now background rq empty_response s = (refusal rq, s)"
  by (auto simp: is_events_def is_heartbeat_def new_server_def serve_mux_def method_matches_def Let_def
      refusal_def allow_header_def)

lemmas replay_fns = rp_now_def rp_lookup_def rp_publish_def rp_save_def ask_def

lemmas replay_steps = replay_def with_timeout_def bearer_auth_def handle_events_post_def handle_heartbeat_post_def
  read_events_def read_heartbeat_def Let_def replay_fns

lemma replay_refused: "\<not> is_events rq \<Longrightarrow> \<not> is_heartbeat rq \<Longrightarrow> replay rq as = Inr (refusal rq)"
  by (simp add: replay_def refused_server)

lemma lookup_result_cases:
  fixes r :: "bytes option result"
  obtains err where "r = Inl err" | "r = Inr None" | st where "r = Inr (Some st)"
  by (cases r) (blast, metis option.exhaust)

lemma served_cases:
  assumes "is_events rq \<or> is_heartbeat rq"
  obtains h where "\<And>s. new_server rp_lookup rp_save rp_publish rp_now background rq empty_response s =
     with_timeout rp_now (5 * gw_second) (bearer_auth rp_lookup h) background rq empty_response s"
    "\<And>ctx s. rp_call s \<noteq> None \<Longrightarrow> rp_answers s = [] \<Longrightarrow> rp_call (snd (h ctx rq empty_response s)) = rp_call s"
  using assms
proof
  assume "is_events rq"
  then show thesis
    by (rule that [OF events_server])
      (auto simp: handle_events_post_def Let_def replay_fns split: option.splits prod.splits list.splits)
next
  assume "is_heartbeat rq"
  then show thesis
    by (rule that [OF heartbeat_server])
      (auto simp: handle_heartbeat_post_def Let_def replay_fns split: option.splits prod.splits list.splits)
qed

text \<open>The next call, or the response, at every point of a served request.\<close>

lemma replay_start:
  assumes "is_events rq \<or> is_heartbeat rq"
  shows "replay rq [] = Inl CallNow"
  using assms
proof (cases rule: served_cases)
  case (1 h)
  let ?s = "\<lparr>rp_answers = [], rp_call = Some CallNow\<rparr>"
  have "rp_call (snd (bearer_auth rp_lookup h ctx rq empty_response ?s)) = Some CallNow" for ctx
    by (auto simp: bearer_auth_def rp_lookup_def ask_def split: option.split)
  then show ?thesis by (simp add: replay_def 1(1) with_timeout_def rp_now_def ask_def split: prod.split) (metis snd_conv option.simps(5))
qed

lemma replay_now:
  assumes "is_events rq \<or> is_heartbeat rq"
  shows "bearer rq = None \<Longrightarrow> replay rq [AnsNow t] = Inr (unauthorized empty_response)"
    "bearer rq = Some token \<Longrightarrow> replay rq [AnsNow t] = Inl (CallLookup (request_ctx t) token)"
proof -
  obtain h where h: "\<And>s. new_server rp_lookup rp_save rp_publish rp_now background rq empty_response s =
     with_timeout rp_now (5 * gw_second) (bearer_auth rp_lookup h) background rq empty_response s"
    by (rule served_cases [OF assms]) blast
  show "bearer rq = None \<Longrightarrow> replay rq [AnsNow t] = Inr (unauthorized empty_response)"
    "bearer rq = Some token \<Longrightarrow> replay rq [AnsNow t] = Inl (CallLookup (request_ctx t) token)"
    by (simp_all add: replay_def h with_timeout_def rp_now_def ask_def bearer_auth_def rp_lookup_def request_ctx_def
        del: cut_prefix.simps)
qed

lemma replay_lookup:
  assumes "is_events rq \<or> is_heartbeat rq" "bearer rq = Some token"
  shows "replay rq [AnsNow t, AnsLookup (Inl err)] = Inr (fail 500 ''internal'' empty_response)"
    "replay rq [AnsNow t, AnsLookup (Inr None)] = Inr (unauthorized empty_response)"
proof -
  obtain h where h: "\<And>s. new_server rp_lookup rp_save rp_publish rp_now background rq empty_response s =
     with_timeout rp_now (5 * gw_second) (bearer_auth rp_lookup h) background rq empty_response s"
    by (rule served_cases [OF assms(1)]) blast
  show "replay rq [AnsNow t, AnsLookup (Inl err)] = Inr (fail 500 ''internal'' empty_response)"
    "replay rq [AnsNow t, AnsLookup (Inr None)] = Inr (unauthorized empty_response)"
    by (simp_all add: replay_def h with_timeout_def rp_now_def ask_def bearer_auth_def rp_lookup_def assms(2)
        del: cut_prefix.simps)
qed

lemma replay_events:
  assumes "is_events rq" "bearer rq = Some token"
  shows "read_events rq = (None, w) \<Longrightarrow> replay rq [AnsNow t, AnsLookup (Inr (Some st))] = Inr w"
    "read_events rq = (Some req, w) \<Longrightarrow> replay rq [AnsNow t, AnsLookup (Inr (Some st))] = Inl CallNow"
    "read_events rq = (Some req, w) \<Longrightarrow> replay rq [AnsNow t, AnsLookup (Inr (Some st)), AnsNow t2] =
       Inl (CallPublish (station_ctx t st) st t2 (events_of req))"
    "read_events rq = (Some req, w) \<Longrightarrow> replay rq [AnsNow t, AnsLookup (Inr (Some st)), AnsNow t2, AnsPublish (Some err)] =
       Inr (fail 500 ''internal'' w)"
    "read_events rq = (Some req, w) \<Longrightarrow> replay rq [AnsNow t, AnsLookup (Inr (Some st)), AnsNow t2, AnsPublish None] =
       Inr (case events_of req of [] \<Rightarrow> w\<lparr>rs_aborted := True\<rparr> | _ \<Rightarrow> write_header 200 w)"
  by (simp_all add: replay_def events_server [OF assms(1)] with_timeout_def rp_now_def ask_def bearer_auth_def
      rp_lookup_def rp_publish_def assms(2) handle_events_post_def read_events_def Let_def station_from_def
      station_ctx_def request_ctx_def del: cut_prefix.simps split: list.splits)

lemma replay_heartbeat:
  assumes "is_heartbeat rq" "bearer rq = Some token"
  shows "read_heartbeat rq = (None, w) \<Longrightarrow> replay rq [AnsNow t, AnsLookup (Inr (Some st))] = Inr w"
    "read_heartbeat rq = (Some hb, w) \<Longrightarrow> replay rq [AnsNow t, AnsLookup (Inr (Some st))] = Inl CallNow"
    "read_heartbeat rq = (Some hb, w) \<Longrightarrow> replay rq [AnsNow t, AnsLookup (Inr (Some st)), AnsNow t2] =
       Inl (CallSave (station_ctx t st) st t2 hb)"
    "read_heartbeat rq = (Some hb, w) \<Longrightarrow> replay rq [AnsNow t, AnsLookup (Inr (Some st)), AnsNow t2, AnsSave (Some err)] =
       Inr (fail 500 ''internal'' w)"
    "read_heartbeat rq = (Some hb, w) \<Longrightarrow> replay rq [AnsNow t, AnsLookup (Inr (Some st)), AnsNow t2, AnsSave None] =
       Inl CallNow"
    "read_heartbeat rq = (Some hb, w) \<Longrightarrow>
       replay rq [AnsNow t, AnsLookup (Inr (Some st)), AnsNow t2, AnsSave None, AnsNow t3] = Inr (write_header 200 w)"
  by (simp_all add: replay_def heartbeat_server [OF assms(1)] with_timeout_def rp_now_def ask_def bearer_auth_def
      rp_lookup_def rp_save_def assms(2) handle_heartbeat_post_def read_heartbeat_def Let_def station_from_def
      station_ctx_def request_ctx_def del: cut_prefix.simps)

subsection \<open>A request on its own\<close>

definition do_call :: "string \<Rightarrow> gw_call \<Rightarrow> gworld \<Rightarrow> gw_answer \<times> gworld" where
  "do_call topic c s =
     (case c of
        CallNow \<Rightarrow> (let (t, s1) = gw_now s in (AnsNow t, s1))
      | CallLookup ctx token \<Rightarrow> (let (r, s1) = station_lookup_fn ctx token s in (AnsLookup r, s1))
      | CallPublish ctx st t es \<Rightarrow> (let (r, s1) = kafka_publish topic ctx st t es s in (AnsPublish r, s1))
      | CallSave ctx st t hb \<Rightarrow> (let (r, s1) = heartbeat_save ctx st t hb s in (AnsSave r, s1)))"

text \<open>Up to \<open>n\<close> calls, nobody in between: the answers had by then, and the response if it has come to that.\<close>

fun run_alone :: "string \<Rightarrow> nat \<Rightarrow> request \<Rightarrow> gw_answer list \<Rightarrow> gworld \<Rightarrow> (response option \<times> gw_answer list) \<times> gworld" where
  "run_alone topic n rq as s =
     (case replay rq as of
        Inr w \<Rightarrow> ((Some w, as), s)
      | Inl c \<Rightarrow>
          (case n of
             0 \<Rightarrow> ((None, as), s)
           | Suc m \<Rightarrow> (let (a, s1) = do_call topic c s in run_alone topic m rq (as @ [a]) s1)))"

declare run_alone.simps [simp del]

lemma run_alone_done [simp]: "replay rq as = Inr w \<Longrightarrow> run_alone topic n rq as s = ((Some w, as), s)"
  by (simp add: run_alone.simps)

lemma run_alone_call: "replay rq as = Inl c \<Longrightarrow> do_call topic c s = (a, s1) \<Longrightarrow>
    run_alone topic (Suc n) rq as s = run_alone topic n rq (as @ [a]) s1"
  by (simp add: run_alone.simps)

lemma do_call_simps [simp]:
  "gw_now s = (t, s1) \<Longrightarrow> do_call topic CallNow s = (AnsNow t, s1)"
  "station_lookup_fn ctx token s = (r, s1) \<Longrightarrow> do_call topic (CallLookup ctx token) s = (AnsLookup r, s1)"
  "kafka_publish topic ctx st t es s = (q, s1) \<Longrightarrow> do_call topic (CallPublish ctx st t es) s = (AnsPublish q, s1)"
  "heartbeat_save ctx st t hb s = (q, s1) \<Longrightarrow> do_call topic (CallSave ctx st t hb) s = (AnsSave q, s1)"
  by (simp_all add: do_call_def)

lemma run_alone_5: "run_alone topic 5 rq as s = run_alone topic (Suc (Suc (Suc (Suc (Suc 0))))) rq as s"
  by (simp add: numeral_eq_Suc)

lemma alone_events:
  assumes "is_events rq" "bearer rq = Some token"
    and "handle_events_post (kafka_publish topic) gw_now (station_ctx t st) rq empty_response s = (w', s')"
  shows "\<exists>as. run_alone topic (Suc (Suc (Suc 0))) rq [AnsNow t, AnsLookup (Inr (Some st))] s = ((Some w', as), s')"
proof -
  note r = replay_events [OF assms(1,2)]
  obtain v w1 where d: "read_events rq = (v, w1)" by (cases "read_events rq")
  obtain t2 s1 where n: "gw_now s = (t2, s1)" by (cases "gw_now s")
  show ?thesis
  proof (cases v)
    case None
    with assms(3) d r(1) [of w1] show ?thesis by (simp add: handle_events_post_def read_events_def)
  next
    case (Some req)
    obtain q s2 where p: "kafka_publish topic (station_ctx t st) st t2 (events_of req) s1 = (q, s2)"
      by (cases "kafka_publish topic (station_ctx t st) st t2 (events_of req) s1")
    from assms(3) d Some n p r(2-5) [of req w1] show ?thesis
      by (cases q) (simp_all add: handle_events_post_def read_events_def run_alone_call Let_def split: list.splits)
  qed
qed

lemma alone_heartbeat:
  assumes "is_heartbeat rq" "bearer rq = Some token"
    and "handle_heartbeat_post heartbeat_save gw_now (station_ctx t st) rq empty_response s = (w', s')"
  shows "\<exists>as. run_alone topic (Suc (Suc (Suc 0))) rq [AnsNow t, AnsLookup (Inr (Some st))] s = ((Some w', as), s')"
proof -
  note r = replay_heartbeat [OF assms(1,2)]
  obtain v w1 where d: "read_heartbeat rq = (v, w1)" by (cases "read_heartbeat rq")
  obtain t2 s1 where n: "gw_now s = (t2, s1)" by (cases "gw_now s")
  show ?thesis
  proof (cases v)
    case None
    with assms(3) d r(1) [of w1] show ?thesis by (simp add: handle_heartbeat_post_def read_heartbeat_def)
  next
    case (Some hb)
    obtain q s2 where p: "heartbeat_save (station_ctx t st) st t2 hb s1 = (q, s2)"
      by (cases "heartbeat_save (station_ctx t st) st t2 hb s1")
    obtain t3 s3 where n3: "gw_now s2 = (t3, s3)" by (cases "gw_now s2")
    from assms(3) d Some n p n3 r(2-6) [of hb w1] show ?thesis
      by (cases q) (simp_all add: handle_heartbeat_post_def read_heartbeat_def run_alone_call Let_def)
  qed
qed

lemma alone_served:
  assumes "is_events rq \<or> is_heartbeat rq"
    and "bearer_auth station_lookup_fn h (request_ctx t) rq empty_response s = (w', s')"
    and "\<And>token st s1. bearer rq = Some token \<Longrightarrow> h (station_ctx t st) rq empty_response s1 = (w', s') \<Longrightarrow>
      \<exists>as. run_alone topic (Suc (Suc (Suc 0))) rq [AnsNow t, AnsLookup (Inr (Some st))] s1 = ((Some w', as), s')"
  shows "\<exists>as. run_alone topic (Suc (Suc (Suc (Suc 0)))) rq [AnsNow t] s = ((Some w', as), s')"
proof (cases "bearer rq")
  case None
  with assms(2) replay_now(1) [OF assms(1) None] show ?thesis by (simp add: bearer_auth_def del: cut_prefix.simps)
next
  case (Some token)
  note l = replay_lookup [OF assms(1) Some] and c = replay_now(2) [OF assms(1) Some]
  obtain r s1 where s1: "station_lookup_fn (request_ctx t) token s = (r, s1)"
    by (cases "station_lookup_fn (request_ctx t) token s")
  have step: "run_alone topic (Suc (Suc (Suc (Suc 0)))) rq [AnsNow t] s =
      run_alone topic (Suc (Suc (Suc 0))) rq [AnsNow t, AnsLookup r] s1"
    using run_alone_call [OF c do_call_simps(2) [OF s1]] by simp
  show ?thesis
  proof (cases r rule: lookup_result_cases)
    case (3 st)
    with assms(2) Some s1 have "h (station_ctx t st) rq empty_response s1 = (w', s')"
      by (simp add: bearer_auth_def station_ctx_def del: cut_prefix.simps)
    with assms(3) [OF Some] 3 show ?thesis unfolding step by blast
  qed (use assms(2) Some s1 l step in \<open>simp_all add: bearer_auth_def del: cut_prefix.simps\<close>)
qed

text \<open>A request that is served with nobody in between makes at most five calls and is \<open>gw_serve\<close>.\<close>

theorem run_alone_serves:
  "\<exists>as. run_alone topic 5 rq [] s = ((Some (fst (gw_serve topic rq s)), as), snd (gw_serve topic rq s))"
proof -
  obtain w' s' where g: "gw_serve topic rq s = (w', s')" by (cases "gw_serve topic rq s")
  obtain t s1 where n: "gw_now s = (t, s1)" by (cases "gw_now s")
  have start: "run_alone topic 5 rq [] s = run_alone topic (Suc (Suc (Suc (Suc 0)))) rq [AnsNow t] s1"
    if "is_events rq \<or> is_heartbeat rq"
    unfolding run_alone_5 using run_alone_call [OF replay_start [OF that] do_call_simps(1) [OF n]] by simp
  consider "is_events rq" | "is_heartbeat rq" | "\<not> is_events rq" "\<not> is_heartbeat rq" by blast
  then show ?thesis
  proof cases
    case 1
    with g n have "bearer_auth station_lookup_fn (handle_events_post (kafka_publish topic) gw_now) (request_ctx t) rq
        empty_response s1 = (w', s')"
      by (simp add: gw_serve_def events_server with_timeout_def request_ctx_def)
    from alone_served [OF disjI1 [OF 1] this alone_events [OF 1]] start 1 g show ?thesis by simp
  next
    case 2
    with g n have "bearer_auth station_lookup_fn (handle_heartbeat_post heartbeat_save gw_now) (request_ctx t) rq
        empty_response s1 = (w', s')"
      by (simp add: gw_serve_def heartbeat_server with_timeout_def request_ctx_def)
    from alone_served [OF disjI2 [OF 2] this alone_heartbeat [OF 2]] start 2 g show ?thesis by simp
  next
    case 3
    with g replay_refused [OF 3] show ?thesis by (simp add: gw_serve_def refused_server)
  qed
qed

end
