(* ===== verification/Gateway_Concurrent.thy ===== *)
theory Gateway_Concurrent
  imports Gateway_Replay
begin

section \<open>Requests served at the same time\<close>

text \<open>
  The public server under load: requests arrive at any time, each is served by its own goroutine, and their
  calls interleave in any order, with tokens and stations changing underneath. A batch that is being
  produced reaches the log record by record, between the records of others; a produce call that fails may
  still deliver records after its request was answered. What was shown of a request on its own is shown
  here of every such run.
\<close>

subsection \<open>The system\<close>

text \<open>
  A goroutine has its request, the answers to the calls it has made, the records of its batch on their way
  to the broker and the outcome of the produce call it waits for. Ghosts: \<open>th_seen\<close> is the world its token
  was looked up in, \<open>sy_log\<close> says which goroutine appended which record.
\<close>

record gthread =
  th_rq :: request
  th_answers :: "gw_answer list"
  th_flight :: "krecord list"
  th_waiting :: "gerror option option"
  th_seen :: "gworld option"

record gsystem =
  sy_world :: gworld
  sy_threads :: "gthread list"
  sy_log :: "(nat \<times> krecord) list"

definition new_thread :: "request \<Rightarrow> gthread" where
  "new_thread rq = \<lparr>th_rq = rq, th_answers = [], th_flight = [], th_waiting = None, th_seen = None\<rparr>"

fun is_publish :: "gw_call \<Rightarrow> bool" where
  "is_publish (CallPublish ctx st t es) = True"
| "is_publish _ = False"

fun is_lookup :: "gw_call \<Rightarrow> bool" where
  "is_lookup (CallLookup ctx token) = True"
| "is_lookup _ = False"

inductive serve_step :: "string \<Rightarrow> gsystem \<Rightarrow> gsystem \<Rightarrow> bool" for topic where
  calls: "i < length (sy_threads g) \<Longrightarrow> th = sy_threads g ! i \<Longrightarrow> th_waiting th = None \<Longrightarrow>
    replay (th_rq th) (th_answers th) = Inl c \<Longrightarrow> \<not> is_publish c \<Longrightarrow> do_call topic c (sy_world g) = (a, s1) \<Longrightarrow>
    serve_step topic g (g\<lparr>sy_world := s1,
      sy_threads := (sy_threads g)[i := th\<lparr>th_answers := th_answers th @ [a],
        th_seen := (if is_lookup c then Some (sy_world g) else th_seen th)\<rparr>]\<rparr>)"
| produces: "i < length (sy_threads g) \<Longrightarrow> th = sy_threads g ! i \<Longrightarrow> th_waiting th = None \<Longrightarrow>
    replay (th_rq th) (th_answers th) = Inl (CallPublish ctx st t es) \<Longrightarrow>
    kafka_publish topic ctx st t es (sy_world g) = (q, s1) \<Longrightarrow>
    serve_step topic g (g\<lparr>sy_world := s1\<lparr>gw_log := gw_log (sy_world g)\<rparr>,
      sy_threads := (sy_threads g)[i := th\<lparr>th_flight := drop (length (gw_log (sy_world g))) (gw_log s1),
        th_waiting := Some q\<rparr>]\<rparr>)"
| appends: "i < length (sy_threads g) \<Longrightarrow> th = sy_threads g ! i \<Longrightarrow> th_flight th = rec # recs \<Longrightarrow>
    serve_step topic g (g\<lparr>sy_world := (sy_world g)\<lparr>gw_log := gw_log (sy_world g) @ [rec]\<rparr>,
      sy_threads := (sy_threads g)[i := th\<lparr>th_flight := recs\<rparr>],
      sy_log := sy_log g @ [(i, rec)]\<rparr>)"
| answers: "i < length (sy_threads g) \<Longrightarrow> th = sy_threads g ! i \<Longrightarrow> th_waiting th = Some q \<Longrightarrow>
    q = None \<Longrightarrow> th_flight th = [] \<Longrightarrow>
    serve_step topic g (g\<lparr>sy_threads := (sy_threads g)[i := th\<lparr>th_waiting := None,
      th_answers := th_answers th @ [AnsPublish q]\<rparr>]\<rparr>)"
| gives_up: "i < length (sy_threads g) \<Longrightarrow> th = sy_threads g ! i \<Longrightarrow> th_waiting th = Some q \<Longrightarrow> q \<noteq> None \<Longrightarrow>
    serve_step topic g (g\<lparr>sy_threads := (sy_threads g)[i := th\<lparr>th_waiting := None,
      th_answers := th_answers th @ [AnsPublish q]\<rparr>]\<rparr>)"

text \<open>
  The surroundings: a request arrives; somebody changes the stations and their tokens, within the foreign
  key of the heartbeats and the format of station ids.
\<close>

inductive env_step :: "gsystem \<Rightarrow> gsystem \<Rightarrow> bool" where
  arrives: "env_step g (g\<lparr>sy_threads := sy_threads g @ [new_thread rq]\<rparr>)"
| provisions: "list_all (\<lambda>n. valid_utf8 (sn_id n) \<and> sn_id n \<noteq> []) ns \<Longrightarrow>
    list_all (\<lambda>k. fst k \<in> sn_id ` set ns) (map fst (gw_heartbeats (sy_world g))) \<Longrightarrow>
    env_step g (g\<lparr>sy_world := (sy_world g)\<lparr>gw_tokens := ts, gw_stations := ns\<rparr>\<rparr>)"

definition system_start :: "gworld \<Rightarrow> gsystem" where
  "system_start s = \<lparr>sy_world = s, sy_threads = [], sy_log = []\<rparr>"

inductive gsys_reach :: "string \<Rightarrow> gworld \<Rightarrow> gsystem \<Rightarrow> bool" for topic s where
  sys_start: "gsys_reach topic s (system_start s)"
| sys_serve: "gsys_reach topic s g \<Longrightarrow> serve_step topic g g' \<Longrightarrow> gsys_reach topic s g'"
| sys_env: "gsys_reach topic s g \<Longrightarrow> env_step g g' \<Longrightarrow> gsys_reach topic s g'"

text \<open>The response of a goroutine that has come to it, and the records it has appended.\<close>

definition responded :: "gthread \<Rightarrow> response option" where
  "responded th = (case replay (th_rq th) (th_answers th) of Inl _ \<Rightarrow> None | Inr w \<Rightarrow> Some w)"

lemma responded_Some: "responded th = Some w \<longleftrightarrow> replay (th_rq th) (th_answers th) = Inr w"
  by (simp add: responded_def split: sum.split)

definition records_of :: "nat \<Rightarrow> gsystem \<Rightarrow> krecord list" where
  "records_of i g = map snd (filter (\<lambda>p. fst p = i) (sy_log g))"

subsection \<open>Where a goroutine can be\<close>

text \<open>\<open>v\<close> is the world the token was looked up in; a world in which the answers make sense.\<close>

definition admitted :: "request \<Rightarrow> gworld \<Rightarrow> bytes \<Rightarrow> bool" where
  "admitted rq v st \<longleftrightarrow> gw_good v \<and> (\<exists>token. bearer rq = Some token \<and> gw_authorizes v token st)"

text \<open>What a produce call for the events \<open>es\<close> of a station brings to the log when its outcome is \<open>q\<close>.\<close>

definition produced_ok :: "string \<Rightarrow> bytes \<Rightarrow> gtime \<Rightarrow> gw_event list \<Rightarrow> gerror option \<Rightarrow> krecord list \<Rightarrow> bool" where
  "produced_ok topic st t es q recs \<longleftrightarrow>
     (\<forall>rec \<in> set recs. kr_key rec = st \<and> kr_topic rec = topic) \<and>
     (q = None \<longrightarrow> map_result (event_record topic st t) es = Inr recs)"

inductive th_ok ::
  "string \<Rightarrow> request \<Rightarrow> gw_answer list \<Rightarrow> gerror option option \<Rightarrow> gworld option \<Rightarrow> krecord list \<Rightarrow> bool"
  for topic rq where
  ok_start: "th_ok topic rq [] None None []"
| ok_now: "is_events rq \<or> is_heartbeat rq \<Longrightarrow> th_ok topic rq [AnsNow t] None None []"
| ok_lookup: "is_events rq \<or> is_heartbeat rq \<Longrightarrow> bearer rq = Some token \<Longrightarrow>
    (\<And>st. r = Inr (Some st) \<Longrightarrow> admitted rq v st) \<Longrightarrow> th_ok topic rq [AnsNow t, AnsLookup r] None (Some v) []"
| ok_events: "is_events rq \<Longrightarrow> admitted rq v st \<Longrightarrow> read_events rq = (Some req, w) \<Longrightarrow> json_time t2 \<Longrightarrow>
    th_ok topic rq [AnsNow t, AnsLookup (Inr (Some st)), AnsNow t2] None (Some v) []"
| ok_producing: "is_events rq \<Longrightarrow> admitted rq v st \<Longrightarrow> read_events rq = (Some req, w) \<Longrightarrow> json_time t2 \<Longrightarrow>
    produced_ok topic st t2 (events_of req) q recs \<Longrightarrow>
    th_ok topic rq [AnsNow t, AnsLookup (Inr (Some st)), AnsNow t2] (Some q) (Some v) recs"
| ok_published: "is_events rq \<Longrightarrow> admitted rq v st \<Longrightarrow> read_events rq = (Some req, w) \<Longrightarrow> json_time t2 \<Longrightarrow>
    produced_ok topic st t2 (events_of req) q recs \<Longrightarrow>
    th_ok topic rq [AnsNow t, AnsLookup (Inr (Some st)), AnsNow t2, AnsPublish q] None (Some v) recs"
| ok_heartbeat: "is_heartbeat rq \<Longrightarrow> admitted rq v st \<Longrightarrow> read_heartbeat rq = (Some hb, w) \<Longrightarrow>
    th_ok topic rq [AnsNow t, AnsLookup (Inr (Some st)), AnsNow t2] None (Some v) []"
| ok_saved: "is_heartbeat rq \<Longrightarrow> admitted rq v st \<Longrightarrow> read_heartbeat rq = (Some hb, w) \<Longrightarrow>
    th_ok topic rq [AnsNow t, AnsLookup (Inr (Some st)), AnsNow t2, AnsSave q] None (Some v) []"
| ok_done: "is_heartbeat rq \<Longrightarrow> admitted rq v st \<Longrightarrow> read_heartbeat rq = (Some hb, w) \<Longrightarrow>
    th_ok topic rq [AnsNow t, AnsLookup (Inr (Some st)), AnsNow t2, AnsSave None, AnsNow t3] None (Some v) []"

lemma admittedD: "admitted rq v st \<Longrightarrow> \<exists>token. bearer rq = Some token"
  by (auto simp: admitted_def)

text \<open>The next call, read off the position.\<close>

lemma ok_next_call:
  assumes "th_ok topic rq as None seen recs" "replay rq as = Inl c"
  obtains (at_start) "as = []" "c = CallNow" "seen = None" "recs = []" "is_events rq \<or> is_heartbeat rq"
  | (at_now) t token where "as = [AnsNow t]" "c = CallLookup (request_ctx t) token" "bearer rq = Some token"
      "seen = None" "recs = []" "is_events rq \<or> is_heartbeat rq"
  | (at_events) t st v req w where "as = [AnsNow t, AnsLookup (Inr (Some st))]" "c = CallNow" "seen = Some v"
      "is_events rq" "admitted rq v st" "read_events rq = (Some req, w)" "recs = []"
  | (at_publish) t st v req w t2 where "as = [AnsNow t, AnsLookup (Inr (Some st)), AnsNow t2]" "seen = Some v"
      "c = CallPublish (station_ctx t st) st t2 (events_of req)" "is_events rq" "admitted rq v st"
      "read_events rq = (Some req, w)" "json_time t2" "recs = []"
  | (at_heartbeat) t st v hb w where "as = [AnsNow t, AnsLookup (Inr (Some st))]" "c = CallNow" "seen = Some v"
      "is_heartbeat rq" "admitted rq v st" "read_heartbeat rq = (Some hb, w)" "recs = []"
  | (at_save) t st v hb w t2 where "as = [AnsNow t, AnsLookup (Inr (Some st)), AnsNow t2]" "seen = Some v"
      "c = CallSave (station_ctx t st) st t2 hb" "is_heartbeat rq" "admitted rq v st"
      "read_heartbeat rq = (Some hb, w)" "recs = []"
  | (at_latency) t st v hb w t2 where "as = [AnsNow t, AnsLookup (Inr (Some st)), AnsNow t2, AnsSave None]"
      "c = CallNow" "seen = Some v" "is_heartbeat rq" "admitted rq v st" "read_heartbeat rq = (Some hb, w)" "recs = []"
  using assms(1)
proof cases
  case ok_start
  show thesis
  proof (cases "is_events rq \<or> is_heartbeat rq")
    case True
    from replay_start [OF True] assms(2) ok_start True at_start show thesis by simp
  next
    case False
    with replay_refused [of rq as] assms(2) show thesis by simp
  qed
next
  case (ok_now t)
  with replay_now [OF ok_now(4)] assms(2) at_now show thesis by (cases "bearer rq") auto
next
  case (ok_lookup token r v t)
  note l = replay_lookup [OF ok_lookup(4,5)]
  show thesis
  proof (cases r rule: lookup_result_cases)
    case r: (3 st)
    show thesis
    proof (cases "is_events rq")
      case True
      obtain v' w where d: "read_events rq = (v', w)" by (cases "read_events rq")
      with replay_events(1,2) [OF True ok_lookup(5)] ok_lookup(1-3) assms(2) r True ok_lookup(6) [OF r] at_events
      show thesis by (cases v') auto
    next
      case False
      with ok_lookup(4) have h: "is_heartbeat rq" by blast
      obtain v' w where d: "read_heartbeat rq = (v', w)" by (cases "read_heartbeat rq")
      with replay_heartbeat(1,2) [OF h ok_lookup(5)] ok_lookup(1-3) assms(2) r h ok_lookup(6) [OF r] at_heartbeat
      show thesis by (cases v') auto
    qed
  qed (use l ok_lookup(1) assms(2) in auto)
next
  case (ok_events v st req w t2 t)
  obtain token where "bearer rq = Some token" using admittedD [OF ok_events(5)] by blast
  from replay_events(3) [OF ok_events(4) this ok_events(6)] ok_events(1) assms(2)
  have "c = CallPublish (station_ctx t st) st t2 (events_of req)" by simp
  from at_publish [OF ok_events(1,2) this ok_events(4-7,3)] show thesis .
next
  case (ok_published v st req w t2 q t)
  obtain token where t: "bearer rq = Some token" using admittedD [OF ok_published(4)] by blast
  from replay_events(4,5) [OF ok_published(3) t ok_published(5)] ok_published(1) assms(2) show thesis by (cases q) auto
next
  case (ok_heartbeat v st hb w t t2)
  obtain token where "bearer rq = Some token" using admittedD [OF ok_heartbeat(5)] by blast
  from replay_heartbeat(3) [OF ok_heartbeat(4) this ok_heartbeat(6)] ok_heartbeat(1) assms(2)
  have "c = CallSave (station_ctx t st) st t2 hb" by simp
  from at_save [OF ok_heartbeat(1,2) this ok_heartbeat(4-6,3)] show thesis .
next
  case (ok_saved v st hb w t t2 q)
  obtain token where t: "bearer rq = Some token" using admittedD [OF ok_saved(5)] by blast
  show thesis
  proof (cases q)
    case None
    with replay_heartbeat(5) [OF ok_saved(4) t ok_saved(6)] ok_saved(1) assms(2) have "c = CallNow" by simp
    from at_latency [OF ok_saved(1) [unfolded None] this ok_saved(2,4-6,3)] show thesis .
  next
    case (Some err)
    with replay_heartbeat(4) [OF ok_saved(4) t ok_saved(6)] ok_saved(1) assms(2) show thesis by simp
  qed
next
  case (ok_done v st hb w t t2 t3)
  obtain token where t: "bearer rq = Some token" using admittedD [OF ok_done(5)] by blast
  from replay_heartbeat(6) [OF ok_done(4) t ok_done(6)] ok_done(1) assms(2) show thesis by simp
qed

text \<open>Each step takes a goroutine from one position to another.\<close>

lemma ok_call:
  assumes "th_ok topic rq as None seen recs" "replay rq as = Inl c" "\<not> is_publish c" "do_call topic' c s = (a, s1)" "gw_good s"
  shows "th_ok topic rq (as @ [a]) None (if is_lookup c then Some s else seen) recs"
  using assms(1,2)
proof (cases rule: ok_next_call)
  case at_start
  with assms(4) show ?thesis by (auto simp: do_call_def split: prod.splits intro: ok_now)
next
  case (at_now t token)
  obtain r where l: "station_lookup_fn (request_ctx t) token s = (r, s1)" "a = AnsLookup r"
    using assms(4) at_now by (auto simp: do_call_def split: prod.splits)
  have "admitted rq s st" if "r = Inr (Some st)" for st
    using l(1) that assms(5) at_now stations.lookup_sound by (auto simp: admitted_def)
  with at_now l(2) show ?thesis by (auto intro: ok_lookup)
next
  case (at_events t st v req w)
  obtain t2 where n: "gw_now s = (t2, s1)" "a = AnsNow t2"
    using assms(4) at_events by (auto simp: do_call_def split: prod.splits)
  with at_events api.now_good [OF n(1) assms(5)] show ?thesis by (auto intro: ok_events)
next
  case (at_publish t st v req w t2)
  with assms(3) show ?thesis by simp
next
  case (at_heartbeat t st v hb w)
  with assms(4) show ?thesis by (auto simp: do_call_def split: prod.splits intro: ok_heartbeat)
next
  case (at_save t st v hb w t2)
  with assms(4) show ?thesis by (auto simp: do_call_def split: prod.splits intro: ok_saved)
next
  case (at_latency t st v hb w t2)
  with assms(4) show ?thesis by (auto simp: do_call_def split: prod.splits intro: ok_done)
qed

lemma kafka_publish_produced:
  assumes "kafka_publish topic ctx st t es s = (q, s1)"
  shows "gw_log s1 = gw_log s @ drop (length (gw_log s)) (gw_log s1) \<and>
    produced_ok topic st t es q (drop (length (gw_log s)) (gw_log s1))"
proof -
  obtain recs where recs: "gw_log s1 = gw_log s @ recs" "\<forall>rec \<in> set recs. kr_key rec = st \<and> kr_topic rec = topic"
    using publisher.publish_some [OF assms] by blast
  moreover have "q = None \<Longrightarrow> map_result (event_record topic st t) es = Inr recs"
    using publisher.publish_ok [of topic ctx st t es s s1] assms recs(1) by auto
  ultimately show ?thesis by (simp add: produced_ok_def)
qed

lemma ok_publish:
  assumes "th_ok topic rq as None seen recs" "replay rq as = Inl (CallPublish ctx st t es)"
    and "kafka_publish topic ctx st t es s = (q, s1)"
  shows "th_ok topic rq as (Some q) seen (drop (length (gw_log s)) (gw_log s1))" "recs = []"
  using assms(1,2)
proof (atomize (full), cases rule: ok_next_call)
  case (at_publish t' st' v req w t2)
  with kafka_publish_produced [OF assms(3)] show
    "th_ok topic rq as (Some q) seen (drop (length (gw_log s)) (gw_log s1)) \<and> recs = []"
    by (auto intro: ok_producing)
qed auto

lemma ok_answer: "th_ok topic rq as (Some q) seen recs \<Longrightarrow> th_ok topic rq (as @ [AnsPublish q]) None seen recs"
  by (erule th_ok.cases) (auto intro: ok_published)

lemma ok_waiting: "th_ok topic rq as (Some q) seen recs \<Longrightarrow> length as = 3"
  by (erule th_ok.cases) auto

lemma ok_length: "th_ok topic rq as wt seen recs \<Longrightarrow> length as \<le> 5"
  by (erule th_ok.cases) auto

lemma ok_publish_last: "th_ok topic rq as wt seen recs \<Longrightarrow> AnsPublish q \<in> set as \<Longrightarrow> wt = None \<and> last as = AnsPublish q"
  by (erule th_ok.cases) auto

subsection \<open>What holds in every run\<close>

lemma do_call_frame:
  assumes "do_call topic c s = (a, s1)"
  shows "\<exists>ctx n. gw_frame ctx n s s1"
  using assms gw_now_gw_frame lookup_gw_frame publish_gw_frame save_gw_frame
  by (cases c) (fastforce simp: do_call_def split: prod.splits)+

lemma do_call_log:
  assumes "do_call topic c s = (a, s1)" "\<not> is_publish c"
  shows "gw_log s1 = gw_log s"
  using assms gw_now_frame(1) station_lookup_frame(1) saver.save_frame
  by (cases c) (auto simp: do_call_def split: prod.splits)

lemma do_call_saved:
  assumes "do_call topic c s = (a, s1)" "gw_saved s1 k" "\<not> gw_saved s k"
  obtains ctx st t hb where "c = CallSave ctx st t hb" "fst k = st"
proof (cases c)
  case CallNow
  with assms gw_now_frame(2) [of s] show thesis by (auto simp: do_call_def gw_saved_def split: prod.splits)
next
  case (CallLookup ctx token)
  with assms station_lookup_frame(2) [of ctx token s] show thesis by (auto simp: do_call_def gw_saved_def split: prod.splits)
next
  case (CallPublish ctx st t es)
  with assms publisher.publish_frame show thesis by (auto simp: do_call_def split: prod.splits)
next
  case (CallSave ctx st t hb)
  with assms saver.save_only [of ctx st t hb s] that show thesis by (auto simp: do_call_def split: prod.splits)
qed

definition thread_ok :: "string \<Rightarrow> gthread \<Rightarrow> krecord list \<Rightarrow> bool" where
  "thread_ok topic th recs \<longleftrightarrow>
     th_ok topic (th_rq th) (th_answers th) (th_waiting th) (th_seen th) (recs @ th_flight th) \<and>
     (AnsPublish None \<in> set (th_answers th) \<longrightarrow> th_flight th = [])"

text \<open>Some goroutine was admitted for the station \<open>st\<close>.\<close>

definition admitted_for :: "gthread list \<Rightarrow> bytes \<Rightarrow> bool" where
  "admitted_for ths st \<longleftrightarrow> (\<exists>th \<in> set ths. \<exists>v. th_seen th = Some v \<and> admitted (th_rq th) v st)"

definition sys_inv :: "string \<Rightarrow> gworld \<Rightarrow> gsystem \<Rightarrow> bool" where
  "sys_inv topic s g \<longleftrightarrow> gw_good (sy_world g) \<and>
     gw_log (sy_world g) = gw_log s @ map snd (sy_log g) \<and>
     (\<forall>p \<in> set (sy_log g). fst p < length (sy_threads g)) \<and>
     (\<forall>i < length (sy_threads g). thread_ok topic (sy_threads g ! i) (records_of i g)) \<and>
     (\<forall>k. gw_saved (sy_world g) k \<longrightarrow> gw_saved s k \<or> admitted_for (sy_threads g) (fst k))"

lemma records_of_simps [simp]:
  "records_of i (g\<lparr>sy_world := s\<rparr>) = records_of i g" "records_of i (g\<lparr>sy_threads := ths\<rparr>) = records_of i g"
  "records_of i (g\<lparr>sy_log := sy_log g @ [(j, rec)]\<rparr>) = records_of i g @ (if i = j then [rec] else [])"
  by (auto simp: records_of_def)

lemma records_of_none: "\<forall>p \<in> set (sy_log g). fst p < n \<Longrightarrow> records_of n g = []"
  unfolding records_of_def by (induction "sy_log g") (auto simp: filter_empty_conv)

text \<open>A step of one goroutine that keeps its station leaves the others as they are.\<close>

lemma admitted_for_update:
  assumes "admitted_for ths st" "th_rq th = th_rq (ths ! i)" "th_seen (ths ! i) \<noteq> None \<longrightarrow> th_seen th = th_seen (ths ! i)"
  shows "admitted_for (ths[i := th]) st"
proof -
  obtain j v where j: "j < length ths" "th_seen (ths ! j) = Some v" "admitted (th_rq (ths ! j)) v st"
    using assms(1) by (auto simp: admitted_for_def in_set_conv_nth)
  then have "th_seen (ths[i := th] ! j) = Some v \<and> admitted (th_rq (ths[i := th] ! j)) v st"
    using assms(2,3) by (cases "i = j") auto
  with j(1) show ?thesis unfolding admitted_for_def by (metis length_list_update nth_mem)
qed

lemma sys_inv_update:
  assumes "sys_inv topic s g" "i < length (sy_threads g)" "th_rq th = th_rq (sy_threads g ! i)"
    and "th_seen (sy_threads g ! i) \<noteq> None \<longrightarrow> th_seen th = th_seen (sy_threads g ! i)"
    and "gw_good s1" "gw_log s1 = gw_log (sy_world g)"
    and "thread_ok topic th (records_of i g)"
    and "\<And>k. gw_saved s1 k \<Longrightarrow> \<not> gw_saved (sy_world g) k \<Longrightarrow> admitted_for ((sy_threads g)[i := th]) (fst k)"
  shows "sys_inv topic s (g\<lparr>sy_world := s1, sy_threads := (sy_threads g)[i := th]\<rparr>)"
proof -
  have "gw_saved s k \<or> admitted_for ((sy_threads g)[i := th]) (fst k)" if "gw_saved s1 k" for k
    using that assms(1,8) admitted_for_update [OF _ assms(3,4)] unfolding sys_inv_def by blast
  moreover have "thread_ok topic ((sy_threads g)[i := th] ! j) (records_of j g)" if "j < length (sy_threads g)" for j
    using that assms(1,2,7) by (cases "i = j") (auto simp: sys_inv_def)
  ultimately show ?thesis using assms(1,5,6) by (simp add: sys_inv_def)
qed

lemma thread_answers:
  assumes "thread_ok topic th recs" "th_waiting th = Some q" "q = None \<Longrightarrow> th_flight th = []"
  shows "thread_ok topic (th\<lparr>th_waiting := None, th_answers := th_answers th @ [AnsPublish q]\<rparr>) recs"
  using assms ok_answer [of topic "th_rq th" "th_answers th" q] by (auto simp: thread_ok_def)

lemma serve_step_inv:
  assumes "serve_step topic g g'" "sys_inv topic s g"
  shows "sys_inv topic s g'"
  using assms(1)
proof cases
  case (calls i th c a s1)
  have ok: "th_ok topic (th_rq th) (th_answers th) None (th_seen th) (records_of i g @ th_flight th)" "gw_good (sy_world g)"
    and fl: "AnsPublish None \<in> set (th_answers th) \<longrightarrow> th_flight th = []"
    using assms(2) calls(2-4) by (auto simp: sys_inv_def thread_ok_def)
  have seen: "th_seen th \<noteq> None \<Longrightarrow> \<not> is_lookup c"
    using ok_next_call [OF ok(1) calls(5)] by (cases rule: ok_next_call [OF ok(1) calls(5)]) auto
  have good: "gw_good s1" using do_call_frame [OF calls(7)] gw_good_frame ok(2) by blast
  have a: "a \<noteq> AnsPublish None" using calls(6,7) by (cases c) (auto simp: do_call_def split: prod.splits)
  let ?th = "th\<lparr>th_answers := th_answers th @ [a], th_seen := (if is_lookup c then Some (sy_world g) else th_seen th)\<rparr>"
  have th: "thread_ok topic ?th (records_of i g)"
    using ok_call [OF ok(1) calls(5-7) ok(2)] fl a calls(4) by (auto simp: thread_ok_def)
  have "admitted_for ((sy_threads g)[i := ?th]) (fst k)" if k: "gw_saved s1 k" "\<not> gw_saved (sy_world g) k" for k
  proof -
    obtain ctx st t hb where c: "c = CallSave ctx st t hb" "fst k = st" by (rule do_call_saved [OF calls(7) k])
    from ok(1) calls(5) obtain v where "th_seen th = Some v" "admitted (th_rq th) v st"
      by (cases rule: ok_next_call) (auto simp: c)
    then show ?thesis using calls(2) c unfolding admitted_for_def
      by (intro bexI [of _ ?th]) (auto simp: set_update_memI)
  qed
  from sys_inv_update [OF assms(2) calls(2) _ _ good do_call_log [OF calls(7,6)] th this] seen calls(1,3)
  show ?thesis by auto
next
  case (produces i th ctx st t es q s1)
  have ok: "th_ok topic (th_rq th) (th_answers th) None (th_seen th) (records_of i g @ th_flight th)" "gw_good (sy_world g)"
    and fl: "AnsPublish None \<in> set (th_answers th) \<longrightarrow> th_flight th = []"
    using assms(2) produces(2-4) by (auto simp: sys_inv_def thread_ok_def)
  have "gw_good s1" using publish_gw_frame [OF produces(6)] gw_good_frame ok(2) by blast
  then have good: "gw_good (s1\<lparr>gw_log := gw_log (sy_world g)\<rparr>)" by (simp add: gw_good_def)
  have th: "thread_ok topic (th\<lparr>th_flight := drop (length (gw_log (sy_world g))) (gw_log s1), th_waiting := Some q\<rparr>) (records_of i g)"
    using ok_publish [OF ok(1) produces(5,6)] ok_publish_last [OF ok_publish(1) [OF ok(1) produces(5,6)], of None]
    by (auto simp: thread_ok_def)
  have "gw_saved (s1\<lparr>gw_log := gw_log (sy_world g)\<rparr>) = gw_saved (sy_world g)"
    using publisher.publish_frame [OF produces(6)] by (simp add: gw_saved_def fun_eq_iff)
  with sys_inv_update [OF assms(2) produces(2) _ _ good _ th] produces(1,3) show ?thesis by auto
next
  case (appends i th rec recs)
  let ?th = "th\<lparr>th_flight := recs\<rparr>"
  have old: "thread_ok topic th (records_of i g)" using assms(2) appends(2,3) by (simp add: sys_inv_def)
  then have th: "thread_ok topic ?th (records_of i g @ [rec])" using appends(4) by (auto simp: thread_ok_def)
  have g': "records_of j g' = records_of j g @ (if j = i then [rec] else [])" for j
    by (simp add: appends(1) records_of_def)
  have ths: "sy_threads g' = (sy_threads g)[i := ?th]" by (simp add: appends(1))
  have "thread_ok topic (sy_threads g' ! j) (records_of j g')" if "j < length (sy_threads g')" for j
    using that assms(2) th appends(2) by (cases "j = i") (auto simp: sys_inv_def g' ths)
  moreover have "admitted_for (sy_threads g') st" if "admitted_for (sy_threads g) st" for st
    using admitted_for_update [OF that, of ?th i] appends(1,3) by simp
  moreover have "gw_good (sy_world g')" "gw_saved (sy_world g') = gw_saved (sy_world g)"
    using assms(2) by (simp_all add: appends(1) sys_inv_def gw_good_def gw_saved_def fun_eq_iff)
  moreover have "gw_log (sy_world g') = gw_log s @ map snd (sy_log g')" "\<forall>p \<in> set (sy_log g'). fst p < length (sy_threads g')"
    using assms(2) appends(2) by (auto simp: appends(1) sys_inv_def)
  ultimately show ?thesis using assms(2) unfolding sys_inv_def by metis
next
  case (answers i th q)
  have "thread_ok topic th (records_of i g)" using assms(2) answers(2,3) by (simp add: sys_inv_def)
  from thread_answers [OF this answers(4)] answers(5,6)
  have "thread_ok topic (th\<lparr>th_waiting := None, th_answers := th_answers th @ [AnsPublish q]\<rparr>) (records_of i g)" by blast
  from sys_inv_update [OF assms(2) answers(2) _ _ _ _ this, of "sy_world g"] assms(2) answers(1,3) show ?thesis
    by (auto simp: sys_inv_def)
next
  case (gives_up i th q)
  have "thread_ok topic th (records_of i g)" using assms(2) gives_up(2,3) by (simp add: sys_inv_def)
  from thread_answers [OF this gives_up(4)] gives_up(5)
  have "thread_ok topic (th\<lparr>th_waiting := None, th_answers := th_answers th @ [AnsPublish q]\<rparr>) (records_of i g)" by blast
  from sys_inv_update [OF assms(2) gives_up(2) _ _ _ _ this, of "sy_world g"] assms(2) gives_up(1,3) show ?thesis
    by (auto simp: sys_inv_def)
qed

lemma env_step_inv:
  assumes "env_step g g'" "sys_inv topic s g"
  shows "sys_inv topic s g'"
  using assms(1)
proof cases
  case (arrives rq)
  have "thread_ok topic (sy_threads g' ! i) (records_of i g')" if "i < length (sy_threads g')" for i
  proof (cases "i < length (sy_threads g)")
    case True
    then show ?thesis using assms(2) by (simp add: arrives sys_inv_def nth_append)
  next
    case False
    with that have "i = length (sy_threads g)" by (simp add: arrives)
    moreover have "records_of (length (sy_threads g)) g = []" using assms(2) records_of_none by (simp add: sys_inv_def)
    ultimately show ?thesis by (simp add: arrives thread_ok_def new_thread_def ok_start)
  qed
  moreover have "admitted_for (sy_threads g') st" if "admitted_for (sy_threads g) st" for st
    using that by (auto simp: arrives admitted_for_def)
  moreover have "gw_good (sy_world g')" "gw_log (sy_world g') = gw_log s @ map snd (sy_log g')"
    "sy_world g' = sy_world g" "\<forall>p \<in> set (sy_log g'). fst p < length (sy_threads g')"
    using assms(2) by (auto simp: arrives sys_inv_def)
  ultimately show ?thesis using assms(2) unfolding sys_inv_def by metis
next
  case (provisions ns ts)
  then show ?thesis using assms(2) by (simp add: sys_inv_def gw_good_def gw_saved_def)
qed

lemma reach_inv: "gsys_reach topic s g \<Longrightarrow> gw_good s \<Longrightarrow> sys_inv topic s g"
proof (induction rule: gsys_reach.induct)
  case sys_start
  then show ?case by (simp add: sys_inv_def system_start_def)
qed (auto intro: serve_step_inv env_step_inv)

lemma reach_thread_ok:
  assumes "gsys_reach topic s g" "gw_good s" "i < length (sy_threads g)"
  shows "thread_ok topic (sy_threads g ! i) (records_of i g)"
  using reach_inv [OF assms(1,2)] assms(3) by (simp add: sys_inv_def)

text \<open>The statuses of the decoder are not those of success.\<close>

lemma read_refused:
  "read_events rq = (None, w) \<Longrightarrow> rs_status w \<in> {Some 400, Some 413, Some 422} \<and> \<not> rs_aborted w"
  "read_heartbeat rq = (None, w) \<Longrightarrow> rs_status w \<in> {Some 400, Some 413, Some 422} \<and> \<not> rs_aborted w"
  unfolding read_events_def read_heartbeat_def by (erule decode_valid_cases; simp)+

lemma read_events_ok:
  assumes "read_events rq = (Some req, w)"
  shows "w = empty_response" "decodes_events (rq_body rq) (events_of req)" "events_of req \<noteq> []"
  using assms unfolding read_events_def
  by (auto elim!: decode_valid_cases simp: decodes_events_def events_valid_nil)

lemma read_heartbeat_ok:
  assumes "read_heartbeat rq = (Some hb, w)"
  shows "w = empty_response" "decodes_heartbeat (rq_body rq) hb"
  using assms unfolding read_heartbeat_def by (auto elim!: decode_valid_cases simp: decodes_heartbeat_def)

lemma refusal_status:
  assumes "\<not> is_events rq" "\<not> is_heartbeat rq"
  shows "rs_status (refusal rq) \<in> {Some 404, Some 405}" "\<not> rs_aborted (refusal rq)"
proof -
  have "gw_serve topic rq s = (refusal rq, s)" for topic s by (simp add: gw_serve_def refused_server [OF assms])
  then have "new_server station_lookup_fn heartbeat_save (kafka_publish undefined) gw_now background rq empty_response
      undefined = (refusal rq, undefined)" by (simp add: gw_serve_def)
  then show "rs_status (refusal rq) \<in> {Some 404, Some 405}" "\<not> rs_aborted (refusal rq)"
    by (cases rule: serve_mux_cases; use assms in \<open>auto simp: is_events_def is_heartbeat_def empty_response_def\<close>)+
qed

text \<open>What a response says of the position it was given at.\<close>

lemma ok_response:
  assumes "th_ok topic rq as None seen recs" "replay rq as = Inr w"
  obtains (refused) "rs_status w \<in> Some ` {400, 401, 404, 405, 413, 422, 500}" "\<not> rs_aborted w" "recs = []"
  | (failed) err where "rs_status w = Some 500" "\<not> rs_aborted w" "AnsPublish (Some err) \<in> set as"
  | (logged) st v req t2 where "rs_status w = Some 200" "\<not> rs_aborted w" "is_events rq" "seen = Some v"
      "admitted rq v st" "read_events rq = (Some req, empty_response)" "json_time t2" "AnsPublish None \<in> set as"
      "produced_ok topic st t2 (events_of req) None recs"
  | (saved) st v hb where "rs_status w = Some 200" "\<not> rs_aborted w" "is_heartbeat rq" "seen = Some v"
      "admitted rq v st" "read_heartbeat rq = (Some hb, empty_response)" "AnsSave None \<in> set as" "recs = []"
  using assms(1)
proof cases
  case ok_start
  show thesis
  proof (cases "is_events rq \<or> is_heartbeat rq")
    case True
    with replay_start [OF True] assms(2) ok_start show thesis by simp
  next
    case False
    then have "w = refusal rq" using replay_refused [of rq as] assms(2) by simp
    with refused refusal_status [of rq] False ok_start show thesis by auto
  qed
next
  case (ok_now t)
  with replay_now [OF ok_now(4)] assms(2) refused show thesis by (cases "bearer rq") (auto simp: unauthorized_def)
next
  case (ok_lookup token r v t)
  note l = replay_lookup [OF ok_lookup(4,5)]
  show thesis
  proof (cases r rule: lookup_result_cases)
    case r: (3 st)
    from ok_lookup(4) show thesis
    proof
      assume e: "is_events rq"
      obtain v' w' where d: "read_events rq = (v', w')" by (cases "read_events rq")
      with replay_events(1,2) [OF e ok_lookup(5)] ok_lookup(1) r assms(2) have "v' = None" "w' = w" by (cases v'; simp)+
      with read_refused(1) d refused ok_lookup(3) show thesis by auto
    next
      assume h: "is_heartbeat rq"
      obtain v' w' where d: "read_heartbeat rq = (v', w')" by (cases "read_heartbeat rq")
      with replay_heartbeat(1,2) [OF h ok_lookup(5)] ok_lookup(1) r assms(2) have "v' = None" "w' = w" by (cases v'; simp)+
      with read_refused(2) d refused ok_lookup(3) show thesis by auto
    qed
  qed (use l ok_lookup(1,3) assms(2) refused in \<open>auto simp: unauthorized_def\<close>)
next
  case (ok_events v st req w' t2 t)
  obtain token where "bearer rq = Some token" using admittedD [OF ok_events(5)] by blast
  from replay_events(3) [OF ok_events(4) this ok_events(6)] ok_events(1) assms(2) show thesis by simp
next
  case (ok_published v st req w' t2 q t)
  obtain token where t: "bearer rq = Some token" using admittedD [OF ok_published(4)] by blast
  note r = replay_events(4,5) [OF ok_published(3) t ok_published(5)] and e = read_events_ok [OF ok_published(5)]
  show thesis
  proof (cases q)
    case None
    with r(2) ok_published(1) assms(2) e have "w = write_header 200 empty_response" by (auto split: list.splits)
    with logged [OF _ _ ok_published(3,2,4) _ ok_published(6)] ok_published(1,5,7) None e(1) show thesis by simp
  next
    case (Some err)
    with r(1) ok_published(1) assms(2) e(1) have "w = fail 500 ''internal'' empty_response" by simp
    with failed [of err] ok_published(1) Some show thesis by simp
  qed
next
  case (ok_heartbeat v st hb w' t t2)
  obtain token where "bearer rq = Some token" using admittedD [OF ok_heartbeat(5)] by blast
  from replay_heartbeat(3) [OF ok_heartbeat(4) this ok_heartbeat(6)] ok_heartbeat(1) assms(2) show thesis by simp
next
  case (ok_saved v st hb w' t t2 q)
  obtain token where t: "bearer rq = Some token" using admittedD [OF ok_saved(5)] by blast
  note r = replay_heartbeat(4,5) [OF ok_saved(4) t ok_saved(6)] and e = read_heartbeat_ok [OF ok_saved(6)]
  show thesis
  proof (cases q)
    case None
    with r(2) ok_saved(1) assms(2) show thesis by simp
  next
    case (Some err)
    with r(1) ok_saved(1) assms(2) e(1) have "w = fail 500 ''internal'' empty_response" by simp
    with refused ok_saved(3) show thesis by simp
  qed
next
  case (ok_done v st hb w' t t2 t3)
  obtain token where t: "bearer rq = Some token" using admittedD [OF ok_done(5)] by blast
  note e = read_heartbeat_ok [OF ok_done(6)]
  from replay_heartbeat(6) [OF ok_done(4) t ok_done(6)] ok_done(1) assms(2) e(1)
  have "w = write_header 200 empty_response" by simp
  with saved [OF _ _ ok_done(4,2,5)] ok_done(1,3,6) e(1) show thesis by simp
qed

end
