(* ===== verification/Gateway_Load.thy ===== *)
theory Gateway_Load
  imports Gateway_Concurrent
begin

section \<open>What the gateway promises under load\<close>

text \<open>
  The promises of \<open>Gateway_Facts\<close> for every interleaving of \<open>Gateway_Concurrent\<close>: what a 200 means, whose
  records and heartbeats there can be, that serving one request after the other is one of the schedules, and
  that every request is answered.
\<close>

subsection \<open>Acknowledged batches\<close>

lemma bearer_authenticates: "bearer rq = Some token \<Longrightarrow> gw_authorizes v token st \<Longrightarrow> authenticates gw_authorizes v rq st"
  unfolding authenticates_def by (metis cut_prefix_iff)

lemma admitted_authenticates: "admitted rq v st \<Longrightarrow> authenticates gw_authorizes v rq st"
  unfolding admitted_def using bearer_authenticates by blast

lemma admitted_station: "admitted rq v st \<Longrightarrow> valid_utf8 st \<and> st \<noteq> []"
  unfolding admitted_def using api.authorizes_good by blast

lemma responded_not_waiting:
  assumes "th_ok topic rq as wt seen recs" "replay rq as = Inr w"
  shows "wt = None"
proof (rule ccontr)
  assume "wt \<noteq> None"
  then obtain q where "wt = Some q" by blast
  with assms(1) obtain t st t2 v req w' where p: "as = [AnsNow t, AnsLookup (Inr (Some st)), AnsNow t2]" "is_events rq"
      "admitted rq v st" "read_events rq = (Some req, w')" by (auto elim: th_ok.cases)
  obtain token where "bearer rq = Some token" using admittedD [OF p(3)] by blast
  from replay_events(3) [OF p(2) this p(4)] p(1) assms(2) show False by simp
qed

lemma reach_responded:
  assumes "gsys_reach topic s g" "gw_good s" "i < length (sy_threads g)" "responded (sy_threads g ! i) = Some w"
  shows "th_ok topic (th_rq (sy_threads g ! i)) (th_answers (sy_threads g ! i)) None (th_seen (sy_threads g ! i))
      (records_of i g @ th_flight (sy_threads g ! i))"
    "replay (th_rq (sy_threads g ! i)) (th_answers (sy_threads g ! i)) = Inr w"
    "AnsPublish None \<in> set (th_answers (sy_threads g ! i)) \<Longrightarrow> th_flight (sy_threads g ! i) = []"
proof -
  show r: "replay (th_rq (sy_threads g ! i)) (th_answers (sy_threads g ! i)) = Inr w"
    using assms(4) by (simp add: responded_Some)
  from reach_thread_ok [OF assms(1-3)] responded_not_waiting [OF _ r]
  show "th_ok topic (th_rq (sy_threads g ! i)) (th_answers (sy_threads g ! i)) None (th_seen (sy_threads g ! i))
      (records_of i g @ th_flight (sy_threads g ! i))"
    "AnsPublish None \<in> set (th_answers (sy_threads g ! i)) \<Longrightarrow> th_flight (sy_threads g ! i) = []"
    unfolding thread_ok_def by metis+
qed

lemma load_events_logged:
  assumes "gsys_reach topic s g" "gw_good s" "i < length (sy_threads g)" "th = sy_threads g ! i"
    "responded th = Some w" "rq_path (th_rq th) = ''/v1/events''" "rs_status w = Some 200"
  shows "gw_log (sy_world g) = gw_log s @ map snd (sy_log g) \<and>
    (\<exists>v st es t. th_seen th = Some v \<and> authenticates gw_authorizes v (th_rq th) st \<and> st \<noteq> [] \<and>
       decodes_events (rq_body (th_rq th)) es \<and>
       list_all2 (\<lambda>e rec. kr_topic rec = topic \<and> kr_key rec = st \<and>
         unmarshal_event (kr_value rec) = Some (wire_event st t e)) es (map snd (filter (\<lambda>p. fst p = i) (sy_log g))))"
proof
  show "gw_log (sy_world g) = gw_log s @ map snd (sy_log g)" using reach_inv [OF assms(1,2)] by (simp add: sys_inv_def)
  note r = reach_responded [OF assms(1-3) assms(5) [unfolded assms(4)], folded assms(4)]
  from r(1,2) show "\<exists>v st es t. th_seen th = Some v \<and> authenticates gw_authorizes v (th_rq th) st \<and> st \<noteq> [] \<and>
       decodes_events (rq_body (th_rq th)) es \<and>
       list_all2 (\<lambda>e rec. kr_topic rec = topic \<and> kr_key rec = st \<and>
         unmarshal_event (kr_value rec) = Some (wire_event st t e)) es (map snd (filter (\<lambda>p. fst p = i) (sy_log g)))"
  proof (cases rule: ok_response)
    case (logged st v req t2)
    have recs: "records_of i g @ th_flight th = records_of i g" using r(3) logged(8) by simp
    have m: "map_result (event_record topic st t2) (events_of req) = Inr (records_of i g)"
      using logged(9) unfolding recs produced_ok_def by simp
    have d: "decodes_events (rq_body (th_rq th)) (events_of req)" by (rule read_events_ok [OF logged(6)])
    have "list_all2 (\<lambda>e rec. kr_topic rec = topic \<and> kr_key rec = st \<and>
        unmarshal_event (kr_value rec) = Some (wire_event st t2 e)) (events_of req) (records_of i g)"
      by (rule list_all2_mono [OF records_carry [OF d m]])
        (use admitted_station [OF logged(5)] logged(7) in \<open>auto simp: event_record_def dest: wire_record_fields\<close>)
    with logged(4) admitted_authenticates [OF logged(5)] admitted_station [OF logged(5)] d show ?thesis unfolding records_of_def by blast
  qed (use assms(6,7) in \<open>auto simp: is_heartbeat_def\<close>)
qed

text \<open>C6: under any load, a 200 to a batch of events means that exactly its records are in the log, in the
  batch's order, between whatever others bring: one record per event, keyed by the station that the token
  authorized when it was looked up, and decoding to the event.\<close>

theorem concurrent_events_logged:
  assumes "gsys_reach topic s g" "gw_good s" "i < length (sy_threads g)" "th = sy_threads g ! i"
    "responded th = Some w" "rq_path (th_rq th) = ''/v1/events''" "rs_status w = Some 200"
  shows "gw_log (sy_world g) = gw_log s @ map snd (sy_log g) \<and>
    (\<exists>v st es t. th_seen th = Some v \<and> authenticates gw_authorizes v (th_rq th) st \<and>
       decodes_events (rq_body (th_rq th)) es \<and>
       list_all2 (\<lambda>e rec. kr_topic rec = topic \<and> kr_key rec = st \<and>
         unmarshal_event (kr_value rec) = Some (wire_event st t e)) es (map snd (filter (\<lambda>p. fst p = i) (sy_log g))))"
  using load_events_logged [OF assms] by blast

lemma ok_records:
  "th_ok topic rq as wt seen recs \<Longrightarrow> rec \<in> set recs \<Longrightarrow>
     \<exists>v. seen = Some v \<and> admitted rq v (kr_key rec) \<and> kr_topic rec = topic"
  by (erule th_ok.cases) (auto simp: produced_ok_def)

lemma do_call_heartbeats_ok: "do_call topic c s = (a, s1) \<Longrightarrow> heartbeats_ok s \<Longrightarrow> heartbeats_ok s1"
  using do_call_frame unfolding gw_frame_def by blast

lemma reach_heartbeats_ok: "gsys_reach topic s g \<Longrightarrow> heartbeats_ok s \<Longrightarrow> heartbeats_ok (sy_world g)"
proof (induction rule: gsys_reach.induct)
  case sys_start
  then show ?case by (simp add: system_start_def)
next
  case (sys_serve g g')
  have ok: "heartbeats_ok (sy_world g)" by (rule sys_serve.IH [OF sys_serve.prems])
  from sys_serve.hyps(2) show ?case
  proof cases
    case (calls i th c a s1)
    with do_call_heartbeats_ok [OF calls(7) ok] show ?thesis by simp
  next
    case (produces i th ctx st t es q s1)
    from publish_gw_frame [OF produces(6)] ok have "heartbeats_ok s1" unfolding gw_frame_def by blast
    with produces(1) heartbeats_ok_cong [of "s1\<lparr>gw_log := gw_log (sy_world g)\<rparr>" s1] show ?thesis by simp
  next
    case (appends i th rec recs)
    with ok heartbeats_ok_cong [of "(sy_world g)\<lparr>gw_log := gw_log (sy_world g) @ [rec]\<rparr>" "sy_world g"] show ?thesis by simp
  qed (use ok in auto)
next
  case (sys_env g g')
  then show ?case by (auto elim!: env_step.cases simp: heartbeats_ok_def known_station_def)
qed

text \<open>C11: under any load, every record in the log is that of a goroutine whose token authorized the record's
  station when it was looked up, every heartbeat of the table that was not there before is that of such a
  station, and the table keeps one row per station and time, of stations that exist.\<close>

theorem concurrent_stations_isolated:
  assumes "gsys_reach topic s g" "gw_good s" "heartbeats_ok s"
  shows "(\<forall>(i, rec) \<in> set (sy_log g). i < length (sy_threads g) \<and> kr_topic rec = topic \<and>
      (\<exists>v. th_seen (sy_threads g ! i) = Some v \<and>
         authenticates gw_authorizes v (th_rq (sy_threads g ! i)) (kr_key rec))) \<and>
    (\<forall>k. gw_saved (sy_world g) k \<longrightarrow> gw_saved s k \<or>
       (\<exists>th \<in> set (sy_threads g). \<exists>v. th_seen th = Some v \<and> authenticates gw_authorizes v (th_rq th) (fst k))) \<and>
    heartbeats_ok (sy_world g)"
proof (intro conjI)
  have inv: "sys_inv topic s g" by (rule reach_inv [OF assms(1,2)])
  show "\<forall>(i, rec) \<in> set (sy_log g). i < length (sy_threads g) \<and> kr_topic rec = topic \<and>
      (\<exists>v. th_seen (sy_threads g ! i) = Some v \<and> authenticates gw_authorizes v (th_rq (sy_threads g ! i)) (kr_key rec))"
  proof clarify
    fix i rec assume m: "(i, rec) \<in> set (sy_log g)"
    then have i: "i < length (sy_threads g)" using inv by (auto simp: sys_inv_def)
    have "rec \<in> set (records_of i g)" using m by (force simp: records_of_def)
    with ok_records [of topic _ _ _ _ "records_of i g @ th_flight (sy_threads g ! i)" rec] reach_thread_ok [OF assms(1,2) i]
    show "i < length (sy_threads g) \<and> kr_topic rec = topic \<and> (\<exists>v. th_seen (sy_threads g ! i) = Some v \<and>
        authenticates gw_authorizes v (th_rq (sy_threads g ! i)) (kr_key rec))"
      using i admitted_authenticates by (fastforce simp: thread_ok_def)
  qed
  show "\<forall>k. gw_saved (sy_world g) k \<longrightarrow> gw_saved s k \<or>
       (\<exists>th \<in> set (sy_threads g). \<exists>v. th_seen th = Some v \<and> authenticates gw_authorizes v (th_rq th) (fst k))"
    using inv admitted_authenticates unfolding sys_inv_def admitted_for_def by blast
  show "heartbeats_ok (sy_world g)" by (rule reach_heartbeats_ok [OF assms(1,3)])
qed

subsection \<open>One request after the other\<close>

lemma reach_flush:
  assumes "gsys_reach topic s g" "sy_threads g = ths @ [th]" "th_flight th = recs"
  shows "\<exists>l. gsys_reach topic s \<lparr>sy_world = (sy_world g)\<lparr>gw_log := gw_log (sy_world g) @ recs\<rparr>,
    sy_threads = ths @ [th\<lparr>th_flight := []\<rparr>], sy_log = l\<rparr>"
  using assms
proof (induction recs arbitrary: g th)
  case Nil
  then have "g = \<lparr>sy_world = (sy_world g)\<lparr>gw_log := gw_log (sy_world g) @ []\<rparr>,
      sy_threads = ths @ [th\<lparr>th_flight := []\<rparr>], sy_log = sy_log g\<rparr>" by simp
  with Nil(1) show ?case by metis
next
  case (Cons rec recs)
  let ?g = "g\<lparr>sy_world := (sy_world g)\<lparr>gw_log := gw_log (sy_world g) @ [rec]\<rparr>,
      sy_threads := (sy_threads g)[length ths := th\<lparr>th_flight := recs\<rparr>],
      sy_log := sy_log g @ [(length ths, rec)]\<rparr>"
  have "serve_step topic g ?g" by (rule serve_step.appends) (simp_all add: Cons.prems)
  with Cons.prems(1) have r: "gsys_reach topic s ?g" by (rule sys_serve)
  show ?case using Cons.IH [OF r, of "th\<lparr>th_flight := recs\<rparr>"] by (simp add: Cons.prems)
qed

lemma reach_call:
  assumes "gsys_reach topic s g" "sy_threads g = ths @ [th]" "th_waiting th = None" "th_flight th = []"
    and "replay (th_rq th) (th_answers th) = Inl c" "do_call topic c (sy_world g) = (a, s1)"
  shows "\<exists>g1 th1. gsys_reach topic s g1 \<and> sy_threads g1 = ths @ [th1] \<and> sy_world g1 = s1 \<and> th_rq th1 = th_rq th \<and>
    th_answers th1 = th_answers th @ [a] \<and> th_waiting th1 = None \<and> th_flight th1 = []"
proof (cases "is_publish c")
  case False
  let ?th = "th\<lparr>th_answers := th_answers th @ [a], th_seen := (if is_lookup c then Some (sy_world g) else th_seen th)\<rparr>"
  have "serve_step topic g (g\<lparr>sy_world := s1, sy_threads := (sy_threads g)[length ths := ?th]\<rparr>)"
    by (rule serve_step.calls [OF _ _ assms(3,5) False assms(6)]) (simp_all add: assms(2))
  from sys_serve [OF assms(1) this] assms(2-4) show ?thesis
    by (intro exI [of _ "g\<lparr>sy_world := s1, sy_threads := (sy_threads g)[length ths := ?th]\<rparr>"] exI [of _ ?th]) simp
next
  case True
  then obtain ctx st t es where c: "c = CallPublish ctx st t es" by (cases c) auto
  with assms(6) obtain q where q: "kafka_publish topic ctx st t es (sy_world g) = (q, s1)" "a = AnsPublish q"
    by (auto simp: do_call_def split: prod.splits)
  let ?recs = "drop (length (gw_log (sy_world g))) (gw_log s1)"
  let ?th = "th\<lparr>th_flight := ?recs, th_waiting := Some q\<rparr>"
  let ?g = "g\<lparr>sy_world := s1\<lparr>gw_log := gw_log (sy_world g)\<rparr>, sy_threads := (sy_threads g)[length ths := ?th]\<rparr>"
  have "serve_step topic g ?g"
    by (rule serve_step.produces [OF _ _ assms(3) assms(5) [unfolded c] q(1)]) (simp_all add: assms(2))
  with assms(1) have r: "gsys_reach topic s ?g" by (rule sys_serve)
  have l: "gw_log s1 = gw_log (sy_world g) @ ?recs" using kafka_publish_produced [OF q(1)] by simp
  from reach_flush [OF r, of ths ?th] assms(2) obtain l' where
    r2: "gsys_reach topic s \<lparr>sy_world = s1, sy_threads = ths @ [?th\<lparr>th_flight := []\<rparr>], sy_log = l'\<rparr>"
    by (auto simp: l [symmetric])
  let ?th2 = "?th\<lparr>th_flight := [], th_waiting := None, th_answers := th_answers th @ [AnsPublish q]\<rparr>"
  have "serve_step topic \<lparr>sy_world = s1, sy_threads = ths @ [?th\<lparr>th_flight := []\<rparr>], sy_log = l'\<rparr>
      \<lparr>sy_world = s1, sy_threads = ths @ [?th2], sy_log = l'\<rparr>"
  proof (cases q)
    case None
    from serve_step.answers [of "length ths" "\<lparr>sy_world = s1, sy_threads = ths @ [?th\<lparr>th_flight := []\<rparr>], sy_log = l'\<rparr>"
        "?th\<lparr>th_flight := []\<rparr>" q topic] None show ?thesis by simp
  next
    case (Some err)
    from serve_step.gives_up [of "length ths" "\<lparr>sy_world = s1, sy_threads = ths @ [?th\<lparr>th_flight := []\<rparr>], sy_log = l'\<rparr>"
        "?th\<lparr>th_flight := []\<rparr>" q topic] Some show ?thesis by simp
  qed
  from sys_serve [OF r2 this] q(2) show ?thesis
    by (intro exI [of _ "\<lparr>sy_world = s1, sy_threads = ths @ [?th2], sy_log = l'\<rparr>"] exI [of _ ?th2]) simp
qed

lemma reach_alone:
  assumes "gsys_reach topic s g" "sy_threads g = ths @ [th]" "th_waiting th = None" "th_flight th = []"
    and "run_alone topic n (th_rq th) (th_answers th) (sy_world g) = ((Some w, as), s1)"
  shows "\<exists>g1 th1. gsys_reach topic s g1 \<and> sy_threads g1 = ths @ [th1] \<and> sy_world g1 = s1 \<and> th_rq th1 = th_rq th \<and>
    responded th1 = Some w"
  using assms
proof (induction n arbitrary: g th)
  case 0
  then have "replay (th_rq th) (th_answers th) = Inr w" "s1 = sy_world g"
    by (auto simp: run_alone.simps split: sum.splits)
  with 0 show ?case unfolding responded_Some by blast
next
  case (Suc n)
  show ?case
  proof (cases "replay (th_rq th) (th_answers th)")
    case (Inr w')
    with Suc.prems have "w' = w" "s1 = sy_world g" by simp_all
    with Inr Suc.prems show ?thesis unfolding responded_Some by blast
  next
    case (Inl c)
    obtain a s2 where d: "do_call topic c (sy_world g) = (a, s2)" by (cases "do_call topic c (sy_world g)")
    from reach_call [OF Suc.prems(1-4) Inl d] obtain g1 th1 where g1: "gsys_reach topic s g1" "sy_threads g1 = ths @ [th1]"
        "sy_world g1 = s2" "th_rq th1 = th_rq th" "th_answers th1 = th_answers th @ [a]" "th_waiting th1 = None" "th_flight th1 = []"
      by blast
    from Suc.IH [OF g1(1,2,6,7)] Suc.prems(5) run_alone_call [OF Inl d] g1(3-5) show ?thesis by simp
  qed
qed

lemma reach_serves:
  assumes "gsys_reach topic s g"
  shows "\<exists>g1 th1. gsys_reach topic s g1 \<and> sy_threads g1 = sy_threads g @ [th1] \<and> th_rq th1 = rq \<and>
    sy_world g1 = snd (gw_serve topic rq (sy_world g)) \<and> responded th1 = Some (fst (gw_serve topic rq (sy_world g)))"
proof -
  let ?g = "g\<lparr>sy_threads := sy_threads g @ [new_thread rq]\<rparr>"
  have r: "gsys_reach topic s ?g" by (rule sys_env [OF assms env_step.arrives])
  obtain as where "run_alone topic 5 rq [] (sy_world g) =
      ((Some (fst (gw_serve topic rq (sy_world g))), as), snd (gw_serve topic rq (sy_world g)))"
    using run_alone_serves by blast
  with reach_alone [OF r, of "sy_threads g" "new_thread rq" 5] show ?thesis by (auto simp: new_thread_def)
qed

lemma run_all_reach:
  "gsys_reach topic s g \<Longrightarrow> \<exists>g1 ths. gsys_reach topic s g1 \<and> sy_threads g1 = sy_threads g @ ths \<and> map th_rq ths = rqs \<and>
    sy_world g1 = snd (gw_serve_all topic rqs (sy_world g)) \<and>
    map responded ths = map Some (fst (gw_serve_all topic rqs (sy_world g)))"
proof (induction rqs arbitrary: g)
  case (Cons rq rqs)
  obtain g1 th1 where g1: "gsys_reach topic s g1" "sy_threads g1 = sy_threads g @ [th1]" "th_rq th1 = rq"
      "sy_world g1 = snd (gw_serve topic rq (sy_world g))" "responded th1 = Some (fst (gw_serve topic rq (sy_world g)))"
    using reach_serves [OF Cons.prems] by blast
  obtain g2 ths where g2: "gsys_reach topic s g2" "sy_threads g2 = sy_threads g1 @ ths" "map th_rq ths = rqs"
      "sy_world g2 = snd (gw_serve_all topic rqs (sy_world g1))"
      "map responded ths = map Some (fst (gw_serve_all topic rqs (sy_world g1)))"
    using Cons.IH [OF g1(1)] by blast
  from g1 g2 show ?case
    by (intro exI [of _ g2] exI [of _ "th1 # ths"]) (simp add: Let_def split: prod.splits)
qed (auto intro: exI [of _ "[]"])

text \<open>Serving one request after the other is one of the schedules: every outcome of \<open>gw_serve_all\<close> (each
  handler run to its end before the next starts) is a state the concurrent gateway reaches, with the same
  responses and the same world.\<close>

theorem sequential_is_a_schedule:
  "\<exists>g. gsys_reach topic s g \<and> map th_rq (sy_threads g) = rqs \<and> sy_world g = snd (gw_serve_all topic rqs s) \<and>
     map responded (sy_threads g) = map Some (fst (gw_serve_all topic rqs s))"
  using run_all_reach [OF sys_start, of topic s rqs] by (auto simp: system_start_def)

subsection \<open>Every request is answered\<close>

text \<open>What is left to do: calls and answers of each goroutine, then records in flight.\<close>

definition calls_left :: "gthread \<Rightarrow> nat" where
  "calls_left th = 2 * (6 - length (th_answers th)) - (if th_waiting th = None then 0 else 1)"

definition serve_rank :: "gsystem \<Rightarrow> nat \<times> nat" where
  "serve_rank g = (sum_list (map calls_left (sy_threads g)), sum_list (map (\<lambda>th. length (th_flight th)) (sy_threads g)))"

lemma sum_list_update_less:
  fixes f :: "'a \<Rightarrow> nat"
  assumes "i < length xs"
  shows "f x < f (xs ! i) \<Longrightarrow> sum_list (map f (xs[i := x])) < sum_list (map f xs)"
    "f x = f (xs ! i) \<Longrightarrow> sum_list (map f (xs[i := x])) = sum_list (map f xs)"
proof -
  have u: "xs[i := x] = take i xs @ x # drop (Suc i) xs" using assms by (simp add: upd_conv_take_nth_drop)
  have x: "xs = take i xs @ xs ! i # drop (Suc i) xs" by (rule id_take_nth_drop [OF assms])
  have "sum_list (map f (xs[i := x])) = sum_list (map f (take i xs)) + f x + sum_list (map f (drop (Suc i) xs))"
    unfolding u by simp
  moreover have "sum_list (map f xs) = sum_list (map f (take i xs)) + f (xs ! i) + sum_list (map f (drop (Suc i) xs))"
    by (subst x) simp
  ultimately show "f x < f (xs ! i) \<Longrightarrow> sum_list (map f (xs[i := x])) < sum_list (map f xs)"
    "f x = f (xs ! i) \<Longrightarrow> sum_list (map f (xs[i := x])) = sum_list (map f xs)" by simp_all
qed

lemma serve_step_rank:
  assumes "serve_step topic g g'" "sys_inv topic s g"
  shows "(serve_rank g', serve_rank g) \<in> less_than <*lex*> less_than"
proof -
  have len: "length (th_answers (sy_threads g ! i)) \<le> 5" if "i < length (sy_threads g)" for i
    using that assms(2) ok_length unfolding sys_inv_def thread_ok_def by blast
  from assms(1) show ?thesis
  proof cases
    case (calls i th c a s1)
    with len [OF calls(2)] show ?thesis
      by (auto simp: serve_rank_def calls_left_def intro!: sum_list_update_less(1))
  next
    case (produces i th ctx st t es q s1)
    with len [OF produces(2)] show ?thesis
      by (auto simp: serve_rank_def calls_left_def intro!: sum_list_update_less(1))
  next
    case (appends i th rec recs)
    then have "sum_list (map calls_left (sy_threads g')) = sum_list (map calls_left (sy_threads g))"
      by (simp add: sum_list_update_less(2) calls_left_def)
    moreover have "sum_list (map (\<lambda>th. length (th_flight th)) (sy_threads g')) <
        sum_list (map (\<lambda>th. length (th_flight th)) (sy_threads g))"
      using appends by (auto intro!: sum_list_update_less(1))
    ultimately show ?thesis by (simp add: serve_rank_def)
  next
    case (answers i th q)
    with len [OF answers(2)] show ?thesis
      by (auto simp: serve_rank_def calls_left_def intro!: sum_list_update_less(1))
  next
    case (gives_up i th q)
    with len [OF gives_up(2)] show ?thesis
      by (auto simp: serve_rank_def calls_left_def intro!: sum_list_update_less(1))
  qed
qed

lemma unanswered_steps:
  assumes "i < length (sy_threads g)" "responded (sy_threads g ! i) = None"
  shows "\<exists>g'. serve_step topic g g' \<and> sy_threads g' ! i \<noteq> sy_threads g ! i"
proof -
  let ?th = "sy_threads g ! i"
  obtain c where c: "replay (th_rq ?th) (th_answers ?th) = Inl c"
    using assms(2) by (auto simp: responded_def split: sum.splits)
  note i = assms(1) refl
  have changed: "th \<noteq> ?th \<Longrightarrow> (sy_threads g)[i := th] ! i \<noteq> ?th" for th using assms(1) by simp
  have field: "f th \<noteq> f ?th \<Longrightarrow> th \<noteq> ?th" for f :: "gthread \<Rightarrow> 'a" and th by metis
  show ?thesis
  proof (cases "th_waiting ?th")
    case None
    show ?thesis
    proof (cases "is_publish c")
      case False
      obtain a s1 where d: "do_call topic c (sy_world g) = (a, s1)" by (cases "do_call topic c (sy_world g)")
      from serve_step.calls [OF i None c False d] changed [OF field [of th_answers]] show ?thesis by force
    next
      case True
      then obtain ctx st t es where p: "c = CallPublish ctx st t es" by (cases c) auto
      obtain q s1 where d: "kafka_publish topic ctx st t es (sy_world g) = (q, s1)"
        by (cases "kafka_publish topic ctx st t es (sy_world g)")
      from serve_step.produces [OF i None c [unfolded p] d] changed [OF field [of th_waiting]] None show ?thesis by force
    qed
  next
    case (Some q)
    show ?thesis
    proof (cases q)
      case None
      show ?thesis
      proof (cases "th_flight ?th")
        case Nil
        from serve_step.answers [OF i Some None Nil] changed [OF field [of th_answers]] show ?thesis by force
      next
        case (Cons rec recs)
        from serve_step.appends [OF i Cons] changed [OF field [of th_flight]] Cons show ?thesis by force
      qed
    next
      case err: (Some err)
      from serve_step.gives_up [OF i Some] err changed [OF field [of th_answers]] show ?thesis by force
    qed
  qed
qed

text \<open>C16: every request is answered, whatever the load: a goroutine without a response can take a step, the
  goroutines cannot take steps forever (unless requests keep arriving), and a response has one of the
  gateway's statuses; no handler panics.\<close>

theorem concurrent_requests_answered:
  assumes "gsys_reach topic s g" "gw_good s"
  shows "(\<forall>i < length (sy_threads g). case responded (sy_threads g ! i) of
        None \<Rightarrow> \<exists>g'. serve_step topic g g' \<and> sy_threads g' ! i \<noteq> sy_threads g ! i
      | Some w \<Rightarrow> rs_status w \<in> Some ` {200, 400, 401, 404, 405, 413, 422, 500} \<and> \<not> rs_aborted w) \<and>
    \<not> (\<exists>f. f 0 = g \<and> (\<forall>n. serve_step topic (f n) (f (Suc n))))"
proof (intro conjI allI impI notI)
  fix i assume i: "i < length (sy_threads g)"
  show "case responded (sy_threads g ! i) of
        None \<Rightarrow> \<exists>g'. serve_step topic g g' \<and> sy_threads g' ! i \<noteq> sy_threads g ! i
      | Some w \<Rightarrow> rs_status w \<in> Some ` {200, 400, 401, 404, 405, 413, 422, 500} \<and> \<not> rs_aborted w"
  proof (cases "responded (sy_threads g ! i)")
    case None
    with unanswered_steps [OF i None] show ?thesis by simp
  next
    case (Some w)
    from reach_responded(1,2) [OF assms i Some] have "rs_status w \<in> Some ` {200, 400, 401, 404, 405, 413, 422, 500} \<and> \<not> rs_aborted w"
      by (cases rule: ok_response) auto
    with Some show ?thesis by simp
  qed
next
  assume "\<exists>f. f 0 = g \<and> (\<forall>n. serve_step topic (f n) (f (Suc n)))"
  then obtain f where f: "f 0 = g" "\<And>n. serve_step topic (f n) (f (Suc n))" by blast
  have reach: "gsys_reach topic s (f n)" for n
    by (induction n) (use assms(1) f sys_serve in auto)
  have down: "(serve_rank (f (Suc n)), serve_rank (f n)) \<in> less_than <*lex*> less_than" for n
    by (rule serve_step_rank [OF f(2) reach_inv [OF reach assms(2)]])
  show False
    by (rule wf_no_infinite_down_chainE [OF wf_lex_prod [OF wf_less_than wf_less_than], of "\<lambda>n. serve_rank (f n)"])
      (use down in blast)
qed

subsection \<open>Two requests on the sample gateway\<close>

definition sample_requests :: "request list" where
  "sample_requests = [sample_request ''/v1/events'' sample_events_json, sample_request ''/v1/stations/heartbeat'' sample_heartbeat_json]"

text \<open>A run in which both requests are answered, the first with 200.\<close>

lemma sample_run:
  obtains g w1 w2 where "gsys_reach raw_topic sample_gw g" "map th_rq (sy_threads g) = sample_requests"
    "map responded (sy_threads g) = [Some w1, Some w2]" "rs_status w1 = Some 200"
proof -
  obtain w1 s1 where 1: "gw_serve raw_topic (hd sample_requests) sample_gw = (w1, s1)"
    by (cases "gw_serve raw_topic (hd sample_requests) sample_gw")
  obtain w2 s2 where 2: "gw_serve raw_topic (last sample_requests) s1 = (w2, s2)"
    by (cases "gw_serve raw_topic (last sample_requests) s1")
  have "gw_serve_all raw_topic sample_requests sample_gw = ([w1, w2], s2)"
    using 1 2 by (simp add: sample_requests_def)
  moreover have "rs_status w1 = Some 200" using 1 sample_serves(1) [of raw_topic] by (simp add: sample_requests_def)
  moreover obtain g where "gsys_reach raw_topic sample_gw g" "map th_rq (sy_threads g) = sample_requests"
      "map responded (sy_threads g) = map Some (fst (gw_serve_all raw_topic sample_requests sample_gw))"
    using run_all_reach [OF sys_start, of raw_topic sample_gw sample_requests] by (auto simp: system_start_def)
  ultimately show thesis using that by simp
qed

lemma sample_run_first:
  assumes "map th_rq (sy_threads g) = sample_requests" "map responded (sy_threads g) = [Some w1, Some w2]"
  shows "length (sy_threads g) = 2" "responded (sy_threads g ! 0) = Some w1"
    "th_rq (sy_threads g ! 0) = sample_request ''/v1/events'' sample_events_json"
  using assms by (auto simp: sample_requests_def map_eq_Cons_conv)

theorem concurrent_events_logged_witness:
  "\<exists>g st es t. gsys_reach raw_topic sample_gw g \<and> decodes_events (print_json sample_events_json) es \<and>
     list_all2 (\<lambda>e rec. kr_topic rec = raw_topic \<and> kr_key rec = st \<and>
       unmarshal_event (kr_value rec) = Some (wire_event st t e)) es (map snd (filter (\<lambda>p. fst p = 0) (sy_log g)))"
proof -
  obtain g w1 w2 where g: "gsys_reach raw_topic sample_gw g" "map th_rq (sy_threads g) = sample_requests"
    "map responded (sy_threads g) = [Some w1, Some w2]" "rs_status w1 = Some 200" by (rule sample_run)
  note f = sample_run_first [OF g(2,3)]
  from concurrent_events_logged [OF g(1) sample_gw_good _ refl f(2) _ g(4)] f(1,3) show ?thesis
    using g(1) by force
qed

theorem concurrent_stations_isolated_witness:
  "\<exists>g. gsys_reach raw_topic sample_gw g \<and> length (sy_threads g) = 2 \<and> heartbeats_ok (sy_world g) \<and>
     (\<forall>(i, rec) \<in> set (sy_log g). i < 2 \<and> kr_topic rec = raw_topic)"
proof -
  obtain g w1 w2 where g: "gsys_reach raw_topic sample_gw g" "map th_rq (sy_threads g) = sample_requests"
    "map responded (sy_threads g) = [Some w1, Some w2]" "rs_status w1 = Some 200" by (rule sample_run)
  from concurrent_stations_isolated [OF g(1) sample_gw_good sample_healthy(2)] sample_run_first(1) [OF g(2,3)] g(1)
  show ?thesis by (intro exI [of _ g]) auto
qed

theorem concurrent_requests_answered_witness:
  "\<not> (\<exists>f. f 0 = (system_start sample_gw)\<lparr>sy_threads := [new_thread (hd sample_requests)]\<rparr> \<and>
      (\<forall>n. serve_step raw_topic (f n) (f (Suc n)))) \<and>
   (\<exists>g. serve_step raw_topic ((system_start sample_gw)\<lparr>sy_threads := [new_thread (hd sample_requests)]\<rparr>) g)"
proof -
  let ?g = "(system_start sample_gw)\<lparr>sy_threads := [new_thread (hd sample_requests)]\<rparr>"
  have r: "gsys_reach raw_topic sample_gw ?g"
    using sys_env [OF sys_start env_step.arrives, of raw_topic sample_gw "hd sample_requests"]
    by (simp add: system_start_def)
  have "responded (sy_threads ?g ! 0) = None"
    by (simp add: responded_def new_thread_def replay_start is_events_def sample_requests_def)
  with concurrent_requests_answered [OF r sample_gw_good] show ?thesis by force
qed

end
