(* ===== verification/Gateway_Run.thy ===== *)
theory Gateway_Run
  imports Gateway
begin

section \<open>The gateway's life (\<open>config.go\<close>, \<open>db.go\<close>, \<open>run.go\<close>, the admin API)\<close>

text \<open>
  The configuration, \<open>openDB\<close>, the health and readiness handlers with the admin server, and \<open>Run\<close> as a
  step relation between its main goroutine, the two serving goroutines and the cancellation. What \<open>/readyz\<close>
  says in each state a run can be in is what \<open>ready means what it says\<close> comes to.
\<close>

subsection \<open>Configuration and database\<close>

record gw_config =
  gc_port :: string
  gc_admin_port :: string
  gc_database_url :: string
  gc_brokers :: "string list"
  gc_raw_topic :: string

definition load_gw_config :: "(string \<Rightarrow> string) \<Rightarrow> gw_config result" where
  "load_gw_config getenv =
     (case brokers getenv of
        Inl err \<Rightarrow> Inl err
      | Inr bs \<Rightarrow>
          (let cfg = \<lparr>gc_port = ''8080'', gc_admin_port = ''9091'', gc_database_url = getenv ''DATABASE_URL'',
                      gc_brokers = bs, gc_raw_topic = raw_topic\<rparr>
           in if gc_database_url cfg = [] then Inl (ErrNew ''DATABASE_URL is not set'') else Inr cfg))"

definition open_db :: "('p, string, 'w) connlib \<Rightarrow> string \<Rightarrow> 'w \<Rightarrow> 'p result \<times> 'w" where
  "open_db lib url w =
     (case cl_new lib url w of
        (Inl err, w1) \<Rightarrow> (Inl (ErrWrap ''parse database url'' err), w1)
      | (Inr pool, w1) \<Rightarrow>
          (case cl_ping lib pool w1 of
             (Some err, w2) \<Rightarrow> (Inl (ErrWrap ''connect to database'' err), cl_close lib pool w2)
           | (None, w2) \<Rightarrow> (Inr pool, w2)))"

lemma open_db_opened:
  assumes "conn_contract lib opened" "open_db lib url w = (r, w')"
  shows "(\<forall>err. r = Inl err \<longrightarrow> opened w' = opened w) \<and>
    (\<forall>p. r = Inr p \<longrightarrow> p \<notin> opened w \<and> opened w' = insert p (opened w))"
proof -
  obtain r1 w1 where n: "cl_new lib url w = (r1, w1)" by (cases "cl_new lib url w")
  show ?thesis
  proof (cases r1)
    case (Inl e)
    with assms(2) n conn_contract_new(1) [OF assms(1) n] show ?thesis by (auto simp: open_db_def)
  next
    case (Inr p)
    obtain e w2 where q: "cl_ping lib p w1 = (e, w2)" by (cases "cl_ping lib p w1")
    from conn_contract_new(2) [OF assms(1) n Inr] conn_contract_ping [OF assms(1) q]
      conn_contract_close [OF assms(1), of p w2] assms(2) n Inr q
    show ?thesis by (auto simp: open_db_def split: option.splits)
  qed
qed

subsection \<open>Health and readiness\<close>

definition handle_healthz :: "'s handler" where
  "handle_healthz ctx rq w s = (encode 200 (string_map_json [(''status'', ''ok'')]) w, s)"

type_synonym 's check_fn = "gctx \<Rightarrow> 's \<Rightarrow> gerror option \<times> 's"

text \<open>The checks in the order the map is ranged over; the first failure stops the loop.\<close>

fun run_checks :: "(string \<times> 's check_fn) list \<Rightarrow> gctx \<Rightarrow> 's \<Rightarrow> string option \<times> 's" where
  "run_checks [] ctx s = (None, s)"
| "run_checks ((name, check) # cs) ctx s =
     (case check ctx s of
        (Some err, s1) \<Rightarrow> (Some name, s1)
      | (None, s1) \<Rightarrow> run_checks cs ctx s1)"

definition handle_readyz :: "('s \<Rightarrow> bool) \<Rightarrow> 's clock_fn \<Rightarrow> (string \<times> 's check_fn) list \<Rightarrow> 's handler" where
  "handle_readyz ready now checks ctx rq w s =
     (if \<not> ready s then (encode 503 (string_map_json [(''status'', ''unavailable'')]) w, s)
      else
        (let (t, s1) = now s
         in case run_checks checks (with_deadline (nanos t + 2 * gw_second) ctx) s1 of
              (Some name, s2) \<Rightarrow>
                (encode 503 (string_map_json [(''status'', ''unavailable''), (''reason'', name)]) w, s2)
            | (None, s2) \<Rightarrow> (encode 200 (string_map_json [(''status'', ''ok'')]) w, s2)))"

definition new_admin_server :: "('s \<Rightarrow> bool) \<Rightarrow> 's clock_fn \<Rightarrow> (string \<times> 's check_fn) list \<Rightarrow> 's handler" where
  "new_admin_server ready now checks =
     serve_mux
       [(''GET'', ''/healthz'', handle_healthz),
        (''GET'', ''/readyz'', handle_readyz ready now checks)]"

subsection \<open>\<open>Run\<close>\<close>

text \<open>
  Where the main goroutine is: before \<open>openDB\<close>, before \<open>OpenKafka\<close>, in the loop that binds (\<open>gr_todo\<close> still
  to do), in the \<open>select\<close>, past it, draining the public server, draining the admin server, returned.
\<close>

datatype gphase = GStart | GDb | GBinding | GServing | GStopping | GDraining | GAdmin | GStopped "gerror option"

text \<open>
  \<open>gr_bound\<close> are the servers that serve, \<open>gr_dead\<close> those whose \<open>Serve\<close> has returned an error, \<open>gr_errc\<close> what
  is in the channel, \<open>gr_shut\<close> the servers whose \<open>Shutdown\<close> has returned. \<open>gr_db\<close> and \<open>gr_kafka\<close>: the connection is pinged and open.
\<close>

record grun =
  gr_phase :: gphase
  gr_ready :: bool
  gr_db :: bool
  gr_kafka :: bool
  gr_todo :: "string list"
  gr_bound :: "string list"
  gr_dead :: "string list"
  gr_shut :: "string list"
  gr_errc :: "gerror list"
  gr_serve_err :: "gerror option"
  gr_public_err :: "gerror option"
  gr_cancelled :: bool

definition gr_init :: grun where
  "gr_init = \<lparr>gr_phase = GStart, gr_ready = False, gr_db = False, gr_kafka = False, gr_todo = [], gr_bound = [],
     gr_dead = [], gr_shut = [], gr_errc = [], gr_serve_err = None, gr_public_err = None, gr_cancelled = False\<rparr>"

definition servers :: "string list" where
  "servers = [''public'', ''admin'']"

text \<open>Returning runs the deferred \<open>kafka.Close\<close> and \<open>pool.Close\<close>.\<close>

definition gr_return :: "gerror option \<Rightarrow> grun \<Rightarrow> grun" where
  "gr_return r g = g\<lparr>gr_phase := GStopped r, gr_db := False, gr_kafka := False\<rparr>"

inductive grun_step :: "grun \<Rightarrow> grun \<Rightarrow> bool" where
  db_fails: "gr_phase g = GStart \<Longrightarrow> grun_step g (gr_return (Some err) g)"
| db_opens: "gr_phase g = GStart \<Longrightarrow> grun_step g (g\<lparr>gr_phase := GDb, gr_db := True\<rparr>)"
| kafka_fails: "gr_phase g = GDb \<Longrightarrow> grun_step g (gr_return (Some err) g)"
| kafka_opens: "gr_phase g = GDb \<Longrightarrow> mset todo = mset servers \<Longrightarrow>
    grun_step g (g\<lparr>gr_phase := GBinding, gr_kafka := True, gr_todo := todo\<rparr>)"
| listen_fails: "gr_phase g = GBinding \<Longrightarrow> gr_todo g = name # rest \<Longrightarrow>
    grun_step g (gr_return (Some (ErrWrap (name @ '': listen'') err)) g)"
| listen_binds: "gr_phase g = GBinding \<Longrightarrow> gr_todo g = name # rest \<Longrightarrow>
    grun_step g (g\<lparr>gr_todo := rest, gr_bound := name # gr_bound g\<rparr>)"
| becomes_ready: "gr_phase g = GBinding \<Longrightarrow> gr_todo g = [] \<Longrightarrow>
    grun_step g (g\<lparr>gr_phase := GServing, gr_ready := True\<rparr>)"
| serve_dies: "name \<in> set (gr_bound g) \<Longrightarrow>
    grun_step g (g\<lparr>gr_bound := remove1 name (gr_bound g), gr_dead := name # gr_dead g,
      gr_errc := gr_errc g @ [ErrWrap (name @ '': serve'') err]\<rparr>)"
| cancelled: "\<not> gr_cancelled g \<Longrightarrow> grun_step g (g\<lparr>gr_cancelled := True\<rparr>)"
| select_ctx: "gr_phase g = GServing \<Longrightarrow> gr_cancelled g \<Longrightarrow> grun_step g (g\<lparr>gr_phase := GStopping\<rparr>)"
| select_err: "gr_phase g = GServing \<Longrightarrow> gr_errc g = err # rest \<Longrightarrow>
    grun_step g (g\<lparr>gr_phase := GStopping, gr_errc := rest, gr_serve_err := Some err\<rparr>)"
| becomes_unready: "gr_phase g = GStopping \<Longrightarrow> grun_step g (g\<lparr>gr_phase := GDraining, gr_ready := False\<rparr>)"
| public_shut: "gr_phase g = GDraining \<Longrightarrow>
    grun_step g (g\<lparr>gr_phase := GAdmin, gr_bound := remove1 ''public'' (gr_bound g),
      gr_shut := gr_shut g @ [''public''], gr_public_err := r\<rparr>)"
| admin_shut: "gr_phase g = GAdmin \<Longrightarrow>
    grun_step g (gr_return (errors_join [gr_serve_err g, gr_public_err g, r])
      (g\<lparr>gr_bound := remove1 ''admin'' (gr_bound g), gr_shut := gr_shut g @ [''admin'']\<rparr>))"

inductive grun_reach :: "grun \<Rightarrow> bool" where
  reach_init: "grun_reach gr_init"
| reach_step: "grun_reach g \<Longrightarrow> grun_step g g' \<Longrightarrow> grun_reach g'"

lemma gr_return_simps [simp]:
  "gr_phase (gr_return r g) = GStopped r" "gr_db (gr_return r g) = False" "gr_kafka (gr_return r g) = False"
  "gr_ready (gr_return r g) = gr_ready g" "gr_bound (gr_return r g) = gr_bound g" "gr_dead (gr_return r g) = gr_dead g"
  "gr_errc (gr_return r g) = gr_errc g" "gr_todo (gr_return r g) = gr_todo g" "gr_cancelled (gr_return r g) = gr_cancelled g"
  "gr_serve_err (gr_return r g) = gr_serve_err g" "gr_shut (gr_return r g) = gr_shut g"
  by (simp_all add: gr_return_def)

subsection \<open>The invariant\<close>

text \<open>
  Every server is still to be bound, or serving, or dead; \<open>remove1\<close> by \<open>Shutdown\<close> takes it out of the
  account, in the last phases.
\<close>

definition gr_servers :: "grun \<Rightarrow> string list" where
  "gr_servers g = gr_todo g @ gr_bound g @ gr_dead g"

fun phase_inv :: "gphase \<Rightarrow> grun \<Rightarrow> bool" where
  "phase_inv GStart g \<longleftrightarrow> \<not> gr_ready g \<and> \<not> gr_db g \<and> \<not> gr_kafka g \<and> gr_servers g = []"
| "phase_inv GDb g \<longleftrightarrow> \<not> gr_ready g \<and> gr_db g \<and> \<not> gr_kafka g \<and> gr_servers g = []"
| "phase_inv GBinding g \<longleftrightarrow> \<not> gr_ready g \<and> gr_db g \<and> gr_kafka g \<and> mset (gr_servers g) = mset servers"
| "phase_inv GServing g \<longleftrightarrow> gr_ready g \<and> gr_db g \<and> gr_kafka g \<and> gr_todo g = [] \<and> mset (gr_servers g) = mset servers"
| "phase_inv GStopping g \<longleftrightarrow> gr_ready g \<and> gr_db g \<and> gr_kafka g \<and> gr_todo g = [] \<and> mset (gr_servers g) = mset servers \<and>
     (gr_cancelled g \<or> gr_serve_err g \<noteq> None)"
| "phase_inv GDraining g \<longleftrightarrow> \<not> gr_ready g \<and> gr_db g \<and> gr_kafka g \<and> gr_todo g = [] \<and>
     mset (gr_servers g) = mset servers \<and> (gr_cancelled g \<or> gr_serve_err g \<noteq> None)"
| "phase_inv GAdmin g \<longleftrightarrow> \<not> gr_ready g \<and> gr_db g \<and> gr_kafka g \<and> gr_todo g = [] \<and>
     mset (gr_servers g) \<subseteq># mset servers \<and> ''public'' \<notin> set (gr_bound g) \<and> ''public'' \<in> set (gr_shut g) \<and>
     (gr_cancelled g \<or> gr_serve_err g \<noteq> None)"
| "phase_inv (GStopped r) g \<longleftrightarrow> \<not> gr_ready g \<and> \<not> gr_db g \<and> \<not> gr_kafka g \<and>
     mset (gr_servers g) \<subseteq># mset servers \<and> (r = None \<longrightarrow> gr_cancelled g \<and> gr_bound g = [])"

definition grun_inv :: "grun \<Rightarrow> bool" where
  "grun_inv g \<longleftrightarrow> phase_inv (gr_phase g) g \<and> length (gr_errc g) \<le> length (gr_dead g)"

lemma gr_servers_dies:
  assumes "name \<in> set (gr_bound g)"
  shows "mset (gr_servers (g\<lparr>gr_bound := remove1 name (gr_bound g), gr_dead := name # gr_dead g, gr_errc := es\<rparr>)) =
    mset (gr_servers g)"
proof -
  have "add_mset name (mset (remove1 name (gr_bound g))) = mset (gr_bound g)" using assms by simp
  then have "mset (remove1 name (gr_bound g)) + add_mset name (mset (gr_dead g)) = mset (gr_bound g) + mset (gr_dead g)"
    by (metis union_mset_add_mset_left union_mset_add_mset_right)
  then show ?thesis unfolding gr_servers_def by (simp add: add.assoc)
qed

lemma remove1_mset_subset: "mset (remove1 x xs) \<subseteq># mset xs"
  by (simp add: diff_subset_eq_self)

lemma gr_servers_shut:
  assumes "mset (gr_servers g) \<subseteq># M"
  shows "mset (gr_servers (g\<lparr>gr_bound := remove1 name (gr_bound g)\<rparr>)) \<subseteq># M"
proof -
  have "mset (gr_servers (g\<lparr>gr_bound := remove1 name (gr_bound g)\<rparr>)) \<subseteq># mset (gr_servers g)"
    unfolding gr_servers_def
    by (simp add: diff_subset_eq_self subset_mset.add_mono subset_mset.add_left_mono subset_mset.add_right_mono)
  with assms show ?thesis by (rule subset_mset.order_trans [rotated])
qed

lemma bound_distinct:
  assumes "mset (gr_servers g) \<subseteq># mset servers"
  shows "distinct (gr_bound g) \<and> set (gr_bound g) \<subseteq> set servers"
proof -
  have b: "mset (gr_bound g) \<subseteq># mset servers"
    using assms unfolding gr_servers_def by (simp add: subset_mset.order_trans [rotated])
  then have "set (gr_bound g) \<subseteq> set servers" by (metis set_mset_mono set_mset_mset)
  moreover have "count (mset (gr_bound g)) x = (if x \<in> set (gr_bound g) then 1 else 0)" for x
  proof (cases "x \<in> set (gr_bound g)")
    case True
    then have "0 < count (mset (gr_bound g)) x" by (simp add: count_greater_zero_iff)
    moreover have "count (mset servers) x \<le> 1" by (auto simp: servers_def)
    ultimately show ?thesis using mset_subset_eq_count [OF b, of x] unfolding if_P [OF True] by linarith
  qed (simp add: count_eq_zero_iff)
  then have "distinct (gr_bound g)" unfolding distinct_count_atmost_1 by blast
  ultimately show ?thesis by blast
qed

lemma gr_servers_return [simp]: "gr_servers (gr_return r g) = gr_servers g"
  by (simp add: gr_servers_def)

lemma gr_servers_shut_list [simp]: "gr_servers (g\<lparr>gr_shut := ns\<rparr>) = gr_servers g"
  by (simp add: gr_servers_def)

lemma admin_only:
  assumes "mset (gr_servers g) \<subseteq># mset servers" "''public'' \<notin> set (gr_bound g)"
  shows "remove1 ''admin'' (gr_bound g) = []"
proof -
  have "set (remove1 ''admin'' (gr_bound g)) = {}"
    using bound_distinct [OF assms(1)] assms(2) by (auto simp: set_remove1_eq servers_def)
  then show ?thesis by simp
qed

lemma grun_inv_step:
  assumes "grun_step g g'" "grun_inv g"
  shows "grun_inv g'"
  using assms
proof (induction rule: grun_step.induct)
  case (serve_dies name g err)
  note m = gr_servers_dies [OF serve_dies(1)]
  have "gr_servers g \<noteq> []" using serve_dies(1) by (auto simp: gr_servers_def)
  with serve_dies show ?case
    by (cases "gr_phase g") (auto simp: grun_inv_def m gr_servers_def [of g])
next
  case (public_shut g r)
  then show ?case using gr_servers_shut [of g "mset servers" "''public''"] bound_distinct [of g]
    by (auto simp: grun_inv_def gr_servers_def)
next
  case (admin_shut g r)
  then have "remove1 ''admin'' (gr_bound g) = []" by (intro admin_only) (simp_all add: grun_inv_def)
  with admin_shut show ?case using gr_servers_shut [of g "mset servers" "''admin''"]
    by (auto simp: grun_inv_def)
next
  case (cancelled g)
  then show ?case by (cases "gr_phase g") (auto simp: grun_inv_def gr_servers_def)
qed (auto simp: grun_inv_def gr_servers_def)

lemma grun_reach_inv: "grun_reach g \<Longrightarrow> grun_inv g"
proof (induction rule: grun_reach.induct)
  case reach_init
  show ?case by (simp add: grun_inv_def gr_init_def gr_servers_def)
qed (rule grun_inv_step)

lemma grun_reach_phase: "grun_reach g \<Longrightarrow> phase_inv (gr_phase g) g"
  using grun_reach_inv by (simp add: grun_inv_def)

lemma ready_phase:
  assumes "grun_reach g" "gr_ready g"
  shows "gr_phase g = GServing \<or> gr_phase g = GStopping"
  using grun_reach_phase [OF assms(1)] assms(2) by (cases "gr_phase g") auto

subsection \<open>Probing\<close>

definition readyz_request :: request where
  "readyz_request = \<lparr>rq_method = ''GET'', rq_path = ''/readyz'', rq_authorization = [], rq_body = []\<rparr>"

definition probe :: "grun clock_fn \<Rightarrow> (string \<times> grun check_fn) list \<Rightarrow> grun \<Rightarrow> nat option" where
  "probe now checks g = rs_status (fst (new_admin_server gr_ready now checks background readyz_request empty_response g))"

lemma readyz_status:
  "rs_status (fst (new_admin_server ready now checks background readyz_request empty_response s)) =
    (if \<not> ready s then Some 503
     else if fst (run_checks checks (with_deadline (nanos (fst (now s)) + 2 * gw_second) background) (snd (now s))) = None
       then Some 200 else Some 503)"
  by (auto simp: new_admin_server_def serve_mux_def readyz_request_def method_matches_def handle_readyz_def Let_def
      split: prod.splits option.splits)

lemma probe_not_ready: "\<not> gr_ready g \<Longrightarrow> probe now checks g = Some 503"
  by (simp add: probe_def readyz_status)

text \<open>
  A probe is not one step of the run: it connects in one state, loads the flag in a later one, and reads the
  clock and asks each check in states later still. The handler's own world is therefore the path of run
  states still to come: every look at the world takes the next one, and the last one stays.
\<close>

type_synonym grun_path = "grun \<times> grun list"

fun next_state :: "grun_path \<Rightarrow> grun_path" where
  "next_state (g, []) = (g, [])"
| "next_state (g, h # hs) = (h, hs)"

definition on_path :: "(grun \<Rightarrow> 'a) \<Rightarrow> grun_path \<Rightarrow> 'a \<times> grun_path" where
  "on_path f p = (f (fst p), next_state p)"

type_synonym ping = "gctx \<Rightarrow> grun \<Rightarrow> gerror option"

definition path_probe :: "(grun \<Rightarrow> gtime) \<Rightarrow> (string \<times> ping) list \<Rightarrow> grun_path \<Rightarrow> nat option" where
  "path_probe now checks p =
     rs_status (fst (new_admin_server (\<lambda>p. gr_ready (fst p)) (on_path now)
       (map (\<lambda>(name, check). (name, \<lambda>ctx. on_path (check ctx))) checks) background readyz_request empty_response p))"

text \<open>A probe that connects in \<open>gc\<close> (refused when nothing listens) and whose handler starts in \<open>g\<close>.\<close>

definition readyz_answer ::
  "(grun \<Rightarrow> gtime) \<Rightarrow> (string \<times> ping) list \<Rightarrow> grun \<Rightarrow> grun \<Rightarrow> grun list \<Rightarrow> nat option" where
  "readyz_answer now checks gc g gs =
     (if ''admin'' \<in> set (gr_bound gc) then path_probe now checks (g, gs) else None)"

lemma path_probe_status:
  "path_probe now checks (g, gs) =
    (if \<not> gr_ready g then Some 503
     else if fst (run_checks (map (\<lambda>(name, check). (name, \<lambda>ctx. on_path (check ctx))) checks)
         (with_deadline (nanos (now g) + 2 * gw_second) background) (next_state (g, gs))) = None
       then Some 200 else Some 503)"
  unfolding path_probe_def readyz_status by (simp add: on_path_def)

text \<open>Where the flag is set everything is up; so a 200 in flight means that it was, and that each check passed
  in the state that it was asked in.\<close>

lemma ready_up:
  assumes "grun_reach g" "gr_ready g"
  shows "gr_db g \<and> gr_kafka g \<and> set (gr_bound g) \<union> set (gr_dead g) = set servers"
proof -
  have p: "phase_inv (gr_phase g) g" by (rule grun_reach_phase [OF assms(1)])
  from ready_phase [OF assms] p
  have "gr_db g" "gr_kafka g" "gr_todo g = []" "mset (gr_servers g) = mset servers" by auto
  moreover from this(3,4) have "set (gr_bound g) \<union> set (gr_dead g) = set servers"
    using mset_eq_setD [of "gr_servers g" servers] by (simp add: gr_servers_def)
  ultimately show ?thesis by blast
qed

lemma in_flight_checked:
  assumes "grun_reach g" "readyz_answer now checks gc g gs = Some 200"
  shows "gr_db g \<and> gr_kafka g \<and> set (gr_bound g) \<union> set (gr_dead g) = set servers \<and>
    fst (run_checks (map (\<lambda>(name, check). (name, \<lambda>ctx. on_path (check ctx))) checks)
      (with_deadline (nanos (now g) + 2 * gw_second) background) (next_state (g, gs))) = None"
proof -
  from assms(2) have "path_probe now checks (g, gs) = Some 200" by (simp add: readyz_answer_def split: if_splits)
  then show ?thesis unfolding path_probe_status using ready_up [OF assms(1)] by (auto split: if_splits)
qed

text \<open>The phases only go forward, so a flag once cleared stays so.\<close>

fun phase_rank :: "gphase \<Rightarrow> nat" where
  "phase_rank GStart = 7" | "phase_rank GDb = 6" | "phase_rank GBinding = 5" | "phase_rank GServing = 4"
| "phase_rank GStopping = 3" | "phase_rank GDraining = 2" | "phase_rank GAdmin = 1" | "phase_rank (GStopped r) = 0"

lemma grun_step_rank: "grun_step g g' \<Longrightarrow> phase_rank (gr_phase g') \<le> phase_rank (gr_phase g)"
  by (induction rule: grun_step.induct) (auto simp: gr_return_def)

lemma cleared_stays:
  assumes "grun_reach gc" "grun_step\<^sup>*\<^sup>* gc g" "gr_phase gc \<in> {GDraining, GAdmin} \<union> range GStopped"
  shows "\<not> gr_ready g"
proof -
  have "grun_reach g \<and> phase_rank (gr_phase g) \<le> phase_rank (gr_phase gc)"
    using assms(2,1) by (induction rule: rtranclp_induct) (auto intro: reach_step dest: grun_step_rank)
  moreover have "phase_rank (gr_phase gc) \<le> 2" using assms(3) by auto
  ultimately show ?thesis using ready_phase [of g] by auto
qed

text \<open>The main goroutine's way to a serving gateway.\<close>

definition sample_serving :: grun where
  "sample_serving = \<lparr>gr_phase = GServing, gr_ready = True, gr_db = True, gr_kafka = True, gr_todo = [],
     gr_bound = [''admin'', ''public''], gr_dead = [], gr_shut = [], gr_errc = [], gr_serve_err = None,
     gr_public_err = None, gr_cancelled = False\<rparr>"

lemma binding_reach:
  "grun_reach (gr_init\<lparr>gr_phase := GBinding, gr_db := True, gr_kafka := True, gr_todo := servers\<rparr>)"
proof -
  have "grun_reach (gr_init\<lparr>gr_phase := GDb, gr_db := True\<rparr>)"
    by (rule reach_step [OF reach_init db_opens]) (simp add: gr_init_def)
  from reach_step [OF this kafka_opens [where todo = servers]] show ?thesis by (simp add: gr_init_def)
qed

lemma public_bound_reach:
  "grun_reach (gr_init\<lparr>gr_phase := GBinding, gr_db := True, gr_kafka := True, gr_todo := [''admin''], gr_bound := [''public'']\<rparr>)"
  using reach_step [OF binding_reach listen_binds [of _ "''public''" "[''admin'']"]] by (simp add: gr_init_def servers_def)

lemma serving_reach: "grun_reach sample_serving"
proof -
  have "grun_reach (gr_init\<lparr>gr_phase := GBinding, gr_db := True, gr_kafka := True, gr_todo := [],
      gr_bound := [''admin'', ''public'']\<rparr>)"
    using reach_step [OF public_bound_reach listen_binds [of _ "''admin''" "[]"]] by (simp add: gr_init_def)
  from reach_step [OF this becomes_ready] show ?thesis by (simp add: gr_init_def sample_serving_def)
qed

subsection \<open>Steps are finite, and not stuck\<close>

definition run_measure :: "grun \<Rightarrow> nat" where
  "run_measure g = 10 * phase_rank (gr_phase g) + 2 * length (gr_todo g) + length (gr_bound g) +
     (if gr_cancelled g then 0 else 1)"

lemma grun_step_measure: "grun_step g g' \<Longrightarrow> run_measure g' < run_measure g"
proof (induction rule: grun_step.induct)
  case (kafka_opens g todo)
  then have "length todo = 2" using mset_eq_length [of todo servers] by (simp add: servers_def)
  with kafka_opens show ?case by (simp add: run_measure_def)
next
  case (serve_dies name g err)
  then have "0 < length (gr_bound g)" by (rule length_pos_if_in_set)
  with serve_dies show ?case by (simp add: run_measure_def length_remove1)
qed (auto simp: run_measure_def length_remove1 gr_return_def)

lemma grun_steps_measure: "(grun_step ^^ n) g g' \<Longrightarrow> n + run_measure g' \<le> run_measure g"
proof (induction n arbitrary: g')
  case (Suc n)
  then obtain g1 where "(grun_step ^^ n) g g1" "grun_step g1 g'" by auto
  with Suc.IH [of g1] grun_step_measure [of g1 g'] show ?case by simp
qed simp

lemma grun_steps_reach: "(grun_step ^^ n) gr_init g \<Longrightarrow> grun_reach g"
  by (induction n arbitrary: g) (auto intro: grun_reach.intros)

lemma grun_progress:
  assumes "gr_cancelled g" "\<And>r. gr_phase g \<noteq> GStopped r"
  shows "\<exists>g'. grun_step g g'"
proof (cases "gr_phase g")
  case GBinding
  then show ?thesis
    by (cases "gr_todo g") (auto intro: grun_step.becomes_ready grun_step.listen_binds)
qed (use assms in \<open>auto intro: grun_step.intros\<close>)

subsection \<open>Properties\<close>

text \<open>C19: ready means what it says: in whatever state a run can be in, \<open>/readyz\<close> answers 200 only when the
  database and Kafka have been pinged and are open, both listeners have been bound (and serve, unless
  their \<open>Serve\<close> has failed since), and every check has just passed.\<close>

theorem ready_means_up:
  assumes "grun_reach g" "probe now checks g = Some 200"
  shows "gr_db g \<and> gr_kafka g \<and> set (gr_bound g) \<union> set (gr_dead g) = set servers \<and>
    fst (run_checks checks (with_deadline (nanos (fst (now g)) + 2 * gw_second) background) (snd (now g))) = None"
proof -
  from assms(2) have r: "gr_ready g"
    and c: "fst (run_checks checks (with_deadline (nanos (fst (now g)) + 2 * gw_second) background) (snd (now g))) = None"
    unfolding probe_def readyz_status by (auto split: if_splits)
  with ready_up [OF assms(1) r] show ?thesis by blast
qed

theorem ready_means_up_witness:
  "set (gr_bound sample_serving) \<union> set (gr_dead sample_serving) = set servers"
proof -
  have "probe (\<lambda>g. (zero_time, g)) [(''database'', \<lambda>ctx g. (None, g))] sample_serving = Some 200"
    by (simp add: probe_def readyz_status sample_serving_def)
  from ready_means_up [OF serving_reach this] show ?thesis by blast
qed

text \<open>C20: the drain is announced. A probe that connects after the flag was cleared is never answered 200,
  whatever its checks find. As long as the public server's \<open>Shutdown\<close> has not returned it is answered, and
  with a 503, unless the admin server's own \<open>Serve\<close> has failed: so \<open>Run\<close> drains the public server first.
  A probe that loaded the flag before it was cleared may still say 200 (\<open>in_flight_200\<close>).\<close>

theorem drain_reports_503:
  assumes "grun_reach gc" "grun_step\<^sup>*\<^sup>* gc g" "gr_phase gc \<in> {GDraining, GAdmin} \<union> range GStopped"
  shows "readyz_answer now checks gc g gs \<in> {None, Some 503} \<and>
    (gr_phase gc \<in> {GDraining, GAdmin} \<and> ''public'' \<notin> set (gr_shut gc) \<and> ''admin'' \<notin> set (gr_dead gc) \<longrightarrow>
       readyz_answer now checks gc g gs = Some 503)"
proof -
  have unready: "\<not> gr_ready g" by (rule cleared_stays [OF assms])
  have "''admin'' \<in> set (gr_bound gc)"
    if "gr_phase gc \<in> {GDraining, GAdmin}" "''public'' \<notin> set (gr_shut gc)" "''admin'' \<notin> set (gr_dead gc)"
  proof -
    have "gr_todo gc = []" "mset (gr_servers gc) = mset servers" using grun_reach_phase [OF assms(1)] that(1,2) by auto
    with that(3) show ?thesis using mset_eq_setD [of "gr_servers gc" servers] by (auto simp: gr_servers_def servers_def)
  qed
  with unready show ?thesis by (auto simp: readyz_answer_def path_probe_status)
qed

lemma draining_reach:
  "grun_reach (sample_serving\<lparr>gr_cancelled := True, gr_phase := GDraining, gr_ready := False\<rparr>)"
proof -
  have "grun_reach (sample_serving\<lparr>gr_cancelled := True\<rparr>)"
    by (rule reach_step [OF serving_reach cancelled]) (simp add: sample_serving_def)
  then have "grun_reach (sample_serving\<lparr>gr_cancelled := True, gr_phase := GStopping\<rparr>)"
    by (rule reach_step [OF _ select_ctx]) (simp_all add: sample_serving_def)
  from reach_step [OF this becomes_unready] show ?thesis by (simp add: sample_serving_def)
qed

theorem drain_reports_503_witness:
  "readyz_answer (\<lambda>g. zero_time) [] (sample_serving\<lparr>gr_cancelled := True, gr_phase := GDraining, gr_ready := False\<rparr>)
     (sample_serving\<lparr>gr_cancelled := True, gr_phase := GDraining, gr_ready := False\<rparr>) [] = Some 503"
proof -
  have "gr_phase (sample_serving\<lparr>gr_cancelled := True, gr_phase := GDraining, gr_ready := False\<rparr>) \<in>
      {GDraining, GAdmin} \<union> range GStopped" by simp
  from drain_reports_503 [OF draining_reach rtranclp.rtrancl_refl this] show ?thesis by (simp add: sample_serving_def)
qed

text \<open>The probe in flight: it loads the flag while serving, its check passes after the flag was cleared.\<close>

lemma in_flight_200:
  "grun_step\<^sup>*\<^sup>* sample_serving (sample_serving\<lparr>gr_cancelled := True, gr_phase := GDraining, gr_ready := False\<rparr>) \<and>
   readyz_answer (\<lambda>g. zero_time) [(''database'', \<lambda>ctx g. if gr_ready g then Some ErrCanceled else None)]
     sample_serving sample_serving
     [sample_serving\<lparr>gr_cancelled := True, gr_phase := GDraining, gr_ready := False\<rparr>] = Some 200"
proof
  have "grun_step sample_serving (sample_serving\<lparr>gr_cancelled := True\<rparr>)"
    by (rule cancelled) (simp add: sample_serving_def)
  moreover have "grun_step (sample_serving\<lparr>gr_cancelled := True\<rparr>) (sample_serving\<lparr>gr_cancelled := True, gr_phase := GStopping\<rparr>)"
    using select_ctx [of "sample_serving\<lparr>gr_cancelled := True\<rparr>"] by (simp add: sample_serving_def)
  moreover have "grun_step (sample_serving\<lparr>gr_cancelled := True, gr_phase := GStopping\<rparr>)
      (sample_serving\<lparr>gr_cancelled := True, gr_phase := GDraining, gr_ready := False\<rparr>)"
    using becomes_unready [of "sample_serving\<lparr>gr_cancelled := True, gr_phase := GStopping\<rparr>"] by (simp add: sample_serving_def)
  ultimately show "grun_step\<^sup>*\<^sup>* sample_serving (sample_serving\<lparr>gr_cancelled := True, gr_phase := GDraining, gr_ready := False\<rparr>)"
    by (meson converse_rtranclp_into_rtranclp rtranclp.rtrancl_refl)
qed (simp add: readyz_answer_def path_probe_status on_path_def sample_serving_def)

text \<open>C21: however a run ends, its database pool and its Kafka client are closed and it is not ready; it returns
  nil only after a cancellation, with no server left serving. The channel of serving errors never holds
  more than its capacity of two, so no serving goroutine blocks on it.\<close>

theorem run_releases:
  assumes "grun_reach g"
  shows "length (gr_errc g) \<le> 2 \<and>
    (\<forall>r. gr_phase g = GStopped r \<longrightarrow> \<not> gr_db g \<and> \<not> gr_kafka g \<and> \<not> gr_ready g \<and>
       (r = None \<longrightarrow> gr_cancelled g \<and> gr_bound g = []))"
proof -
  have p: "phase_inv (gr_phase g) g" and e: "length (gr_errc g) \<le> length (gr_dead g)"
    using grun_reach_inv [OF assms] by (simp_all add: grun_inv_def)
  have "mset (gr_servers g) \<subseteq># mset servers" using p by (cases "gr_phase g") auto
  then have "length (gr_servers g) \<le> 2" using size_mset_mono by (fastforce simp: servers_def)
  then have "length (gr_errc g) \<le> 2" using e by (simp add: gr_servers_def)
  with p show ?thesis by auto
qed

theorem run_releases_witness: "length (gr_errc sample_serving) \<le> 2"
  using run_releases [OF serving_reach] by blast

text \<open>C22: \<open>Run\<close> returns: no run has more than 71 steps, of whatever kind and order, and once the context is
  cancelled the run is never stuck before it has returned.\<close>

theorem run_terminates:
  assumes "(grun_step ^^ n) gr_init g"
  shows "n \<le> 71 \<and> (gr_cancelled g \<and> \<not> (\<exists>g'. grun_step g g') \<longrightarrow> (\<exists>r. gr_phase g = GStopped r))"
proof -
  have "n \<le> 71" using grun_steps_measure [OF assms] by (simp add: run_measure_def gr_init_def)
  with grun_progress [of g] show ?thesis by blast
qed

theorem run_terminates_witness:
  "(grun_step ^^ 1) gr_init (gr_return (Some (ErrNew ''refused'')) gr_init) \<and> (1::nat) \<le> 71"
proof -
  have "grun_step gr_init (gr_return (Some (ErrNew ''refused'')) gr_init)" by (rule db_fails) (simp add: gr_init_def)
  then have s: "(grun_step ^^ 1) gr_init (gr_return (Some (ErrNew ''refused'')) gr_init)" by (simp only: relpowp_1)
  from run_terminates [OF s] s show ?thesis by blast
qed

text \<open>Checks whose answers are their own.\<close>

definition pure_check :: "'s check_fn \<Rightarrow> bool" where
  "pure_check check \<longleftrightarrow> (\<exists>answer. \<forall>ctx s. check ctx s = (answer, s))"

lemma run_checks_pure:
  assumes "\<forall>(name, check) \<in> set cs. pure_check check"
  shows "fst (run_checks cs ctx s) = None \<longleftrightarrow> (\<forall>(name, check) \<in> set cs. fst (check ctx s) = None)"
    "fst (run_checks cs ctx s) = Some name \<Longrightarrow> \<exists>check err. (name, check) \<in> set cs \<and> check ctx s = (Some err, s)"
proof -
  have "(fst (run_checks cs ctx s) = None \<longleftrightarrow> (\<forall>(name, check) \<in> set cs. fst (check ctx s) = None)) \<and>
      (fst (run_checks cs ctx s) = Some name \<longrightarrow> (\<exists>check err. (name, check) \<in> set cs \<and> check ctx s = (Some err, s)))"
    using assms
  proof (induction cs)
    case (Cons c cs)
    obtain n check where c: "c = (n, check)" by (cases c)
    from Cons.prems c obtain answer where a: "check ctx s = (answer, s)" by (auto simp: pure_check_def)
    with Cons c show ?case by (cases answer) auto
  qed simp
  then show "fst (run_checks cs ctx s) = None \<longleftrightarrow> (\<forall>(name, check) \<in> set cs. fst (check ctx s) = None)"
    "fst (run_checks cs ctx s) = Some name \<Longrightarrow> \<exists>check err. (name, check) \<in> set cs \<and> check ctx s = (Some err, s)"
    by blast+
qed

text \<open>Whatever order the map of checks is ranged over, \<open>/readyz\<close> gives the same status, when each check's
  answer is its own; and the reason it names is a check that failed.\<close>

theorem readyz_any_order:
  assumes "mset checks' = mset checks"
    "\<forall>(name, check) \<in> set checks. pure_check check"
  shows "probe now checks' g = probe now checks g \<and>
    (\<forall>name ctx s. fst (run_checks checks ctx s) = Some name \<longrightarrow>
       (\<exists>check err. (name, check) \<in> set checks \<and> check ctx s = (Some err, s)))"
proof -
  have e: "set checks' = set checks" using assms(1) by (rule mset_eq_setD)
  then have p: "\<forall>(name, check) \<in> set checks'. pure_check check" using assms(2) by simp
  have "probe now checks' g = probe now checks g"
    unfolding probe_def readyz_status run_checks_pure(1) [OF assms(2)] run_checks_pure(1) [OF p] e ..
  with run_checks_pure(2) [OF assms(2)] show ?thesis by blast
qed

theorem readyz_any_order_witness:
  "probe (\<lambda>g. (zero_time, g)) [(''kafka'', \<lambda>ctx g. (Some ErrCanceled, g)), (''database'', \<lambda>ctx g. (None, g))] sample_serving =
   probe (\<lambda>g. (zero_time, g)) [(''database'', \<lambda>ctx g. (None, g)), (''kafka'', \<lambda>ctx g. (Some ErrCanceled, g))] sample_serving"
  using readyz_any_order [of "[(''kafka'', \<lambda>ctx g. (Some ErrCanceled, g)), (''database'', \<lambda>ctx g. (None, g))]"
    "[(''database'', \<lambda>ctx g. (None, g)), (''kafka'', \<lambda>ctx g. (Some ErrCanceled, g))]" "\<lambda>g. (zero_time, g)" sample_serving]
  by (simp add: pure_check_def)

text \<open>A taken port does not stop the server bound before it: when the second \<open>net.Listen\<close> fails, \<open>Run\<close>
  returns with the database and Kafka closed while the first server still serves, since only the regular
  way out calls \<open>Shutdown\<close>.\<close>

theorem listen_failure_keeps_serving:
  "\<exists>g err. grun_reach g \<and> gr_phase g = GStopped (Some (ErrWrap ''admin: listen'' err)) \<and>
     gr_bound g = [''public''] \<and> \<not> gr_db g \<and> \<not> gr_kafka g"
proof -
  have "grun_reach (gr_return (Some (ErrWrap ''admin: listen'' (ErrNew ''address already in use'')))
      (gr_init\<lparr>gr_phase := GBinding, gr_db := True, gr_kafka := True, gr_todo := [''admin''], gr_bound := [''public'']\<rparr>))"
    using reach_step [OF public_bound_reach listen_fails [of _ "''admin''" "[]"]] by (simp add: gr_init_def)
  then show ?thesis by (intro exI conjI) (assumption, simp_all)
qed

end
