(* ===== verification/Services.thy ===== *)
theory Services
  imports Archive_Sample History_Facts Gateway_Run
begin

section \<open>The services and their process (\<open>archiver.Run\<close>, \<open>history.Run\<close>, \<open>main.go\<close>)\<close>

text \<open>
  The two consumers' \<open>Run\<close> around the loops of \<open>Archive_Store\<close> and \<open>History\<close>: what they connect to and what
  they close. Then \<open>main.go\<close>: configuration into service, and the group of services that stop together.
\<close>

subsection \<open>\<open>archiver.Run\<close> and \<open>history.Run\<close>\<close>

text \<open>The connecting library works on the world the loop runs in; \<open>ops\<close> are a client's poll and commit.\<close>

definition arch_service ::
  "('c, kgo_opt list, ('k, 'e, fsys) world) connlib \<Rightarrow> ('c \<Rightarrow> 'k kclient) \<Rightarrow> parquet_lib \<Rightarrow> map_order \<Rightarrow> 'e hostops \<Rightarrow>
   arch_config \<Rightarrow> ('k, 'e, fsys) world \<Rightarrow> (gerror option \<times> ('k, 'e, fsys) world) option" where
  "arch_service lib ops pq iter ho cfg w =
     (case open_kafka lib (ac_brokers cfg)
             [ConsumerGroup (ac_group cfg), ConsumeTopics [ac_raw_topic cfg], DisableAutoCommit] w of
        (Inl err, w1) \<Rightarrow> Some (Some err, w1)
      | (Inr client, w1) \<Rightarrow>
          (case arch_run \<lparr>ar_config = cfg, ar_pq = pq, ar_iter = iter\<rparr> (ops client) ho w1 of
             None \<Rightarrow> None
           | Some (err, w2) \<Rightarrow> Some (err, cl_close lib client w2)))"

definition hist_service ::
  "('p, string, ('k, 'e, tracedb) world) connlib \<Rightarrow> ('c, kgo_opt list, ('k, 'e, tracedb) world) connlib \<Rightarrow>
   ('c \<Rightarrow> 'k kclient) \<Rightarrow> 'e hostops \<Rightarrow> hist_config \<Rightarrow> ('k, 'e, tracedb) world \<Rightarrow>
   (gerror option \<times> ('k, 'e, tracedb) world) option" where
  "hist_service plib lib ops ho cfg w =
     (case cl_new plib (hc_database_url cfg) w of
        (Inl err, w1) \<Rightarrow> Some (Some (ErrWrap ''parse database url'' err), w1)
      | (Inr pool, w1) \<Rightarrow>
          (case cl_ping plib pool w1 of
             (Some err, w2) \<Rightarrow> Some (Some (ErrWrap ''connect to database'' err), cl_close plib pool w2)
           | (None, w2) \<Rightarrow>
               (case open_kafka lib (hc_brokers cfg)
                       [ConsumerGroup (hc_group cfg),
                        ConsumeTopics [hc_topic cfg, hc_topic cfg @ replay_suffix], DisableAutoCommit] w2 of
                  (Inl err, w3) \<Rightarrow> Some (Some err, cl_close plib pool w3)
                | (Inr client, w3) \<Rightarrow>
                    (case hist_run cfg (ops client) ho w3 of
                       None \<Rightarrow> None
                     | Some (err, w4) \<Rightarrow> Some (err, cl_close plib pool (cl_close lib client w4))))))"

lemma arch_service_returns:
  assumes "arch_service lib ops pq iter ho cfg w = Some (r, w')"
  obtains (unconnected) err where "open_kafka lib (ac_brokers cfg)
      [ConsumerGroup (ac_group cfg), ConsumeTopics [ac_raw_topic cfg], DisableAutoCommit] w = (Inl err, w')" "r = Some err"
  | (ran) client w1 w2 where "open_kafka lib (ac_brokers cfg)
      [ConsumerGroup (ac_group cfg), ConsumeTopics [ac_raw_topic cfg], DisableAutoCommit] w = (Inr client, w1)"
      "arch_run \<lparr>ar_config = cfg, ar_pq = pq, ar_iter = iter\<rparr> (ops client) ho w1 = Some (r, w2)" "w' = cl_close lib client w2"
  using assms unfolding arch_service_def by (auto split: prod.splits sum.splits option.splits)

text \<open>The archiver leaks no connection: on every way out of \<open>Run\<close> the Kafka clients open are those that were
  open before it.\<close>

theorem archiver_closes:
  assumes "conn_contract lib opened"
    and "\<And>client. undisturbed (ops client) (arch_flush \<lparr>ar_config = cfg, ar_pq = pq, ar_iter = iter\<rparr> (ops client)) opened"
    and "arch_service lib ops pq iter ho cfg w = Some (r, w')"
  shows "opened w' = opened w"
  using assms(3)
proof (cases rule: arch_service_returns)
  case (unconnected err)
  with open_kafka_opened(1) [OF assms(1) unconnected(1)] show ?thesis by simp
next
  case (ran client w1 w2)
  have "opened w2 = opened w1" by (rule batch_undisturbed [OF assms(2) ran(2) [unfolded arch_run_def]])
  with open_kafka_opened(2) [OF assms(1) ran(1) refl] conn_contract_close [OF assms(1), of client w2] ran(3)
  show ?thesis by auto
qed

text \<open>A broker that hands out nothing; its state is whether a client and whether a pool is connected.\<close>

type_synonym 's idle_world = "(bool \<times> bool, nat, 's) world"

definition idle_kafka :: "'k kclient" where
  "idle_kafka = \<lparr>k_poll = (\<lambda>dl mx k. (\<lparr>f_records = [], f_err = None\<rparr>, k)), k_commit = (\<lambda>k. (None, k))\<rparr>"

definition idle_conn :: "(unit, kgo_opt list, 's idle_world) connlib" where
  "idle_conn =
     \<lparr>cl_new = (\<lambda>opts w. if fst (kafka w) then (Inl (ErrNew ''in use''), w) else (Inr (), w\<lparr>kafka := (True, snd (kafka w))\<rparr>)),
      cl_ping = (\<lambda>c w. (None, w)), cl_close = (\<lambda>c w. w\<lparr>kafka := (False, snd (kafka w))\<rparr>)\<rparr>"

definition idle_pool :: "(unit, string, 's idle_world) connlib" where
  "idle_pool =
     \<lparr>cl_new = (\<lambda>url w. if snd (kafka w) then (Inl (ErrNew ''in use''), w) else (Inr (), w\<lparr>kafka := (fst (kafka w), True)\<rparr>)),
      cl_ping = (\<lambda>c w. (None, w)), cl_close = (\<lambda>c w. w\<lparr>kafka := (fst (kafka w), False)\<rparr>)\<rparr>"

definition idle_opened :: "'s idle_world \<Rightarrow> unit set" where
  "idle_opened w = (if fst (kafka w) then {()} else {})"

definition idle_pooled :: "'s idle_world \<Rightarrow> unit set" where
  "idle_pooled w = (if snd (kafka w) then {()} else {})"

definition idle_world :: "'s \<Rightarrow> 's idle_world" where
  "idle_world s = \<lparr>kafka = (False, False), host = 0, sink = s\<rparr>"

lemma idle_contract: "conn_contract idle_conn idle_opened" "conn_contract idle_pool idle_pooled"
  "silent idle_conn idle_pooled" "silent idle_pool idle_opened"
  unfolding conn_contract_def silent_def
  by (auto simp: idle_conn_def idle_pool_def idle_opened_def idle_pooled_def)

lemma idle_kafka_simps [simp]:
  "k_poll idle_kafka dl mx k = (\<lparr>f_records = [], f_err = None\<rparr>, k)" "k_commit idle_kafka k = (None, k)"
  by (simp_all add: idle_kafka_def)

lemma idle_undisturbed_arch: "undisturbed idle_kafka (arch_flush a idle_kafka) idle_opened"
  unfolding undisturbed_def idle_opened_def
  by (auto simp: arch_flush_def split: prod.splits option.splits if_splits)

lemma idle_undisturbed_hist: "undisturbed idle_kafka (hist_flush cfg idle_kafka) idle_opened"
  "undisturbed idle_kafka (hist_flush cfg idle_kafka) idle_pooled"
  unfolding undisturbed_def idle_opened_def idle_pooled_def
  by (auto simp: hist_flush_def split: prod.splits option.splits if_splits)

lemma idle_open: "open_kafka idle_conn bs opts w =
    (if fst (kafka w) then (Inl (ErrWrap ''configure kafka client'' (ErrNew ''in use'')), w)
     else (Inr (), w\<lparr>kafka := (True, snd (kafka w))\<rparr>))"
  by (simp add: open_kafka_def idle_conn_def)

text \<open>With the context cancelled from the start, a loop on the idle broker flushes nothing and returns.\<close>

lemma idle_batch:
  assumes "\<And>w. flush [] w = (None, w)" "host w = 0"
  shows "batch idle_kafka sample_host fr fsec decode flush w = Some (None, w)"
  using assms unfolding batch_def
  by (subst batch_loop.simps) (simp add: batch_start_def batch_iter_def sample_host_def Let_def)

lemma idle_arch_service:
  "arch_service idle_conn (\<lambda>_. idle_kafka) sample_pq (\<lambda>gs. gs) sample_host (ar_config sample_archiver) (idle_world empty_fs) =
     Some (None, idle_world empty_fs)"
  by (simp add: arch_service_def idle_open idle_world_def arch_run_def idle_batch arch_flush_def)
    (simp add: idle_conn_def)

theorem archiver_closes_witness:
  "idle_opened (snd (the (arch_service idle_conn (\<lambda>_. idle_kafka) sample_pq (\<lambda>gs. gs) sample_host
     (ar_config sample_archiver) (idle_world empty_fs)))) = {}"
  using archiver_closes [OF idle_contract(1) idle_undisturbed_arch idle_arch_service] idle_arch_service
  by (simp add: idle_opened_def idle_world_def)

text \<open>The history writer leaks no connection: on every way out of \<open>Run\<close> the pools and the Kafka clients open
  are those that were open before it.\<close>

theorem history_closes:
  assumes "conn_contract plib pooled" "conn_contract lib opened" "silent plib opened" "silent lib pooled"
    and "\<And>client. undisturbed (ops client) (hist_flush cfg (ops client)) opened"
    and "\<And>client. undisturbed (ops client) (hist_flush cfg (ops client)) pooled"
    and "hist_service plib lib ops ho cfg w = Some (r, w')"
  shows "opened w' = opened w \<and> pooled w' = pooled w"
proof -
  obtain r1 w1 where n: "cl_new plib (hc_database_url cfg) w = (r1, w1)" by (cases "cl_new plib (hc_database_url cfg) w")
  show ?thesis
  proof (cases r1)
    case (Inl err)
    with assms(7) n have "w' = w1" by (simp add: hist_service_def)
    with conn_contract_new(1) [OF assms(1) n] Inl silent_rules(1) [OF assms(3) n] show ?thesis by simp
  next
    case (Inr pool)
    note p1 = conn_contract_new(2) [OF assms(1) n Inr] silent_rules(1) [OF assms(3) n]
    obtain e w2 where g: "cl_ping plib pool w1 = (e, w2)" by (cases "cl_ping plib pool w1")
    note p2 = conn_contract_ping [OF assms(1) g] silent_rules(2) [OF assms(3) g]
    note close = conn_contract_close [OF assms(1), of pool] silent_rules(3) [OF assms(3), of pool]
    show ?thesis
    proof (cases e)
      case (Some err)
      with assms(7) n Inr g have "w' = cl_close plib pool w2" by (simp add: hist_service_def)
      with p1 p2 close show ?thesis by auto
    next
      case None
      let ?opts = "[ConsumerGroup (hc_group cfg), ConsumeTopics [hc_topic cfg, hc_topic cfg @ replay_suffix], DisableAutoCommit]"
      obtain rk w3 where k: "open_kafka lib (hc_brokers cfg) ?opts w2 = (rk, w3)"
        by (cases "open_kafka lib (hc_brokers cfg) ?opts w2")
      note p3 = open_kafka_opened [OF assms(2) k] silent_open [OF assms(4) k]
      show ?thesis
      proof (cases rk)
        case (Inl err)
        with assms(7) n \<open>r1 = Inr pool\<close> g None k have "w' = cl_close plib pool w3" by (simp add: hist_service_def)
        with p1 p2 p3 Inl close show ?thesis by auto
      next
        case (Inr client)
        with assms(7) n \<open>r1 = Inr pool\<close> g None k obtain w4 where h: "hist_run cfg (ops client) ho w3 = Some (r, w4)"
            "w' = cl_close plib pool (cl_close lib client w4)"
          by (auto simp: hist_service_def split: option.splits prod.splits)
        note u = batch_undisturbed [OF assms(5) h(1) [unfolded hist_run_def]] batch_undisturbed [OF assms(6) h(1) [unfolded hist_run_def]]
        with p1 p2 p3 Inr close h(2) conn_contract_close [OF assms(2), of client w4] silent_rules(3) [OF assms(4), of client w4]
        show ?thesis by auto
      qed
    qed
  qed
qed

lemma idle_hist_service:
  "hist_service idle_pool idle_conn (\<lambda>_. idle_kafka) sample_host sample_hist_config (idle_world empty_db) =
     Some (None, idle_world empty_db)"
  by (simp add: hist_service_def idle_open idle_pool_def idle_world_def hist_run_def idle_batch hist_flush_def)
    (simp add: idle_conn_def)

theorem history_closes_witness:
  "idle_opened (snd (the (hist_service idle_pool idle_conn (\<lambda>_. idle_kafka) sample_host sample_hist_config
     (idle_world empty_db)))) = {}"
  using history_closes [OF idle_contract(2,1,4,3) idle_undisturbed_hist idle_hist_service] idle_hist_service
  by (simp add: idle_opened_def idle_world_def)

subsection \<open>\<open>main.go\<close>\<close>

text \<open>\<open>svc\<close>: load the configuration, then run; a service is what is left to apply to the world.\<close>

type_synonym 'w service = "'w \<Rightarrow> (gerror option \<times> 'w) option"

definition svc :: "((string \<Rightarrow> string) \<Rightarrow> 'c result) \<Rightarrow> ('c \<Rightarrow> 'w service) \<Rightarrow> (string \<Rightarrow> string) \<Rightarrow> 'w service" where
  "svc load run getenv w =
     (case load getenv of Inl err \<Rightarrow> Some (Some err, w) | Inr cfg \<Rightarrow> run cfg w)"

definition services ::
  "(gw_config \<Rightarrow> 'w service) \<Rightarrow> (arch_config \<Rightarrow> 'w service) \<Rightarrow> (hist_config \<Rightarrow> 'w service) \<Rightarrow> (string \<Rightarrow> string) \<Rightarrow>
   (string \<times> 'w service) list" where
  "services gw ar hi getenv =
     [(''gateway'', svc load_gw_config gw getenv),
      (''archiver'', svc load_arch_config ar getenv),
      (''history'', svc load_hist_config hi getenv)]"

text \<open>What the environment must have: each service refuses to start without its variables, naming the first
  that is missing, and starts with them. They are not disjoint: all three read \<open>KAFKA_BROKERS\<close>, and the
  gateway and the history writer read one and the same \<open>DATABASE_URL\<close>.\<close>

theorem services_environment:
  "(\<exists>cfg. load_gw_config getenv = Inr cfg) \<longleftrightarrow> getenv ''KAFKA_BROKERS'' \<noteq> [] \<and> getenv ''DATABASE_URL'' \<noteq> []"
  "(\<exists>cfg. load_hist_config getenv = Inr cfg) \<longleftrightarrow> getenv ''KAFKA_BROKERS'' \<noteq> [] \<and> getenv ''DATABASE_URL'' \<noteq> []"
  "(\<exists>cfg. load_arch_config getenv = Inr cfg) \<longleftrightarrow> getenv ''KAFKA_BROKERS'' \<noteq> [] \<and> getenv ''ARCHIVE_DIR'' \<noteq> []"
  by (auto simp: load_gw_config_def load_hist_config_def load_arch_config_def brokers_def Let_def)

subsection \<open>The group\<close>

text \<open>
  \<open>errgroup\<close>: the services still running, the first error, and whether the shared context is cancelled (by
  the signal or by the first error). \<open>may name c r\<close>: the service can return \<open>r\<close> with its context in state \<open>c\<close>.
\<close>

record group =
  gp_running :: "string list"
  gp_err :: "gerror option"
  gp_cancelled :: bool

definition group_start :: "string list \<Rightarrow> group" where
  "group_start names = \<lparr>gp_running = names, gp_err = None, gp_cancelled = False\<rparr>"

inductive group_step :: "(string \<Rightarrow> bool \<Rightarrow> gerror option \<Rightarrow> bool) \<Rightarrow> group \<Rightarrow> group \<Rightarrow> bool"
  for may where
  signalled: "group_step may g (g\<lparr>gp_cancelled := True\<rparr>)"
| returns: "name \<in> set (gp_running g) \<Longrightarrow> may name (gp_cancelled g) r \<Longrightarrow>
    group_step may g
      (g\<lparr>gp_running := remove1 name (gp_running g),
         gp_err := (case gp_err g of None \<Rightarrow> map_option (ErrWrap name) r | Some e \<Rightarrow> Some e),
         gp_cancelled := (gp_cancelled g \<or> r \<noteq> None)\<rparr>)"

inductive group_reach :: "(string \<Rightarrow> bool \<Rightarrow> gerror option \<Rightarrow> bool) \<Rightarrow> string list \<Rightarrow> group \<Rightarrow> bool"
  for may names where
  group_init: "group_reach may names (group_start names)"
| group_next: "group_reach may names g \<Longrightarrow> group_step may g g' \<Longrightarrow> group_reach may names g'"

text \<open>\<open>run\<close> returns when none is running; \<open>main\<close> exits with 1 on an error.\<close>

definition group_result :: "group \<Rightarrow> gerror option option" where
  "group_result g = (if gp_running g = [] then Some (gp_err g) else None)"

definition main_exit :: "gerror option \<Rightarrow> nat" where
  "main_exit r = (case r of None \<Rightarrow> 0 | Some _ \<Rightarrow> 1)"

text \<open>C37: one dead loop stops the rest: when services return nil only after a cancellation, then as soon as any
  service has returned the shared context is cancelled for all that still run; an error that is reported
  is that of a service, under its name; and an error once recorded is what the process exits with.\<close>

theorem services_stop_together:
  assumes "group_reach may names g" "\<forall>name. \<not> may name False None"
  shows "(mset (gp_running g) \<noteq> mset names \<longrightarrow> gp_cancelled g) \<and>
    (\<forall>err. gp_err g = Some err \<longrightarrow> gp_cancelled g \<and>
       (\<exists>name c e. name \<in> set names \<and> may name c (Some e) \<and> err = ErrWrap name e)) \<and>
    (group_result g = Some (gp_err g) \<longrightarrow> main_exit (gp_err g) = (if gp_err g = None then 0 else 1))"
proof -
  have "(mset (gp_running g) \<noteq> mset names \<longrightarrow> gp_cancelled g) \<and> set (gp_running g) \<subseteq> set names \<and>
    (\<forall>err. gp_err g = Some err \<longrightarrow> gp_cancelled g \<and>
       (\<exists>name c e. name \<in> set names \<and> may name c (Some e) \<and> err = ErrWrap name e))"
    using assms(1)
  proof (induction rule: group_reach.induct)
    case (group_next g g')
    from group_next.hyps(2) show ?case
    proof (cases rule: group_step.cases)
      case (returns name r)
      have "gp_cancelled g'" using returns assms(2) by (cases "gp_cancelled g"; cases r) auto
      moreover have "set (gp_running g') \<subseteq> set names"
        using returns(1) group_next.IH set_remove1_subset [of name "gp_running g"] by auto
      ultimately show ?thesis using returns group_next.IH by (auto split: option.splits)
    qed (use group_next.IH in auto)
  qed (simp add: group_start_def)
  then show ?thesis by (simp add: main_exit_def split: option.split)
qed

theorem services_stop_together_witness:
  "\<exists>g. group_reach (\<lambda>name c r. c \<or> r \<noteq> None) [''archiver'', ''history''] g \<and> gp_running g = [''history''] \<and> gp_cancelled g"
proof -
  let ?may = "\<lambda>name c r. c \<or> r \<noteq> None"
  let ?g = "\<lparr>gp_running = [''history''], gp_err = Some (ErrWrap ''archiver'' (ErrNew ''x'')), gp_cancelled = True\<rparr>"
  have "group_step ?may (group_start [''archiver'', ''history'']) ?g"
    using returns [of "''archiver''" "group_start [''archiver'', ''history'']" ?may "Some (ErrNew ''x'')"]
    by (simp add: group_start_def)
  then have r: "group_reach ?may [''archiver'', ''history''] ?g" by (rule group_next [OF group_init])
  have "gp_cancelled ?g" using services_stop_together [OF r] by simp
  with r show ?thesis by (intro exI [of _ ?g]) simp
qed

lemma live_batch_fails:
  assumes "\<forall>e. fst (h_ctx_err ho e) = None" "batch cl ho fr fsec decode flush w = Some (r, w')"
  shows "r \<noteq> None"
proof
  assume "r = None"
  with assms(2) have "batch cl ho fr fsec decode flush w = Some (None, w')" by simp
  from batch_nil_cancelled [OF this] show False using assms(1) by auto
qed

text \<open>A consumer stops quietly only when told to: while its context is not cancelled, whatever the archiver's
  or the history writer's \<open>Run\<close> returns is an error, which is what makes them services of a group that
  stops together.\<close>

theorem consumers_nil_only_cancelled:
  assumes "\<forall>e. fst (h_ctx_err ho e) = None"
  shows "(arch_service lib ops pq iter ho cfg w = Some (r, w') \<longrightarrow> r \<noteq> None) \<and>
    (hist_service plib lib' ops' ho hcfg w2 = Some (r2, w2') \<longrightarrow> r2 \<noteq> None)"
proof (intro conjI impI)
  assume "arch_service lib ops pq iter ho cfg w = Some (r, w')"
  then show "r \<noteq> None"
    by (cases rule: arch_service_returns) (use live_batch_fails [OF assms] in \<open>auto simp: arch_run_def\<close>)
next
  assume "hist_service plib lib' ops' ho hcfg w2 = Some (r2, w2')"
  then have "r2 \<noteq> None \<or> (\<exists>client w3 w4. hist_run hcfg (ops' client) ho w3 = Some (r2, w4))"
    by (auto simp: hist_service_def split: prod.splits sum.splits option.splits)
  then show "r2 \<noteq> None" using live_batch_fails [OF assms] unfolding hist_run_def by blast
qed

theorem consumers_nil_only_cancelled_witness:
  "\<exists>r w'. arch_service idle_conn (\<lambda>_. idle_kafka) sample_pq (\<lambda>gs. gs) \<lparr>h_now = (\<lambda>e. (0, e)), h_ctx_err = (\<lambda>e. (None, e))\<rparr>
     (ar_config sample_archiver) \<lparr>kafka = (True, False), host = 0, sink = empty_fs\<rparr> = Some (r, w') \<and> r \<noteq> None"
proof -
  let ?ho = "\<lparr>h_now = (\<lambda>e. (0, e)), h_ctx_err = (\<lambda>e. (None, e))\<rparr> :: nat hostops"
  let ?w = "\<lparr>kafka = (True, False), host = 0, sink = empty_fs\<rparr> :: fsys idle_world"
  obtain r w' where r: "arch_service idle_conn (\<lambda>_. idle_kafka) sample_pq (\<lambda>gs. gs) ?ho (ar_config sample_archiver) ?w = Some (r, w')"
    by (simp add: arch_service_def idle_open)
  moreover from r have "r \<noteq> None"
    using conjunct1 [OF consumers_nil_only_cancelled [of ?ho idle_conn "\<lambda>_. idle_kafka" sample_pq "\<lambda>gs. gs" "ar_config sample_archiver" ?w r w']]
    by simp
  ultimately show ?thesis by blast
qed

end
