(* ===== verification/Kafkatest.thy ===== *)
theory Kafkatest
  imports Wire
begin

section \<open>The tests' broker (\<open>internal/kafkatest\<close>)\<close>

text \<open>
  The helper the services' Kafka tests share: \<open>Main\<close> starts the broker and any other containers at the same
  time, runs the tests and tears the containers down; \<open>Start\<close> runs the broker's container; \<open>Topic\<close>,
  \<open>Produce\<close> and \<open>Consume\<close> are what a test calls. Docker, franz-go and the \<open>testing\<close> package are
  parameters over a world \<open>'w\<close>.
\<close>

subsection \<open>The package and a test\<close>

text \<open>The world with the package variable \<open>Brokers\<close>; a test also has the clients it closes when it ends.\<close>

record 'w pkg =
  pk_world :: 'w
  pk_brokers :: "string list"

record ('w, 'c) tstate = "'w pkg" +
  t_cleanups :: "'c list"

text \<open>How a helper ends: it returns, or it ends the test (\<open>t.Fatal\<close>, \<open>t.Skip\<close>, a panic).\<close>

datatype 'a tret = Returned 'a | Fatal string | Skipped string | Panicked string

subsection \<open>\<open>Start\<close>\<close>

record container_req =
  cr_image :: string
  cr_exposed :: "string list"
  cr_env :: "(string \<times> string) list"
  cr_bindings :: "(string \<times> string \<times> string) list"
  cr_wait_log :: string
  cr_wait_seconds :: int

text \<open>
  Docker and the network: \<open>net.Listen\<close> on a free port of the loopback, with the port it got; closing that
  listener; \<open>GenericContainer\<close> of a request, which may return a container beside an error; and
  \<open>TerminateContainer\<close>, which accepts nil.
\<close>

record ('h, 'w) docker =
  dk_listen :: "string \<Rightarrow> 'w \<Rightarrow> int result \<times> 'w"
  dk_unlisten :: "int \<Rightarrow> 'w \<Rightarrow> 'w"
  dk_run :: "container_req \<Rightarrow> 'w \<Rightarrow> ('h option \<times> gerror option) \<times> 'w"
  dk_terminate :: "'h option \<Rightarrow> 'w \<Rightarrow> gerror option \<times> 'w"

definition broker_req :: "int \<Rightarrow> container_req" where
  "broker_req port =
     \<lparr>cr_image = ''apache/kafka:4.3.1'',
      cr_exposed = [''9094/tcp''],
      cr_env =
        [(''KAFKA_NODE_ID'', ''1''),
         (''KAFKA_PROCESS_ROLES'', ''broker,controller''),
         (''KAFKA_CONTROLLER_QUORUM_VOTERS'', ''1@localhost:9093''),
         (''KAFKA_LISTENERS'', ''PLAINTEXT://:9092,CONTROLLER://:9093,EXTERNAL://:9094''),
         (''KAFKA_ADVERTISED_LISTENERS'', ''PLAINTEXT://localhost:9092,EXTERNAL://localhost:'' @ itoa port),
         (''KAFKA_LISTENER_SECURITY_PROTOCOL_MAP'', ''CONTROLLER:PLAINTEXT,PLAINTEXT:PLAINTEXT,EXTERNAL:PLAINTEXT''),
         (''KAFKA_CONTROLLER_LISTENER_NAMES'', ''CONTROLLER''),
         (''KAFKA_INTER_BROKER_LISTENER_NAME'', ''PLAINTEXT''),
         (''KAFKA_OFFSETS_TOPIC_REPLICATION_FACTOR'', ''1''),
         (''KAFKA_TRANSACTION_STATE_LOG_REPLICATION_FACTOR'', ''1''),
         (''KAFKA_TRANSACTION_STATE_LOG_MIN_ISR'', ''1''),
         (''KAFKA_AUTO_CREATE_TOPICS_ENABLE'', ''false''),
         (''KAFKA_HEAP_OPTS'', ''-Xmx256m -Xms256m'')],
      cr_bindings = [(''9094/tcp'', ''127.0.0.1'', itoa port)],
      cr_wait_log = ''Kafka Server started'',
      cr_wait_seconds = 60\<rparr>"

type_synonym ('h, 'w) start_fn = "'w pkg \<Rightarrow> ('h option \<times> gerror option) \<times> 'w pkg"

definition start_broker :: "('h, 'w) docker \<Rightarrow> ('h, 'w) start_fn" where
  "start_broker dk p =
     (case dk_listen dk ''127.0.0.1:0'' (pk_world p) of
        (Inl err, w1) \<Rightarrow> ((None, Some err), p\<lparr>pk_world := w1\<rparr>)
      | (Inr port, w1) \<Rightarrow>
          (let w2 = dk_unlisten dk port w1
           in case dk_run dk (broker_req port) w2 of
                ((_, Some err), w3) \<Rightarrow> ((None, Some err), p\<lparr>pk_world := w3\<rparr>)
              | ((c, None), w3) \<Rightarrow>
                  ((c, None), p\<lparr>pk_world := w3, pk_brokers := [''localhost:'' @ itoa port]\<rparr>)))"

subsection \<open>\<open>Main\<close>\<close>

text \<open>
  Each goroutine writes its own element of \<open>containers\<close> and \<open>errs\<close>; \<open>order\<close> is the order in which they
  come to do it, and \<open>wg.Wait\<close> waits for all.
\<close>

fun run_starts ::
  "('h, 'w) start_fn list \<Rightarrow> nat list \<Rightarrow> 'h option list \<Rightarrow> gerror option list \<Rightarrow> 'w pkg \<Rightarrow>
   'h option list \<times> gerror option list \<times> 'w pkg" where
  "run_starts starts [] cs errs p = (cs, errs, p)"
| "run_starts starts (i # order) cs errs p =
     (let ((c, err), p1) = (starts ! i) p in run_starts starts order (cs[i := c]) (errs[i := err]) p1)"

fun terminate_all :: "('h, 'w) docker \<Rightarrow> 'h option list \<Rightarrow> 'w \<Rightarrow> 'w" where
  "terminate_all dk [] w = w"
| "terminate_all dk (c # cs) w = terminate_all dk cs (snd (dk_terminate dk c w))"

definition test_main ::
  "('h, 'w) docker \<Rightarrow> ('w pkg \<Rightarrow> int \<times> 'w pkg) \<Rightarrow> bool \<Rightarrow> ('h, 'w) start_fn list \<Rightarrow> nat list \<Rightarrow> 'w pkg \<Rightarrow>
   int \<times> 'w pkg" where
  "test_main dk run short extra order p =
     (if short then run p
      else
        (let starts = start_broker dk # extra;
             n = length starts;
             (cs, errs, p1) = run_starts starts order (replicate n None) (replicate n None) p;
             (code, p2) = (if errors_join errs \<noteq> None then (1, p1) else run p1)
         in (code, p2\<lparr>pk_world := terminate_all dk cs (pk_world p2)\<rparr>)))"

subsection \<open>Clients, topics, records\<close>

definition new_client ::
  "('c, kgo_opt list, 'w) connlib \<Rightarrow> kgo_opt list \<Rightarrow> ('w, 'c) tstate \<Rightarrow> 'c tret \<times> ('w, 'c) tstate" where
  "new_client lib opts s =
     (case cl_new lib ([SeedBrokers (pk_brokers s)] @ opts) (pk_world s) of
        (Inl err, w1) \<Rightarrow> (Fatal (err_msg err), s\<lparr>pk_world := w1\<rparr>)
      | (Inr client, w1) \<Rightarrow> (Returned client, s\<lparr>pk_world := w1, t_cleanups := client # t_cleanups s\<rparr>))"

text \<open>A helper after \<open>newClient\<close>: it goes on with the client, or the test has ended.\<close>

definition with_client ::
  "('c, kgo_opt list, 'w) connlib \<Rightarrow> kgo_opt list \<Rightarrow> ('c \<Rightarrow> ('w, 'c) tstate \<Rightarrow> 'a tret \<times> ('w, 'c) tstate) \<Rightarrow>
   ('w, 'c) tstate \<Rightarrow> 'a tret \<times> ('w, 'c) tstate" where
  "with_client lib opts f s =
     (case new_client lib opts s of
        (Returned client, s1) \<Rightarrow> f client s1
      | (Fatal m, s1) \<Rightarrow> (Fatal m, s1)
      | (Skipped m, s1) \<Rightarrow> (Skipped m, s1)
      | (Panicked m, s1) \<Rightarrow> (Panicked m, s1))"

definition test_topic ::
  "('c, kgo_opt list, 'w) connlib \<Rightarrow> ('w \<Rightarrow> int \<times> 'w) \<Rightarrow> ('c \<Rightarrow> int \<Rightarrow> int \<Rightarrow> string \<Rightarrow> 'w \<Rightarrow> gerror option \<times> 'w) \<Rightarrow>
   bool \<Rightarrow> ('w, 'c) tstate \<Rightarrow> string tret \<times> ('w, 'c) tstate" where
  "test_topic lib unix_nano create_topic short s =
     (if short then (Skipped ''needs docker'', s)
      else with_client lib []
        (\<lambda>client s1.
           (let (n, w1) = unix_nano (pk_world s1); name = ''t_'' @ itoa n
            in case create_topic client 1 1 name w1 of
                 (Some err, w2) \<Rightarrow> (Fatal (err_msg err), s1\<lparr>pk_world := w2\<rparr>)
               | (None, w2) \<Rightarrow> (Returned name, s1\<lparr>pk_world := w2\<rparr>)))
        s)"

definition test_produce ::
  "('c, kgo_opt list, 'w) connlib \<Rightarrow> ('c \<Rightarrow> krecord list \<Rightarrow> 'w \<Rightarrow> gerror option \<times> 'w) \<Rightarrow> krecord list \<Rightarrow>
   ('w, 'c) tstate \<Rightarrow> unit tret \<times> ('w, 'c) tstate" where
  "test_produce lib sync records =
     with_client lib []
       (\<lambda>client s1.
          (case sync client records (pk_world s1) of
             (Some err, w2) \<Rightarrow> (Fatal (err_msg err), s1\<lparr>pk_world := w2\<rparr>)
           | (None, w2) \<Rightarrow> (Returned (), s1\<lparr>pk_world := w2\<rparr>)))"

subsection \<open>\<open>Consume\<close>\<close>

text \<open>
  What the loop calls: \<open>PollFetches\<close>, \<open>ctx.Err\<close>, and \<open>context.WithTimeout\<close> with its \<open>cancel\<close>. One
  round is \<open>consume_iter\<close>; it ends the loop (\<open>Inl\<close>) or goes on with what it has.
\<close>

record ('c, 'w) pollops =
  po_poll :: "'c \<Rightarrow> 'w \<Rightarrow> fetches \<times> 'w"
  po_ctx_err :: "'w \<Rightarrow> gerror option \<times> 'w"
  po_with_timeout :: "int \<Rightarrow> 'w \<Rightarrow> 'w"
  po_cancel :: "'w \<Rightarrow> 'w"

definition consume_iter ::
  "('c, 'w) pollops \<Rightarrow> 'c \<Rightarrow> int \<Rightarrow> krecord list \<times> 'w \<Rightarrow> (krecord list tret \<times> 'w) + (krecord list \<times> 'w)" where
  "consume_iter po client n st =
     (let (out, w) = st
      in if int (length out) < n then
           (let (fs, w1) = po_poll po client w; (cerr, w2) = po_ctx_err po w1
            in case cerr of
                 Some err \<Rightarrow>
                   Inl (Fatal (''got '' @ itoa (int (length out)) @ '' of '' @ itoa n @ '' records: '' @ err_msg err), w2)
               | None \<Rightarrow>
                   (case f_err fs of
                      Some err \<Rightarrow>
                        Inl (Fatal (''after '' @ itoa (int (length out)) @ '' records: '' @ err_msg err), w2)
                    | None \<Rightarrow> Inr (out @ f_records fs, w2)))
         else if n < 0 then Inl (Panicked ''slice bounds out of range'', w)
         else Inl (Returned (take (nat n) out), w))"

partial_function (option) consume_loop ::
  "('c, 'w) pollops \<Rightarrow> 'c \<Rightarrow> int \<Rightarrow> krecord list \<times> 'w \<Rightarrow> (krecord list tret \<times> 'w) option" where
  "consume_loop po client n st =
     (case consume_iter po client n st of
        Inl r \<Rightarrow> Some r
      | Inr st1 \<Rightarrow> consume_loop po client n st1)"

text \<open>\<open>None\<close> is a \<open>Consume\<close> that does not return; \<open>defer cancel()\<close> runs on every way out.\<close>

definition test_consume ::
  "('c, kgo_opt list, 'w) connlib \<Rightarrow> ('c, 'w) pollops \<Rightarrow> string \<Rightarrow> int \<Rightarrow> ('w, 'c) tstate \<Rightarrow>
   (krecord list tret \<times> ('w, 'c) tstate) option" where
  "test_consume lib po topic n s =
     (case new_client lib [ConsumeTopics [topic], ResetOffsetStart] s of
        (Returned client, s1) \<Rightarrow>
          (case consume_loop po client n ([], po_with_timeout po (10 * second) (pk_world s1)) of
             None \<Rightarrow> None
           | Some (r, w2) \<Rightarrow> Some (r, s1\<lparr>pk_world := po_cancel po w2\<rparr>))
      | (Fatal m, s1) \<Rightarrow> Some (Fatal m, s1)
      | (Skipped m, s1) \<Rightarrow> Some (Skipped m, s1)
      | (Panicked m, s1) \<Rightarrow> Some (Panicked m, s1))"

text \<open>What \<open>testing\<close> does when a test has ended, however it did: the last client is closed first.\<close>

fun run_cleanups :: "('c, 'a, 'w) connlib \<Rightarrow> 'c list \<Rightarrow> 'w \<Rightarrow> 'w" where
  "run_cleanups lib [] w = w"
| "run_cleanups lib (c # cs) w = run_cleanups lib cs (cl_close lib c w)"

subsection \<open>What the helper promises\<close>

text \<open>
  \<open>PollFetches\<close> hands out the topic's records in order: \<open>polled\<close> are those handed out so far, and nothing
  else hands out any.
\<close>

definition poll_contract :: "('c, 'w) pollops \<Rightarrow> ('w \<Rightarrow> krecord list) \<Rightarrow> bool" where
  "poll_contract po polled \<longleftrightarrow>
     (\<forall>c w. polled (snd (po_poll po c w)) = polled w @ f_records (fst (po_poll po c w))) \<and>
     (\<forall>w. polled (snd (po_ctx_err po w)) = polled w) \<and>
     (\<forall>d w. polled (po_with_timeout po d w) = polled w) \<and> (\<forall>w. polled (po_cancel po w) = polled w)"

lemma poll_contractD:
  assumes "poll_contract po polled"
  shows "po_poll po c w = (fs, w1) \<Longrightarrow> polled w1 = polled w @ f_records fs"
    "po_ctx_err po w = (e, w1) \<Longrightarrow> polled w1 = polled w"
    "polled (po_with_timeout po d w) = polled w" "polled (po_cancel po w) = polled w"
  using assms unfolding poll_contract_def by (metis fst_conv snd_conv)+

lemma consume_iter_polled:
  assumes "poll_contract po polled" "polled w = base @ out"
  shows "consume_iter po client n (out, w) = Inr (out', w') \<Longrightarrow> polled w' = base @ out'"
    "consume_iter po client n (out, w) = Inl (Returned rs, w') \<Longrightarrow>
       polled w' = base @ out \<and> rs = take (nat n) out \<and> int (length rs) = n"
  using assms(2)
  by (auto simp: consume_iter_def Let_def poll_contractD [OF assms(1)]
      split: prod.splits option.splits if_splits)

lemma consume_loop_steps:
  "consume_loop po client n st = Some y \<longleftrightarrow> (\<exists>k. loop_steps (consume_iter po client n) k st = Inl y)"
proof
  assume "consume_loop po client n st = Some y"
  then show "\<exists>k. loop_steps (consume_iter po client n) k st = Inl y"
  proof (induction po client n st y rule: consume_loop.raw_induct [rotated, consumes 1, case_names step])
    case (step loop po client n st y)
    show ?case
    proof (cases "consume_iter po client n st")
      case (Inl r)
      with step(2) show ?thesis by (intro exI [of _ "Suc 0"]) simp
    next
      case (Inr st1)
      with step(2) have "loop po client n st1 = Some y" by simp
      from step(1) [OF this] obtain k where "loop_steps (consume_iter po client n) k st1 = Inl y" by blast
      with Inr show ?thesis by (intro exI [of _ "Suc k"]) simp
    qed
  qed
next
  assume "\<exists>k. loop_steps (consume_iter po client n) k st = Inl y"
  then obtain k where "loop_steps (consume_iter po client n) k st = Inl y" by blast
  then show "consume_loop po client n st = Some y"
  proof (induction k arbitrary: st)
    case (Suc k)
    then show ?case by (subst consume_loop.simps) (auto split: sum.splits)
  qed simp
qed

lemma consume_steps_polled:
  assumes "poll_contract po polled"
  shows "loop_steps (consume_iter po client n) k (out, w) = Inl (Returned rs, w') \<Longrightarrow> polled w = base @ out \<Longrightarrow>
    \<exists>all. polled w' = base @ all \<and> rs = take (nat n) all \<and> int (length rs) = n"
proof (induction k arbitrary: out w)
  case (Suc k)
  show ?case
  proof (cases "consume_iter po client n (out, w)")
    case (Inl r)
    with Suc.prems(1) have "consume_iter po client n (out, w) = Inl (Returned rs, w')" by simp
    from consume_iter_polled(2) [OF assms Suc.prems(2) this] show ?thesis by blast
  next
    case (Inr st1)
    obtain out1 w1 where st1: "st1 = (out1, w1)" by (cases st1)
    from Suc.IH [of out1 w1] consume_iter_polled(1) [OF assms Suc.prems(2), of client n out1 w1] Suc.prems(1) Inr st1
    show ?thesis by simp
  qed
qed simp

lemma new_client_cases:
  obtains (fails) m w where "new_client lib opts s = (Fatal m, s\<lparr>pk_world := w\<rparr>)"
  | (opens) client w where "cl_new lib ([SeedBrokers (pk_brokers s)] @ opts) (pk_world s) = (Inr client, w)"
      "new_client lib opts s = (Returned client, s\<lparr>pk_world := w, t_cleanups := client # t_cleanups s\<rparr>)"
  by (cases "cl_new lib ([SeedBrokers (pk_brokers s)] @ opts) (pk_world s)", cases "fst (cl_new lib ([SeedBrokers (pk_brokers s)] @ opts) (pk_world s))")
    (auto simp: new_client_def)

lemma cancelled_consume_ends:
  "fst (po_ctx_err po (snd (po_poll po client (snd st)))) \<noteq> None \<Longrightarrow> \<exists>r. consume_iter po client n st = Inl r"
  by (auto simp: consume_iter_def Let_def split: prod.splits option.splits)

text \<open>C39: \<open>Consume\<close> comes back (its context ends the loop at the latest), and when it returns records, they are
  the first \<open>n\<close> the broker has handed out, exactly \<open>n\<close> of them and in order.\<close>

theorem test_consume_exact:
  assumes "poll_contract po polled" "\<And>a w. polled (snd (cl_new lib a w)) = polled w"
    and "\<And>client f. (\<forall>i. consume_iter po client n (f i) = Inr (f (Suc i))) \<Longrightarrow>
      (\<exists>i. fst (po_ctx_err po (snd (po_poll po client (snd (f i))))) \<noteq> None)"
  shows "\<exists>r s'. test_consume lib po topic n s = Some (r, s') \<and>
    (\<forall>rs. r = Returned rs \<longrightarrow> int (length rs) = n \<and>
       (\<exists>all. polled (pk_world s') = polled (pk_world s) @ all \<and> rs = take (nat n) all))"
proof (cases rule: new_client_cases [of lib "[ConsumeTopics [topic], ResetOffsetStart]" s])
  case (fails m w)
  then show ?thesis by (simp add: test_consume_def)
next
  case (opens client w)
  let ?st = "([], po_with_timeout po (10 * second) w)"
  have "\<exists>k y. loop_steps (consume_iter po client n) k ?st = Inl y"
  proof (rule loop_ends)
    fix f assume "\<forall>i. consume_iter po client n (f i) = Inr (f (Suc i))"
    from assms(3) [OF this] show "\<exists>i y. consume_iter po client n (f i) = Inl y" using cancelled_consume_ends by metis
  qed
  then obtain k r w2 where k: "loop_steps (consume_iter po client n) k ?st = Inl (r, w2)" by force
  then have l: "consume_loop po client n ?st = Some (r, w2)" unfolding consume_loop_steps by blast
  have start: "polled (snd ?st) = polled (pk_world s) @ []"
    using assms(2) [of "[SeedBrokers (pk_brokers s)] @ [ConsumeTopics [topic], ResetOffsetStart]" "pk_world s"] opens(1)
      poll_contractD(3) [OF assms(1)] by simp
  have "\<exists>all. polled w2 = polled (pk_world s) @ all \<and> rs = take (nat n) all \<and> int (length rs) = n" if "r = Returned rs" for rs
    using consume_steps_polled [OF assms(1) k [unfolded that]] start by simp
  with l opens(2) poll_contractD(4) [OF assms(1)] show ?thesis by (auto simp: test_consume_def)
qed

text \<open>A broker with three records that hands out one at a time, and a context that ends after ten polls.\<close>

definition sample_pollops :: "(unit, krecord list \<times> krecord list \<times> nat) pollops" where
  "sample_pollops =
     \<lparr>po_poll = (\<lambda>c (todo, polled, fuel). (\<lparr>f_records = take 1 todo, f_err = None\<rparr>, (drop 1 todo, polled @ take 1 todo, fuel - 1))),
      po_ctx_err = (\<lambda>(todo, polled, fuel). (if fuel = 0 then Some ErrDeadlineExceeded else None, (todo, polled, fuel))),
      po_with_timeout = (\<lambda>d w. w), po_cancel = (\<lambda>w. w)\<rparr>"

definition sample_lib :: "(unit, kgo_opt list, krecord list \<times> krecord list \<times> nat) connlib" where
  "sample_lib = \<lparr>cl_new = (\<lambda>a w. (Inr (), w)), cl_ping = (\<lambda>c w. (None, w)), cl_close = (\<lambda>c w. w)\<rparr>"

theorem test_consume_exact_witness:
  "\<exists>r s'. test_consume sample_lib sample_pollops ''t'' 2
      \<lparr>pk_world = (map sample_record [''a'', ''b'', ''c''], [], 10), pk_brokers = [''localhost:9094''], t_cleanups = []\<rparr> =
        Some (r, s') \<and>
     (\<forall>rs. r = Returned rs \<longrightarrow> length rs = 2 \<and> rs = take 2 (fst (snd (pk_world s'))))"
proof -
  let ?s = "\<lparr>pk_world = (map sample_record [''a'', ''b'', ''c''], [], 10), pk_brokers = [''localhost:9094''], t_cleanups = []\<rparr>
    :: (krecord list \<times> krecord list \<times> nat, unit) tstate"
  have c: "poll_contract sample_pollops (\<lambda>w. fst (snd w))" by (auto simp: poll_contract_def sample_pollops_def)
  have "\<exists>i. fst (po_ctx_err sample_pollops (snd (po_poll sample_pollops client (snd (f i))))) \<noteq> None"
    if it: "\<forall>i. consume_iter sample_pollops client 2 (f i) = Inr (f (Suc i))" for client f
  proof -
    have "snd (snd (snd (f (Suc i)))) < snd (snd (snd (f i)))" for i
      using spec [OF it, of i, symmetric] by (cases "f i"; cases "snd (f i)")
        (auto simp: consume_iter_def sample_pollops_def split: if_splits)
    then have False using wf_no_infinite_down_chainE [OF wf_less_than, of "\<lambda>i. snd (snd (snd (f i)))"] by auto
    then show ?thesis ..
  qed
  from test_consume_exact [OF c, of sample_lib 2 "''t''" ?s, OF _ this] show ?thesis by (simp add: sample_lib_def)
qed

subsection \<open>\<open>Main\<close> and the containers\<close>

text \<open>
  The containers that are up: terminating takes one down, and a start brings up the container it returns.
  testcontainers may also return a container beside an error.
\<close>

definition held :: "'h option list \<Rightarrow> 'h set" where
  "held cs = {c. Some c \<in> set cs}"

definition docker_contract :: "('h, 'w) docker \<Rightarrow> ('w \<Rightarrow> 'h set) \<Rightarrow> bool" where
  "docker_contract dk up \<longleftrightarrow>
     (\<forall>a w. up (snd (dk_listen dk a w)) = up w) \<and> (\<forall>port w. up (dk_unlisten dk port w) = up w) \<and>
     (\<forall>req w. set_option (fst (fst (dk_run dk req w))) \<inter> up w = {} \<and>
        up (snd (dk_run dk req w)) = up w \<union> set_option (fst (fst (dk_run dk req w)))) \<and>
     (\<forall>c w. up (snd (dk_terminate dk c w)) = up w - set_option c)"

definition start_tidy :: "('w \<Rightarrow> 'h set) \<Rightarrow> ('h, 'w) start_fn \<Rightarrow> bool" where
  "start_tidy up f \<longleftrightarrow> (\<forall>p. set_option (fst (fst (f p))) \<inter> up (pk_world p) = {} \<and>
     up (pk_world (snd (f p))) = up (pk_world p) \<union> set_option (fst (fst (f p))))"

lemma held_replicate [simp]: "held (replicate n None) = {}"
  by (simp add: held_def)

lemma held_update:
  assumes "i < length cs" "cs ! i = None"
  shows "held (cs[i := c]) = held cs \<union> set_option c"
proof -
  have "cs[i := c] = take i cs @ c # drop (Suc i) cs" using assms(1) by (simp add: upd_conv_take_nth_drop)
  moreover have "held cs = held (take i cs @ None # drop (Suc i) cs)" using id_take_nth_drop [OF assms(1)] assms(2) by simp
  ultimately show ?thesis by (cases c) (auto simp: held_def)
qed

lemma terminate_all_up:
  assumes "docker_contract dk up"
  shows "up (terminate_all dk cs w) = up w - held cs"
proof (induction cs arbitrary: w)
  case (Cons c cs)
  have "up (snd (dk_terminate dk c w)) = up w - set_option c" using assms by (simp add: docker_contract_def)
  then show ?case by (cases c) (auto simp: Cons.IH held_def)
qed (simp add: held_def)

lemma run_starts_up:
  assumes "run_starts starts order cs errs p = (cs', errs', p')" "\<forall>f \<in> set starts. start_tidy up f" "distinct order"
    and "\<forall>i \<in> set order. i < length starts \<and> cs ! i = None" "length cs = length starts" "length errs = length starts"
    and "up (pk_world p) = base \<union> held cs" "base \<inter> held cs = {}"
  shows "up (pk_world p') = base \<union> held cs' \<and> base \<inter> held cs' = {} \<and> length errs' = length starts \<and>
    (\<forall>i < length starts. if i \<in> set order then \<exists>q. errs' ! i = snd (fst ((starts ! i) q)) else errs' ! i = errs ! i)"
  using assms(1,3-8)
proof (induction order arbitrary: cs errs p)
  case (Cons i order)
  obtain c err p1 where f: "(starts ! i) p = ((c, err), p1)" by (metis prod.exhaust)
  have i: "i < length starts" "cs ! i = None" "i \<notin> set order" using Cons.prems(2,3) by auto
  then have "start_tidy up (starts ! i)" using assms(2) by simp
  with f have up1: "set_option c \<inter> up (pk_world p) = {}" "up (pk_world p1) = up (pk_world p) \<union> set_option c"
    unfolding start_tidy_def by (metis fst_conv snd_conv)+
  have h: "held (cs[i := c]) = held cs \<union> set_option c" by (rule held_update) (use i Cons.prems(4) in auto)
  have r: "run_starts starts order (cs[i := c]) (errs[i := err]) p1 = (cs', errs', p')" using Cons.prems(1) f by simp
  have pre: "\<forall>j \<in> set order. j < length starts \<and> cs[i := c] ! j = None" using Cons.prems(3) i(3)
    by (metis list.set_intros(2) nth_list_update_neq)
  have u: "up (pk_world p1) = base \<union> held (cs[i := c])" "base \<inter> held (cs[i := c]) = {}"
    using up1 Cons.prems(6,7) h by auto
  from Cons.IH [OF r _ pre _ _ u] Cons.prems(2,4,5) have
    g: "up (pk_world p') = base \<union> held cs' \<and> base \<inter> held cs' = {} \<and> length errs' = length starts \<and>
      (\<forall>j < length starts. if j \<in> set order then \<exists>q. errs' ! j = snd (fst ((starts ! j) q)) else errs' ! j = errs[i := err] ! j)"
    by simp
  moreover have "errs' ! i = snd (fst ((starts ! i) p))" using g i(1,3) Cons.prems(5) f by auto
  ultimately show ?case using Cons.prems(5) by (auto simp: nth_list_update split: if_splits)
qed simp

text \<open>\<open>Main\<close> leaves no container behind that a start returned, in whatever order the starts finish and
  whatever the tests do; the exit status is that of the tests when every start succeeded, and 1 when one
  failed.\<close>

theorem test_main_tears_down:
  assumes "docker_contract dk up" "\<forall>f \<in> set (start_broker dk # extra). start_tidy up f"
    and "\<And>q. up (pk_world (snd (run q))) = up (pk_world q)" "distinct order" "set order = {..< Suc (length extra)}"
  shows "up (pk_world (snd (test_main dk run False extra order p))) = up (pk_world p) \<and>
    ((\<forall>f \<in> set (start_broker dk # extra). \<exists>q. snd (fst (f q)) = None) \<and>
        (\<exists>q. fst (test_main dk run False extra order p) = fst (run q)) \<or>
     (\<exists>f \<in> set (start_broker dk # extra). \<exists>q. snd (fst (f q)) \<noteq> None) \<and> fst (test_main dk run False extra order p) = 1)"
proof -
  let ?starts = "start_broker dk # extra" and ?none = "replicate (Suc (length extra)) None"
  obtain cs errs p1 where r: "run_starts ?starts order ?none ?none p = (cs, errs, p1)"
    by (metis prod.exhaust)
  have "\<forall>i \<in> set order. i < length ?starts \<and> ?none ! i = None" using assms(5) by (simp del: replicate_Suc)
  from run_starts_up [OF r assms(2,4) this, of "up (pk_world p)"] assms(5) have
    u: "up (pk_world p1) = up (pk_world p) \<union> held cs" "up (pk_world p) \<inter> held cs = {}" and len: "length errs = length ?starts"
    and e: "\<forall>i < length ?starts. \<exists>q. errs ! i = snd (fst ((?starts ! i) q))"
    by (simp_all del: replicate_Suc)
  have m: "test_main dk run False extra order p =
      (let (code, p2) = (if errors_join errs \<noteq> None then (1, p1) else run p1)
       in (code, p2\<lparr>pk_world := terminate_all dk cs (pk_world p2)\<rparr>))"
    using r by (simp add: test_main_def)
  show ?thesis
  proof (cases "errors_join errs = None")
    case True
    then have none: "\<forall>err \<in> set errs. err = None" by simp
    have "\<exists>q. snd (fst (f q)) = None" if f: "f \<in> set ?starts" for f
    proof -
      obtain i where i: "i < length ?starts" "?starts ! i = f" using f by (meson in_set_conv_nth)
      with e obtain q where "errs ! i = snd (fst (f q))" by blast
      with none len i(1) show ?thesis by (metis nth_mem)
    qed
    then have ok: "\<forall>f \<in> set ?starts. \<exists>q. snd (fst (f q)) = None" by blast
    obtain code p2 where p2: "run p1 = (code, p2)" by (cases "run p1")
    with True m have t: "test_main dk run False extra order p = (code, p2\<lparr>pk_world := terminate_all dk cs (pk_world p2)\<rparr>)"
      by (simp add: Let_def)
    have "up (terminate_all dk cs (pk_world p2)) = up (pk_world p)"
      using assms(3) [of p1] p2 u terminate_all_up [OF assms(1)] by auto
    moreover have "\<exists>q. code = fst (run q)" using p2 by (intro exI [of _ p1]) simp
    ultimately show ?thesis using ok unfolding t by (intro conjI disjI1) simp_all
  next
    case False
    then obtain i where i: "i < length ?starts" "errs ! i \<noteq> None" using len by (auto simp: in_set_conv_nth)
    moreover from e i(1) obtain q where "errs ! i = snd (fst ((?starts ! i) q))" by blast
    ultimately have "\<exists>f \<in> set ?starts. \<exists>q. snd (fst (f q)) \<noteq> None" using nth_mem [OF i(1)] by metis
    moreover from False m have "test_main dk run False extra order p = (1, p1\<lparr>pk_world := terminate_all dk cs (pk_world p1)\<rparr>)"
      by (simp add: Let_def)
    moreover have "up (terminate_all dk cs (pk_world p1)) = up (pk_world p)"
      using u terminate_all_up [OF assms(1)] by auto
    ultimately show ?thesis by (intro conjI disjI2) simp_all
  qed
qed

text \<open>
  \<open>Start\<close> is tidy only with a Docker that returns no container beside an error: it returns nil for the
  container then, and \<open>Main\<close> cannot take it down.
\<close>

lemma start_broker_tidy:
  fixes dk :: "('h, 'w) docker"
  assumes "docker_contract dk up" "\<And>req w. snd (fst (dk_run dk req w)) \<noteq> None \<Longrightarrow> fst (fst (dk_run dk req w)) = None"
  shows "start_tidy up (start_broker dk)"
  unfolding start_tidy_def
proof (intro allI)
  fix p :: "'w pkg"
  obtain r w1 where l: "dk_listen dk ''127.0.0.1:0'' (pk_world p) = (r, w1)" by (cases "dk_listen dk ''127.0.0.1:0'' (pk_world p)")
  have w1: "up w1 = up (pk_world p)" using assms(1) l unfolding docker_contract_def by (metis snd_conv)
  show "set_option (fst (fst (start_broker dk p))) \<inter> up (pk_world p) = {} \<and>
      up (pk_world (snd (start_broker dk p))) = up (pk_world p) \<union> set_option (fst (fst (start_broker dk p)))"
  proof (cases r)
    case (Inl err)
    with l w1 show ?thesis by (simp add: start_broker_def)
  next
    case (Inr port)
    let ?w = "dk_unlisten dk port w1"
    obtain c err w3 where d: "dk_run dk (broker_req port) ?w = ((c, err), w3)" by (metis prod.exhaust)
    have "up ?w = up w1" using assms(1) unfolding docker_contract_def by blast
    moreover have "set_option c \<inter> up ?w = {}" "up w3 = up ?w \<union> set_option c"
      using assms(1) d unfolding docker_contract_def by (metis fst_conv snd_conv)+
    ultimately show ?thesis using l Inr d w1 assms(2) [of "broker_req port" ?w]
      by (cases err) (simp_all add: start_broker_def)
  qed
qed

theorem failed_start_leaks:
  assumes "docker_contract dk up" "dk_listen dk ''127.0.0.1:0'' (pk_world p) = (Inr port, w1)"
    and "dk_run dk (broker_req port) (dk_unlisten dk port w1) = ((Some c, Some err), w3)"
  shows "c \<in> up (pk_world (snd (test_main dk run False [] [0] p)))" "fst (test_main dk run False [] [0] p) = 1"
proof -
  have s: "start_broker dk p = ((None, Some err), p\<lparr>pk_world := w3\<rparr>)" using assms(2,3) by (simp add: start_broker_def)
  then have m: "test_main dk run False [] [0] p = (1, p\<lparr>pk_world := terminate_all dk [None] w3\<rparr>)"
    by (simp add: test_main_def)
  have "c \<in> up w3" using assms(1,3) unfolding docker_contract_def by (metis UnI2 fst_conv option.set_intros snd_conv)
  then show "c \<in> up (pk_world (snd (test_main dk run False [] [0] p)))" "fst (test_main dk run False [] [0] p) = 1"
    using terminate_all_up [OF assms(1), of "[None]" w3] unfolding m by (simp_all add: held_def del: terminate_all.simps)
qed

text \<open>Where a broker that has started is: the package's brokers, its advertised listener and its bound port agree.\<close>

lemma start_broker_address:
  assumes "start_broker dk p = ((c, None), p')"
  shows "\<exists>port. pk_brokers p' = [''localhost:'' @ itoa port] \<and>
    map_of (cr_env (broker_req port)) ''KAFKA_ADVERTISED_LISTENERS'' =
      Some (''PLAINTEXT://localhost:9092,EXTERNAL://'' @ hd (pk_brokers p')) \<and>
    cr_bindings (broker_req port) = [(hd (cr_exposed (broker_req port)), ''127.0.0.1'', itoa port)]"
  using assms by (auto simp: start_broker_def broker_req_def Let_def split: sum.splits prod.splits option.splits)

end
