(* ===== verification/Spec2Isabelle.thy ===== *)
theory Spec2Isabelle
  imports Archive_Recovery History_Recovery Archive_Read Backfill Gateway_Load Services Kafkatest
begin

text \<open>
  The Go services of listening-post. Stations post raw ADS-B lines to a gateway; a stream processor
  (Java, not modelled) turns them into aircraft traces; an archiver and a history writer consume the topics
  and keep files and table rows; a backfill replays the archive onto a shadow topic. This development
  models every Go package of the repository, and proves what the services promise.

  \<^bold>\<open>The parts and how they meet.\<close> The gateway (\<open>internal/gateway\<close>) authenticates a request, decodes and
  validates its body, frames each event with \<open>wire.Record\<close> and publishes the batch to \<open>events.raw\<close>, or
  saves a heartbeat. The archiver (\<open>internal/archiver\<close>) and the history writer (\<open>internal/history\<close>) are
  both a \<open>decode\<close> and a \<open>flush\<close> given to one loop, \<open>consume.Batch\<close>: the archiver writes one Parquet file
  per event date and only then commits offsets, the history writer inserts rows and only then commits.
  \<open>cmd/backfill\<close> reads the archive's days back in order and produces their rows again. \<open>main.go\<close> runs
  the configured services in one group that stops together.

  \<^bold>\<open>Theories and sources.\<close>

  \<^item> \<open>Prelude\<close>: byte strings, Go errors (\<open>fmt.Errorf\<close> with \<open>%w\<close>, \<open>errors.Is\<close>, \<open>errors.Join\<close>), results
    as sums, the hint collections and shared lemmas.
  \<^item> \<open>Go_Strings\<close>, \<open>Go_Utf8\<close>, \<open>Go_Time\<close>, \<open>Go_Json\<close>, \<open>Go_Decode\<close>, \<open>Go_Files\<close>, \<open>Sha256\<close>: the standard
    library as far as the sources use it: \<open>strings\<close>, \<open>strconv\<close>, \<open>slices\<close>, \<open>time.Time\<close> with its
    calendar and JSON form, \<open>encoding/json\<close> in both directions, \<open>path/filepath\<close> and \<open>os\<close>, and
    \<open>crypto/sha256\<close> on 32-bit words.
  \<^item> \<open>Consume\<close>: \<open>consume.Batch\<close>. \<open>batch_iter\<close> is one iteration, \<open>batch_loop\<close> the loop; the locale
    \<open>batch_sink\<close> (with its extension \<open>durable_sink\<close>) is the contract between the loop and a \<open>flush\<close>.
  \<^item> \<open>Recovery\<close>: a consumer group across restarts. \<open>group_life\<close> are the offsets and the storage after any number
    of sessions of \<open>consume.Batch\<close>; \<open>life_invariant\<close>, in \<open>batch_sink\<close>, reduces a claim about them to one flush.
  \<^item> \<open>Wire\<close>: \<open>wire.go\<close>, topics, \<open>Brokers\<close>, \<open>OpenKafka\<close>, \<open>Event\<close> and \<open>Record\<close>.
  \<^item> \<open>Archive_Rows\<close> (\<open>parquet.go\<close>, \<open>Less\<close>), \<open>Archive_Store\<close> (\<open>store.go\<close>, \<open>flush.go\<close>, \<open>consume.go\<close>,
    \<open>config.go\<close>), \<open>Archive_Read\<close> (\<open>read.go\<close>), \<open>Archive_Facts\<close> (the archive's promises),
    \<open>Archive_Sample\<close> (a concrete codec that meets the contract asked of Parquet), \<open>Archive_Recovery\<close> (what the
    archive keeps across restarts).
  \<^item> \<open>Backfill\<close>: \<open>cmd/backfill/main.go\<close>.
  \<^item> \<open>History\<close> (\<open>decode.go\<close>, \<open>store.go\<close>, \<open>run.go\<close>, \<open>config.go\<close>), \<open>History_Facts\<close> and
    \<open>History_Recovery\<close> (the table across restarts).
  \<^item> \<open>Gateway_Http\<close> (requests, responses, bodies and their \<open>Valid\<close>, \<open>decodeValid\<close>), \<open>Gateway_Decode\<close>,
    \<open>Gateway\<close> (\<open>middleware.go\<close>, the POST handlers, \<open>newServer\<close>; the Go interfaces \<open>stationLookup\<close>,
    \<open>eventPublisher\<close> and \<open>heartbeatSaver\<close> as locales), \<open>Gateway_Stores\<close> (\<open>stations.go\<close>, \<open>heartbeats.go\<close>,
    \<open>kafka.go\<close>, which interpret them), \<open>Gateway_Sample\<close>, \<open>Gateway_Facts\<close> (what the API promises of a
    request on its own), \<open>Gateway_Replay\<close> (a request as the sequence of its calls, read off the handlers),
    \<open>Gateway_Concurrent\<close> and \<open>Gateway_Load\<close> (requests whose calls interleave, and what holds under any
    load), and \<open>Gateway_Run\<close> (\<open>config.go\<close>, \<open>db.go\<close>, \<open>run.go\<close> and the admin API).
  \<^item> \<open>Services\<close>: \<open>archiver.Run\<close>, \<open>history.Run\<close> and \<open>main.go\<close>.
  \<^item> \<open>Kafkatest\<close>: \<open>internal/kafkatest\<close>, the helper of the Kafka tests.
  \<^item> This theory puts gateway, log and archiver together.

  \<^bold>\<open>State.\<close> A consumer's \<open>world\<close> is a record of the Kafka client's state, the host (clock and context)
  and the sink: a file system for the archiver, the table \<open>aircraft_traces\<close> for the history writer.
  The gateway's \<open>gworld\<close> holds the tables of \<open>db/migrations\<close> it uses, the broker's log, and scripts that
  say what becomes of each call to the database and to the broker: it works, it fails before its effect,
  or its effect happens and the answer is lost. File system calls and inserts are scripted the same way.
  Goroutines are step relations: \<open>serve_step\<close> for the requests being served (one step is one call to the
  clock, the database or the broker, or one record reaching the log) with \<open>env_step\<close> for arrivals and for
  changes of stations and tokens, \<open>grun_step\<close> for the gateway's \<open>Run\<close> with its serving goroutines and its
  cancellation (a probe of \<open>/readyz\<close> runs along a path of those steps: \<open>readyz_answer\<close> connects, loads the flag
  and asks each check in states that may be far apart), \<open>group_step\<close> for the errgroup of \<open>main.go\<close>.

  \<^bold>\<open>What is shown.\<close> Of the consumers: no offset is committed before its row is stored, whatever fails and
  whenever the process stops; on cancellation everything polled is flushed; the loop ends; batches are
  bounded. Across restarts, however sessions were stopped: the history table is that of a writer that was never
  stopped, and no group's offset is ahead of what is stored, for the archive as long as no two records of one
  date have the same stamp. Of the archive: files appear whole or not at all, a batch becomes exactly its rows by date, a
  repeated batch changes nothing, and what is written is read back in canonical order. Of the backfill: a
  successful one has replayed every archived row once, in order, as records that decode to the rows. Of the table: one row per key, the first
  insert wins, a failed batch that is read again ends as if it had run once. Of the gateway: a 200 means
  that the log holds the batch under the authorized station, nobody writes under another's station, every
  request is answered, waiting is bounded; the first three also for requests served at the same time, of
  which serving them one by one is one schedule; readiness is 200 only while everything is up, and a probe that
  connects once a shutdown has cleared the flag is answered 503 for as long as the public server drains. Of the process: services stop together and release what they opened.

  \<^bold>\<open>Parameters.\<close> Code outside the repository is an argument: the Kafka client (\<open>kclient\<close>, with
  \<open>kafka_contract\<close>: a commit that
  succeeds covers every record polled so far, one that fails may or may not have reached the broker; a new session
  reads each partition from its committed offset), the Parquet
  codec (\<open>parquet_lib\<close>, with \<open>parquet_contract\<close>: reading gives what was written), the connecting libraries
  (\<open>connlib\<close>), Docker (\<open>docker\<close>), the producer of the backfill, the order in which Go walks a map (any permutation).

  \<^bold>\<open>Bounds and fuel.\<close> The JSON parser recurses on fuel; \<open>json_fuel\<close> grows with the text and
  \<open>parse_value_fuel\<close> shows that more changes nothing. \<open>batch_loop\<close> is a \<open>partial_function\<close>, so that not
  returning is the value \<open>None\<close>; that it returns is a theorem of its own. A run of the gateway has at
  most 71 steps by a measure on its state; a request makes at most five calls. Integers that JSON carries are held to the 64 bits of Go's
  \<open>int64\<close>; SHA-256 works on \<open>32 word\<close>; instants are unbounded integers of nanoseconds.

  \<^bold>\<open>What the model found.\<close> The undecodable rows of every batch go to one file, so a later batch takes
  committed ones out of the archive, and so do two batches of one date whose first and last stamps agree
  (\<open>Archive_Facts\<close>). An event without a time is accepted although the
  handler's comment says that it fails to decode, and an event in a zone of 24 hours passes validation but
  cannot be framed, so its whole batch is answered 500 by a gateway that has nothing wrong (\<open>Gateway_Facts\<close>). A gateway whose second listener cannot
  be bound returns with the first one still serving over closed dependencies (\<open>Gateway_Run\<close>). The
  services' environment variables are not disjoint (\<open>Services\<close>). The tests' \<open>Start\<close> drops a container that
  failed to come up (\<open>Kafkatest\<close>).

  \<^bold>\<open>Not modelled.\<close> The Flink job (Java), the station scripts, the map and the deployment files; log lines. Of \<open>net/http\<close>: the redirect of
  unclean request paths (the path is taken to be clean) and the \<open>Connection: close\<close> header after a body
  that is too large. Of Postgres: a statement takes its effect at one moment, before its answer, and heartbeats
  are written by the gateway only. Of Kafka: two instances of one consumer group at the same time, and retention. Of paths: an archive root that contains glob metacharacters. Of numbers: a negative
  \<open>FlushRecords\<close> (Go's \<open>make\<close> panics; both services set a positive constant) and the overflow of
  \<open>time.Duration\<close>. Of \<open>encoding/json\<close>: the spare
  capacity of a slice that is decoded twice because its key is repeated.
\<close>

section \<open>From the gateway to the disk\<close>

text \<open>The row of a record framed from an event is the event's.\<close>

lemma decode_row_event:
  assumes "kr_value (rec' :: krecord) = kr_value (rec :: krecord)" "st \<noteq> []" "\<not> is_zero (g_ts e)"
    "unmarshal_event (kr_value rec) = Some (wire_event st t e)"
  shows "fst (decode_row rec') = \<lparr>r_station = st, r_ts = g_ts e, r_raw = g_raw e\<rparr>"
  using assms by (simp add: decode_row_def wire_event_def)

lemma iter_commits_rows:
  assumes "arch_good a" "kafka_contract cl polled committed" "polled (kafka w0) = []" "committed (kafka w0) = []"
    and "batch_reach cl ho fr fsec arch_decode (arch_flush a cl) w0 b"
    and "batch_iter cl ho fr fsec arch_decode (arch_flush a cl) b = out"
  obtains new where "committed (kafka (iter_world out)) = committed (kafka (b_world b)) @ new"
    "\<forall>rec \<in> set new. stored a (sink (iter_world out)) (fst (decode_row rec))"
  using archive.iter_commits [OF assms] unfolding arch_decode_def by blast

text \<open>What a 200 puts into the log, by the rows it decodes to.\<close>

lemma load_events_rows:
  assumes "gsys_reach topic s g" "gw_good s" "i < length (sy_threads g)" "th = sy_threads g ! i"
    "responded th = Some w" "rq_path (th_rq th) = ''/v1/events''" "rs_status w = Some 200"
  obtains v st es where "th_seen th = Some v" "authenticates gw_authorizes v (th_rq th) st" "st \<noteq> []"
    "decodes_events (rq_body (th_rq th)) es"
    "\<forall>e \<in> set es. \<exists>rec. (i, rec) \<in> set (sy_log g) \<and> rec \<in> set (gw_log (sy_world g)) \<and> kr_key rec = st \<and>
       (\<forall>rec'. \<not> is_zero (g_ts e) \<longrightarrow> kr_value rec' = kr_value rec \<longrightarrow>
          fst (decode_row rec') = \<lparr>r_station = st, r_ts = g_ts e, r_raw = g_raw e\<rparr>)"
proof -
  obtain v st es t where log: "gw_log (sy_world g) = gw_log s @ map snd (sy_log g)"
    and l: "th_seen th = Some v" "authenticates gw_authorizes v (th_rq th) st" "st \<noteq> []" "decodes_events (rq_body (th_rq th)) es"
    and c: "list_all2 (\<lambda>e rec. kr_topic rec = topic \<and> kr_key rec = st \<and>
         unmarshal_event (kr_value rec) = Some (wire_event st t e)) es (map snd (filter (\<lambda>p. fst p = i) (sy_log g)))"
    using load_events_logged [OF assms] by blast
  have "\<exists>rec. (i, rec) \<in> set (sy_log g) \<and> rec \<in> set (gw_log (sy_world g)) \<and> kr_key rec = st \<and>
      (\<forall>rec'. \<not> is_zero (g_ts e) \<longrightarrow> kr_value rec' = kr_value rec \<longrightarrow>
          fst (decode_row rec') = \<lparr>r_station = st, r_ts = g_ts e, r_raw = g_raw e\<rparr>)"
    if e: "e \<in> set es" for e
  proof -
    obtain rec where rec: "(i, rec) \<in> set (sy_log g)" "kr_key rec = st" "unmarshal_event (kr_value rec) = Some (wire_event st t e)"
      using list_all2_mem [OF c e] by auto
    moreover have "rec \<in> set (gw_log (sy_world g))" using rec(1) unfolding log by force
    ultimately show ?thesis using decode_row_event [OF _ l(3) _ rec(3)] by blast
  qed
  with that [OF l] show thesis by blast
qed

text \<open>C4: an acknowledged event is not lost on its way to the archive. Whatever requests are served at the same
  time, after a 200 each event of the body that has a time is in the topic's log as a record the request
  appended for the authorized station; and in whatever iteration of whatever run of the archiver that
  record's offset is committed, the archive it leaves holds the row of the station, the event's time and
  its line.\<close>

theorem acknowledged_event_archived:
  assumes "gsys_reach topic s g" "gw_good s" "i < length (sy_threads g)" "th = sy_threads g ! i"
    "responded th = Some w" "rq_path (th_rq th) = ''/v1/events''" "rs_status w = Some 200"
    and "arch_good a" "kafka_contract cl polled committed" "polled (kafka w0) = []" "committed (kafka w0) = []"
    and "batch_reach cl ho fr fsec arch_decode (arch_flush a cl) w0 b"
    and "batch_iter cl ho fr fsec arch_decode (arch_flush a cl) b = out"
  shows "\<exists>v st es new. th_seen th = Some v \<and> authenticates gw_authorizes v (th_rq th) st \<and>
    decodes_events (rq_body (th_rq th)) es \<and>
    committed (kafka (iter_world out)) = committed (kafka (b_world b)) @ new \<and>
    (\<forall>e \<in> set es. \<not> is_zero (g_ts e) \<longrightarrow>
       (\<exists>rec. (i, rec) \<in> set (sy_log g) \<and> rec \<in> set (gw_log (sy_world g)) \<and> kr_key rec = st \<and>
         (\<forall>rec' \<in> set new. kr_value rec' = kr_value rec \<longrightarrow>
            stored a (sink (iter_world out)) \<lparr>r_station = st, r_ts = g_ts e, r_raw = g_raw e\<rparr>)))"
proof (rule load_events_rows [OF assms(1-7)])
  fix v st es
  assume l: "th_seen th = Some v" "authenticates gw_authorizes v (th_rq th) st" "decodes_events (rq_body (th_rq th)) es"
    and r: "\<forall>e \<in> set es. \<exists>rec. (i, rec) \<in> set (sy_log g) \<and> rec \<in> set (gw_log (sy_world g)) \<and> kr_key rec = st \<and>
       (\<forall>rec'. \<not> is_zero (g_ts e) \<longrightarrow> kr_value rec' = kr_value rec \<longrightarrow>
          fst (decode_row rec') = \<lparr>r_station = st, r_ts = g_ts e, r_raw = g_raw e\<rparr>)"
  obtain new where new: "committed (kafka (iter_world out)) = committed (kafka (b_world b)) @ new"
    "\<forall>rec \<in> set new. stored a (sink (iter_world out)) (fst (decode_row rec))"
    by (rule iter_commits_rows [OF assms(8-13)])
  have "\<exists>rec. (i, rec) \<in> set (sy_log g) \<and> rec \<in> set (gw_log (sy_world g)) \<and> kr_key rec = st \<and>
      (\<forall>rec' \<in> set new. kr_value rec' = kr_value rec \<longrightarrow>
         stored a (sink (iter_world out)) \<lparr>r_station = st, r_ts = g_ts e, r_raw = g_raw e\<rparr>)"
    if e: "e \<in> set es" "\<not> is_zero (g_ts e)" for e
  proof -
    obtain rec where rec: "(i, rec) \<in> set (sy_log g)" "rec \<in> set (gw_log (sy_world g))" "kr_key rec = st"
      "\<And>rec'. kr_value rec' = kr_value rec \<Longrightarrow> fst (decode_row rec') = \<lparr>r_station = st, r_ts = g_ts e, r_raw = g_raw e\<rparr>"
      using r e by blast
    with new(2) show ?thesis by (intro exI [of _ rec]) (auto dest: rec(4))
  qed
  with l new(1) show ?thesis by blast
qed

text \<open>The first request of the sample run, its events and its one record.\<close>

lemma sample_logged:
  obtains g w rec where "gsys_reach raw_topic sample_gw g" "0 < length (sy_threads g)" "responded (sy_threads g ! 0) = Some w"
    "rq_path (th_rq (sy_threads g ! 0)) = ''/v1/events''" "rs_status w = Some 200"
    "\<forall>es. decodes_events (rq_body (th_rq (sy_threads g ! 0))) es \<longrightarrow> es = [\<lparr>g_id = 7, g_ts = sample_time, g_raw = ''msg''\<rparr>]"
    "\<forall>rec'. (0, rec') \<in> set (sy_log g) \<longleftrightarrow> rec' = rec"
proof -
  obtain g w1 w2 where g: "gsys_reach raw_topic sample_gw g" "map th_rq (sy_threads g) = sample_requests"
    "map responded (sy_threads g) = [Some w1, Some w2]" "rs_status w1 = Some 200" by (rule sample_run)
  note f = sample_run_first [OF g(2,3)]
  let ?th = "sy_threads g ! 0"
  have i: "0 < length (sy_threads g)" "rq_path (th_rq ?th) = ''/v1/events''" using f(1,3) by simp_all
  have es: "decodes_events (rq_body (th_rq ?th)) es \<Longrightarrow> es = [\<lparr>g_id = 7, g_ts = sample_time, g_raw = ''msg''\<rparr>]" for es
    using sample_decodes(1) f(3) by (auto simp: decodes_events_def)
  obtain st es t where d: "decodes_events (rq_body (th_rq ?th)) es"
      "list_all2 (\<lambda>e rec. kr_topic rec = raw_topic \<and> kr_key rec = st \<and>
         unmarshal_event (kr_value rec) = Some (wire_event st t e)) es (map snd (filter (\<lambda>p. fst p = 0) (sy_log g)))"
    using load_events_logged [OF g(1) sample_gw_good i(1) refl f(2) i(2) g(4)] by blast
  have "length (filter (\<lambda>p. fst p = 0) (sy_log g)) = 1" using list_all2_lengthD [OF d(2)] es [OF d(1)] by simp
  then obtain rec where only: "filter (\<lambda>p. fst p = 0) (sy_log g) = [(0, rec)]"
    by (auto simp: length_Suc_conv filter_eq_Cons_iff)
  have "(0, rec') \<in> set (sy_log g) \<longleftrightarrow> rec' = rec" for rec'
  proof -
    have "(0, rec') \<in> set (sy_log g) \<longleftrightarrow> (0, rec') \<in> set (filter (\<lambda>p. fst p = 0) (sy_log g))" by simp
    then show ?thesis unfolding only by simp
  qed
  with that [OF g(1) i(1) f(2) i(2) g(4)] es show thesis by blast
qed

theorem acknowledged_event_archived_witness:
  "\<exists>g rec w'. gsys_reach raw_topic sample_gw g \<and> (0, rec) \<in> set (sy_log g) \<and>
     batch_iter sample_kafka sample_host 10 5 arch_decode (arch_flush sample_archiver sample_kafka)
       (batch_start sample_host \<lparr>kafka = ([rec], [], []), host = 0, sink = empty_fs\<rparr>) = Inl (None, w') \<and>
     stored sample_archiver (sink w') \<lparr>r_station = kr_key rec, r_ts = sample_time, r_raw = ''msg''\<rparr>"
proof -
  let ?w = "\<lambda>rec. \<lparr>kafka = ([rec], [], []), host = 0, sink = empty_fs\<rparr> ::
      (krecord list \<times> krecord list \<times> krecord list, nat, fsys) world"
  obtain g w rec where g: "gsys_reach raw_topic sample_gw g" "0 < length (sy_threads g)" "responded (sy_threads g ! 0) = Some w"
    "rq_path (th_rq (sy_threads g ! 0)) = ''/v1/events''" "rs_status w = Some 200"
    and es: "\<forall>es. decodes_events (rq_body (th_rq (sy_threads g ! 0))) es \<longrightarrow> es = [\<lparr>g_id = 7, g_ts = sample_time, g_raw = ''msg''\<rparr>]"
    and all: "\<forall>rec'. (0, rec') \<in> set (sy_log g) \<longleftrightarrow> rec' = rec" by (rule sample_logged)
  note mem = all [rule_format]
  obtain w' where w': "batch_iter sample_kafka sample_host 10 5 arch_decode (arch_flush sample_archiver sample_kafka)
      (batch_start sample_host (?w rec)) = Inl (None, w')" "sample_committed (kafka w') = [rec]"
    using sample_arch_commits by blast
  have p: "sample_polled (kafka (?w rec)) = []" "sample_committed (kafka (?w rec)) = []" by simp_all
  have c: "committed_of (kafka (b_world (batch_start sample_host (?w rec)))) = committed_of ([rec], [], [])" for committed_of
    by simp
  obtain v st es' new where n: "decodes_events (rq_body (th_rq (sy_threads g ! 0))) es'"
      "sample_committed (kafka w') = sample_committed ([rec], [], []) @ new"
    and st: "\<forall>e \<in> set es'. \<not> is_zero (g_ts e) \<longrightarrow>
       (\<exists>rec. (0, rec) \<in> set (sy_log g) \<and> rec \<in> set (gw_log (sy_world g)) \<and> kr_key rec = st \<and>
         (\<forall>rec' \<in> set new. kr_value rec' = kr_value rec \<longrightarrow>
            stored sample_archiver (sink w') \<lparr>r_station = st, r_ts = g_ts e, r_raw = g_raw e\<rparr>))"
    using acknowledged_event_archived [OF g(1) sample_gw_good g(2) refl g(3-5) sample_archiver_good
        sample_kafka_contract p reach_start w'(1)] unfolding iter_world_def c sum.case prod.case by metis
  from n(2) w'(2) have "new = [rec]" by simp
  then have "stored sample_archiver (sink w') \<lparr>r_station = kr_key rec, r_ts = sample_time, r_raw = ''msg''\<rparr>"
    using st es [rule_format, OF n(1)] by (auto simp: mem)
  with g(1) mem w'(1) show ?thesis by blast
qed

text \<open>C5: and it stays in the archive. After a 200 each event of the body that has a time is in the topic's log as
  a record the request appended for the authorized station. Wherever in the topic's partitions that record
  lies, once the archiver's group has passed it, in whatever way its sessions have failed and been restarted
  since, the archive holds the row of the station, the event's time and its line, as long as no two records
  of one date have the same stamp.\<close>

theorem acknowledged_event_survives:
  assumes "gsys_reach topic s g" "gw_good s" "i < length (sy_threads g)" "th = sy_threads g ! i"
    "responded th = Some w" "rq_path (th_rq th) = ''/v1/events''" "rs_status w = Some 200"
    and "group_life arch_decode (arch_flush a) fs_files L files off (fs_files fs)" "arch_good a" "distinct_stamps L"
  shows "\<exists>v st es. th_seen th = Some v \<and> authenticates gw_authorizes v (th_rq th) st \<and>
    decodes_events (rq_body (th_rq th)) es \<and>
    (\<forall>e \<in> set es. \<not> is_zero (g_ts e) \<longrightarrow>
       (\<exists>rec. (i, rec) \<in> set (sy_log g) \<and> rec \<in> set (gw_log (sy_world g)) \<and> kr_key rec = st \<and>
         (\<forall>p j. j < off p \<and> kr_value (L p ! j) = kr_value rec \<longrightarrow>
            stored a fs \<lparr>r_station = st, r_ts = g_ts e, r_raw = g_raw e\<rparr>)))"
proof (rule load_events_rows [OF assms(1-7)])
  fix v st es
  assume l: "th_seen th = Some v" "authenticates gw_authorizes v (th_rq th) st" "st \<noteq> []" "decodes_events (rq_body (th_rq th)) es"
    and r: "\<forall>e \<in> set es. \<exists>rec. (i, rec) \<in> set (sy_log g) \<and> rec \<in> set (gw_log (sy_world g)) \<and> kr_key rec = st \<and>
       (\<forall>rec'. \<not> is_zero (g_ts e) \<longrightarrow> kr_value rec' = kr_value rec \<longrightarrow>
          fst (decode_row rec') = \<lparr>r_station = st, r_ts = g_ts e, r_raw = g_raw e\<rparr>)"
  have "\<exists>rec. (i, rec) \<in> set (sy_log g) \<and> rec \<in> set (gw_log (sy_world g)) \<and> kr_key rec = st \<and>
      (\<forall>p j. j < off p \<and> kr_value (L p ! j) = kr_value rec \<longrightarrow>
         stored a fs \<lparr>r_station = st, r_ts = g_ts e, r_raw = g_raw e\<rparr>)"
    if e: "e \<in> set es" "\<not> is_zero (g_ts e)" for e
  proof -
    let ?r = "\<lparr>r_station = st, r_ts = g_ts e, r_raw = g_raw e\<rparr>"
    obtain rec where rec: "(i, rec) \<in> set (sy_log g)" "rec \<in> set (gw_log (sy_world g))" "kr_key rec = st"
      "\<And>rec'. kr_value rec' = kr_value rec \<Longrightarrow> fst (decode_row rec') = ?r"
      using r e by blast
    have "row_partition ?r \<noteq> unknown_dir" by (rule dated_partition) (use l(3) e(2) in simp_all)
    then have "stored a fs ?r" if "j < off p" "kr_value (L p ! j) = kr_value rec" for p j
      using life_stored [OF assms(8-10) that(1)] rec(4) [OF that(2)] by simp
    with rec(1-3) show ?thesis by blast
  qed
  with l(1,2,4) show ?thesis by blast
qed

theorem acknowledged_event_survives_witness:
  "\<exists>g rec fs. gsys_reach raw_topic sample_gw g \<and> (0, rec) \<in> set (sy_log g) \<and>
     group_life arch_decode (arch_flush sample_archiver ::
       _ \<Rightarrow> (row, krecord list \<times> krecord list \<times> krecord list, nat, fsys) flush_fn) fs_files (log_of rec) []
       (advance (\<lambda>p. 0) [rec]) (fs_files fs) \<and>
     stored sample_archiver fs \<lparr>r_station = kr_key rec, r_ts = sample_time, r_raw = ''msg''\<rparr>"
proof -
  obtain g w rec where g: "gsys_reach raw_topic sample_gw g" "0 < length (sy_threads g)" "responded (sy_threads g ! 0) = Some w"
    "rq_path (th_rq (sy_threads g ! 0)) = ''/v1/events''" "rs_status w = Some 200"
    and es: "\<forall>es. decodes_events (rq_body (th_rq (sy_threads g ! 0))) es \<longrightarrow> es = [\<lparr>g_id = 7, g_ts = sample_time, g_raw = ''msg''\<rparr>]"
    and all: "\<forall>rec'. (0, rec') \<in> set (sy_log g) \<longleftrightarrow> rec' = rec" by (rule sample_logged)
  note mem = all [rule_format]
  obtain fs :: fsys where l: "group_life arch_decode (arch_flush sample_archiver ::
     _ \<Rightarrow> (row, krecord list \<times> krecord list \<times> krecord list, nat, fsys) flush_fn) fs_files (log_of rec) []
     (advance (\<lambda>p. 0) [rec]) (fs_files fs)" by (rule sample_arch_life)
  have d: "distinct_stamps (log_of rec)" unfolding distinct_stamps_def by (metis log_of_index)
  have passed: "0 < advance (\<lambda>p. 0) [rec] (part_of rec) \<and> kr_value (log_of rec (part_of rec) ! 0) = kr_value rec"
    using log_of_index [of 0 rec "part_of rec"] by simp
  from acknowledged_event_survives [OF g(1) sample_gw_good g(2) refl g(3-5) l sample_archiver_good d]
  obtain st es' where n: "decodes_events (rq_body (th_rq (sy_threads g ! 0))) es'"
    "\<forall>e \<in> set es'. \<not> is_zero (g_ts e) \<longrightarrow>
       (\<exists>x. (0, x) \<in> set (sy_log g) \<and> x \<in> set (gw_log (sy_world g)) \<and> kr_key x = st \<and>
         (\<forall>p j. j < advance (\<lambda>p. 0) [rec] p \<and> kr_value (log_of rec p ! j) = kr_value x \<longrightarrow>
            stored sample_archiver fs \<lparr>r_station = st, r_ts = g_ts e, r_raw = g_raw e\<rparr>))"
    by metis
  let ?e = "\<lparr>g_id = 7, g_ts = sample_time, g_raw = ''msg''\<rparr>"
  from es n(1) have e: "?e \<in> set es'" "\<not> is_zero (g_ts ?e)" by auto
  from n(2) [THEN bspec, OF e(1), THEN mp, OF e(2)] obtain x where x: "(0, x) \<in> set (sy_log g)" "kr_key x = st"
    "\<forall>p j. j < advance (\<lambda>p. 0) [rec] p \<and> kr_value (log_of rec p ! j) = kr_value x \<longrightarrow>
       stored sample_archiver fs \<lparr>r_station = st, r_ts = g_ts ?e, r_raw = g_raw ?e\<rparr>" by (elim exE conjE)
  from x(1) have "x = rec" by (simp only: mem)
  with x(2) x(3) [THEN spec, of "part_of rec", THEN spec, of 0, THEN mp] passed
  have "stored sample_archiver fs \<lparr>r_station = kr_key rec, r_ts = sample_time, r_raw = ''msg''\<rparr>" by simp
  with g(1) mem l show ?thesis by blast
qed

end
